(* ===== verification/Go_Prelude.thy ===== *)
theory Go_Prelude
  imports Main "HOL-Library.Word" "HOL-Library.Sublist"
begin

text \<open>
  Prelude: what the components share. The Go values of the program (a Go \<open>string\<close> and a
  \<open>[]byte\<close> are both sequences of bytes, so both are \<^typ>\<open>char list\<close> here), the three
  ways a Go call can end (a value, a panic, the process's exit by \<open>log.Fatal\<close>) plus the
  call that never returns, and the functions of \<open>strings\<close> and \<open>strconv\<close> that the
  sources under \<open>src/\<close> call, each with the laws the component proofs rest on.
\<close>

section \<open>Collections of simplification rules\<close>

named_theorems go_string "laws of the string functions, used by the component proofs"

section \<open>Values and outcomes\<close>

lemma newline_char_of [simp]: "CHR 0x0A = char_of (n :: nat) \<longleftrightarrow> n mod 256 = 10"
  by (subst eq_commute) (simp add: char_of_eq_iff take_bit_eq_mod)

type_synonym bytes = "char list"

abbreviation newline :: char where "newline \<equiv> CHR 0x0A"
abbreviation nul :: char where "nul \<equiv> CHR 0x00"
abbreviation dash :: char where "dash \<equiv> CHR ''-''"
abbreviation colon :: char where "colon \<equiv> CHR '':''"

text \<open>
  An error value. \<open>Errorf\<close> keeps the format string of \<open>fmt.Errorf\<close> (or of
  \<open>errors.New\<close>, \<open>log.Fatalf\<close>, \<open>panic(fmt.Sprintf(..))\<close>) and its string
  arguments apart; \<open>Lib_error\<close> is an error that a library call returned.
\<close>

datatype go_error = Lib_error string | Errorf string "string list"

text \<open>
  How a call ends: it returns, it panics, it ends the process through \<open>log.Fatal\<close>, or it
  blocks for ever (a second \<open>Lock\<close> of a held mutex).
\<close>

datatype 'a outcome = Ret 'a | Panic go_error | Fatal go_error | Blocked

fun outcome_bind :: "'a outcome \<Rightarrow> ('a \<Rightarrow> 'b outcome) \<Rightarrow> 'b outcome" where
  "outcome_bind (Ret x) f = f x"
| "outcome_bind (Panic e) f = Panic e"
| "outcome_bind (Fatal e) f = Fatal e"
| "outcome_bind Blocked f = Blocked"

lemma outcome_bind_Ret_iff [simp]:
  "outcome_bind r f = Ret y \<longleftrightarrow> (\<exists>x. r = Ret x \<and> f x = Ret y)"
  by (cases r) auto

text \<open>Indexing a slice: out of range is a run-time panic.\<close>

definition go_index :: "'a list \<Rightarrow> nat \<Rightarrow> 'a outcome" where
  "go_index xs i = (if i < length xs then Ret (xs ! i)
                    else Panic (Lib_error ''index out of range''))"

lemma go_index_in [simp]: "i < length xs \<Longrightarrow> go_index xs i = Ret (xs ! i)"
  by (simp add: go_index_def)

lemma go_index_out [simp]:
  "length xs \<le> i \<Longrightarrow> go_index xs i = Panic (Lib_error ''index out of range'')"
  by (simp add: go_index_def)

section \<open>Package strings\<close>

text \<open>\<open>strings.Split(s, sep)\<close>; every separator of the sources is one byte.\<close>

fun go_split :: "char \<Rightarrow> string \<Rightarrow> string list" where
  "go_split c [] = [[]]"
| "go_split c (x # xs) =
     (if x = c then [] # go_split c xs
      else (case go_split c xs of [] \<Rightarrow> [[x]] | y # ys \<Rightarrow> (x # y) # ys))"

text \<open>\<open>strings.Join(xs, sep)\<close>.\<close>

fun go_join :: "string \<Rightarrow> string list \<Rightarrow> string" where
  "go_join sep [] = []"
| "go_join sep [x] = x"
| "go_join sep (x # y # ys) = x @ sep @ go_join sep (y # ys)"

definition trim_suffix :: "string \<Rightarrow> string \<Rightarrow> string" where
  "trim_suffix suf s = (if suffix suf s then take (length s - length suf) s else s)"

fun contains_str :: "string \<Rightarrow> string \<Rightarrow> bool" where
  "contains_str [] sub = (sub = [])"
| "contains_str (x # xs) sub = (prefix sub (x # xs) \<or> contains_str xs sub)"

text \<open>
  \<open>strings.ToLower\<close>: byte by byte on ASCII; on other strings it goes through the Unicode case
  tables, the parameter \<open>unicode_lower\<close>.
\<close>

definition ascii_lower :: "char \<Rightarrow> char" where
  "ascii_lower c = (let n = of_char c :: nat in if 65 \<le> n \<and> n \<le> 90 then char_of (n + 32) else c)"

definition to_lower :: "(string \<Rightarrow> string) \<Rightarrow> string \<Rightarrow> string" where
  "to_lower unicode_lower s =
     (if \<forall>c \<in> set s. (of_char c :: nat) < 128 then map ascii_lower s else unicode_lower s)"

lemma go_split_not_Nil [simp]: "go_split c s \<noteq> []"
  by (induction s) (auto split: list.splits)

lemma go_split_no_sep [go_string]: "c \<notin> set s \<Longrightarrow> go_split c s = [s]"
  by (induction s) auto

lemma go_split_append [go_string]:
  "c \<notin> set s \<Longrightarrow> go_split c (s @ c # t) = s # go_split c t"
  by (induction s) auto

lemma go_split_hd: "hd (go_split c s) = takeWhile (\<lambda>x. x \<noteq> c) s"
  by (induction s) (auto split: list.splits)

lemma go_split_nth_0 [go_string]: "go_split c s ! 0 = takeWhile (\<lambda>x. x \<noteq> c) s"
  using go_split_hd [of c s] by (simp add: hd_conv_nth)

lemma go_split_length: "length (go_split c s) = Suc (count_list s c)"
  by (induction s) (auto split: list.splits)

lemma go_split_length_pos [simp]: "0 < length (go_split c s)"
  by simp

lemma go_join_split: "go_join [c] (go_split c s) = s"
proof (induction s)
  case Nil
  then show ?case by simp
next
  case (Cons x xs)
  obtain y ys where ys: "go_split c xs = y # ys"
    by (cases "go_split c xs") auto
  show ?case
    using Cons.IH ys by (cases ys) auto
qed

lemma go_split_join:
  "xs \<noteq> [] \<Longrightarrow> (\<forall>x \<in> set xs. c \<notin> set x) \<Longrightarrow> go_split c (go_join [c] xs) = xs"
  by (induction "[c]" xs rule: go_join.induct) (auto simp: go_string)

lemma trim_suffix_append [simp, go_string]: "trim_suffix suf (s @ suf) = s"
  by (simp add: trim_suffix_def suffix_def)

lemma trim_suffix_other: "\<not> suffix suf s \<Longrightarrow> trim_suffix suf s = s"
  by (simp add: trim_suffix_def)

lemma trim_newline_no: "newline \<notin> set s \<Longrightarrow> trim_suffix [newline] s = s"
  by (rule trim_suffix_other) (auto simp: suffix_def)

lemma contains_str_sublist: "contains_str s sub = sublist sub s"
  by (induction s) (auto simp: sublist_Cons_right)

lemma contains_str_append: "contains_str (xs @ sub @ ys) sub"
  by (simp add: contains_str_sublist)

lemma takeWhile_neq_id [simp]: "c \<notin> set s \<Longrightarrow> takeWhile (\<lambda>x. x \<noteq> c) s = s"
  by (induction s) auto

section \<open>Package strconv\<close>

text \<open>
  \<open>strconv.Itoa\<close>, \<open>strconv.FormatUint\<close>: decimal digits, most significant first, with
  a sign for a negative number.
\<close>

fun nat_digits :: "nat \<Rightarrow> string" where
  "nat_digits n = (if n < 10 then [char_of (n + 48)]
                   else nat_digits (n div 10) @ [char_of (n mod 10 + 48)])"

declare nat_digits.simps [simp del]

definition itoa :: "int \<Rightarrow> string" where
  "itoa n = (if n < 0 then dash # nat_digits (nat (- n)) else nat_digits (nat n))"

definition format_uint :: "'w::len word \<Rightarrow> string" where
  "format_uint w = nat_digits (unat w)"

text \<open>
  \<open>strconv.Atoi\<close> on a 64-bit platform: the value and the error, as Go returns both (the
  value is 0 after a syntax error and saturated after a range error). The digits are read from
  the left, so an overflow is reported before a later bad character is seen.
\<close>

definition digit_val :: "char \<Rightarrow> nat option" where
  "digit_val c = (let n = of_char c :: nat in if 48 \<le> n \<and> n \<le> 57 then Some (n - 48) else None)"

datatype atoi_scan = Scanned nat | Scan_syntax | Scan_range

fun scan_uint :: "nat \<Rightarrow> string \<Rightarrow> atoi_scan" where
  "scan_uint n [] = Scanned n"
| "scan_uint n (c # cs) =
     (case digit_val c of
        None \<Rightarrow> Scan_syntax
      | Some d \<Rightarrow> (if n * 10 + d \<ge> 2 ^ 64 then Scan_range else scan_uint (n * 10 + d) cs))"

abbreviation err_syntax :: go_error where "err_syntax \<equiv> Lib_error ''invalid syntax''"
abbreviation err_range :: go_error where "err_range \<equiv> Lib_error ''value out of range''"

definition atoi_signed :: "bool \<Rightarrow> string \<Rightarrow> int \<times> go_error option" where
  "atoi_signed neg ds =
     (if ds = [] then (0, Some err_syntax)
      else (case scan_uint 0 ds of
          Scan_syntax \<Rightarrow> (0, Some err_syntax)
        | Scan_range \<Rightarrow> (if neg then - (2 ^ 63) else 2 ^ 63 - 1, Some err_range)
        | Scanned n \<Rightarrow>
            (if \<not> neg \<and> n \<ge> 2 ^ 63 then (2 ^ 63 - 1, Some err_range)
             else if neg \<and> n > 2 ^ 63 then (- (2 ^ 63), Some err_range)
             else (if neg then - int n else int n, None))))"

definition atoi :: "string \<Rightarrow> int \<times> go_error option" where
  "atoi s = (case s of
       [] \<Rightarrow> (0, Some err_syntax)
     | c # cs \<Rightarrow> (if c = dash then atoi_signed True cs
                  else if c = CHR ''+'' then atoi_signed False cs
                  else atoi_signed False s))"

text \<open>\<open>strconv.ParseBool\<close>, the value (false after an error).\<close>

definition parse_bool :: "string \<Rightarrow> bool" where
  "parse_bool s = (s \<in> set [''1'', ''t'', ''T'', ''TRUE'', ''true'', ''True''])"

lemma digit_val_char_of [simp]: "d < 10 \<Longrightarrow> digit_val (char_of (d + 48 :: nat)) = Some d"
  by (simp add: digit_val_def Let_def)

lemma nat_digits_not_Nil [simp]: "nat_digits n \<noteq> []"
  by (subst nat_digits.simps) simp

lemma nat_digits_range: "c \<in> set (nat_digits n) \<Longrightarrow> 48 \<le> (of_char c :: nat) \<and> (of_char c :: nat) \<le> 57"
proof (induction n rule: nat_digits.induct)
  case (1 n)
  show ?case
  proof (cases "n < 10")
    case True
    with "1.prems" show ?thesis by (auto simp: nat_digits.simps [of n])
  next
    case False
    with 1 show ?thesis by (auto simp: nat_digits.simps [of n])
  qed
qed

lemma nat_digits_no_dash [simp]: "dash \<notin> set (nat_digits n)"
  using nat_digits_range [of dash n] by auto

lemma nat_digits_no_newline [simp]: "newline \<notin> set (nat_digits n)"
  using nat_digits_range [of newline n] by auto

lemma nat_digits_no_colon [simp]: "colon \<notin> set (nat_digits n)"
  using nat_digits_range [of colon n] by auto

lemma itoa_no_newline [simp]: "newline \<notin> set (itoa n)"
  by (simp add: itoa_def)

lemma itoa_no_dash: "0 \<le> n \<Longrightarrow> dash \<notin> set (itoa n)"
  by (simp add: itoa_def)

text \<open>Reading the digits of a number that fits back gives the number.\<close>

lemma scan_uint_append:
  "scan_uint n xs = Scanned m \<Longrightarrow> scan_uint n (xs @ ys) = scan_uint m ys"
  by (induction n xs rule: scan_uint.induct) (auto split: option.splits if_splits)

lemma scan_uint_digits: "n < 2 ^ 64 \<Longrightarrow> scan_uint 0 (nat_digits n) = Scanned n"
proof (induction n rule: nat_digits.induct)
  case (1 n)
  show ?case
  proof (cases "n < 10")
    case True
    then show ?thesis by (simp add: nat_digits.simps [of n])
  next
    case False
    have "n div 10 < 2 ^ 64" using "1.prems" by simp
    with False "1.IH" have "scan_uint 0 (nat_digits (n div 10)) = Scanned (n div 10)" by simp
    then have "scan_uint 0 (nat_digits n) = scan_uint (n div 10) [char_of (n mod 10 + 48)]"
      using False by (simp add: nat_digits.simps [of n] scan_uint_append)
    also have "\<dots> = Scanned n" using "1.prems" by simp
    finally show ?thesis .
  qed
qed

lemma nat_digits_hd_digit: "nat_digits n = c # cs \<Longrightarrow> c \<noteq> dash \<and> c \<noteq> CHR ''+''"
  using nat_digits_range [of c n] by auto

lemma atoi_itoa: "- (2 ^ 63) \<le> n \<Longrightarrow> n < 2 ^ 63 \<Longrightarrow> atoi (itoa n) = (n, None)"
proof -
  assume lo: "- (2 ^ 63) \<le> n" and hi: "n < 2 ^ 63"
  show ?thesis
  proof (cases "n < 0")
    case True
    then have "nat (- n) \<le> 2 ^ 63" using lo by simp
    then show ?thesis
      using True by (simp add: itoa_def atoi_def atoi_signed_def scan_uint_digits)
  next
    case False
    then have b: "nat n < 2 ^ 63" using hi by simp
    obtain c cs where d: "nat_digits (nat n) = c # cs"
      by (cases "nat_digits (nat n)") auto
    from nat_digits_hd_digit [OF d] b False show ?thesis
      using scan_uint_digits [of "nat n"]
      by (simp add: itoa_def atoi_def atoi_signed_def d)
  qed
qed

lemma nat_digits_inject:
  assumes "nat_digits m = nat_digits n" and "m < 2 ^ 64" and "n < 2 ^ 64"
  shows "m = n"
proof -
  have "Scanned m = Scanned n"
    using scan_uint_digits [OF assms(2)] scan_uint_digits [OF assms(3)]
    unfolding assms(1) by (rule subst)
  then show ?thesis by (rule atoi_scan.inject(1) [THEN iffD1])
qed

section \<open>Lists\<close>

text \<open>Overwriting a run of a list, with a filler where the run starts past its end.\<close>

definition overwrite :: "'a \<Rightarrow> nat \<Rightarrow> 'a list \<Rightarrow> 'a list \<Rightarrow> 'a list" where
  "overwrite z off new old =
     take off old @ replicate (off - length old) z @ new @ drop (off + length new) old"

lemma overwrite_length:
  "length (overwrite z off new old) = max (off + length new) (length old)"
  by (simp add: overwrite_def max_def min_def) linarith

lemma overwrite_nth:
  assumes "i < max (off + length new) (length old)"
  shows "overwrite z off new old ! i =
           (if off \<le> i \<and> i < off + length new then new ! (i - off)
            else if i < length old then old ! i else z)"
proof -
  consider "i < off" "i < length old" | "i < off" "\<not> i < length old"
    | "off \<le> i" "i < off + length new" | "off + length new \<le> i"
    by linarith
  then show ?thesis
  proof cases
    case 1
    then show ?thesis by (simp add: overwrite_def nth_append)
  next
    case 2
    then have "i - length old < off - length old" by linarith
    with 2 show ?thesis by (simp add: overwrite_def nth_append)
  next
    case 3
    then show ?thesis by (auto simp: overwrite_def nth_append min_def)
  next
    case 4
    with assms have "i < length old" by simp
    with 4 show ?thesis
      by (auto simp: overwrite_def nth_append min_def)
  qed
qed

lemma overwrite_at_end [simp]: "overwrite z (length old) new old = old @ new"
  by (simp add: overwrite_def)

text \<open>A prefix of a mapped list.\<close>

lemma append_eq_map_prefix:
  assumes "xs @ ys = map f zs"
  shows "xs = map f (take (length xs) zs)" and "length xs \<le> length zs"
proof -
  have "take (length xs) (map f zs) = xs" unfolding assms [symmetric] by simp
  then show "xs = map f (take (length xs) zs)" by (simp add: take_map)
  show "length xs \<le> length zs" using arg_cong [OF assms, of length] by simp
qed

end
