(* ===== verification/Go_IO.thy ===== *)
theory Go_IO
  imports Go_Prelude
begin

text \<open>
  The input and output of the sources: regular files with a descriptor's offset
  (\<open>os.File\<close>: \<open>Write\<close>, \<open>WriteAt\<close>, \<open>ReadAt\<close>), the big-endian length prefix of
  \<open>encoding/binary\<close>, \<open>bufio.Reader.ReadBytes\<close> on a byte stream, and the growable buffer
  \<open>bytes.Buffer\<close> with the array it shares with the slices that \<open>Bytes()\<close> returned.
\<close>

section \<open>Files\<close>

text \<open>The content of a file and the offset of the descriptor that writes it.\<close>

record go_file =
  fcontent :: bytes
  fpos :: nat

text \<open>\<open>File.Write\<close> on a descriptor opened without \<open>O_APPEND\<close>: at its own offset.\<close>

definition file_write :: "go_file \<Rightarrow> bytes \<Rightarrow> go_file" where
  "file_write f bs =
     (if bs = [] then f
      else f\<lparr>fcontent := overwrite nul (fpos f) bs (fcontent f), fpos := fpos f + length bs\<rparr>)"

text \<open>
  A \<open>*os.File\<close> may be nil (the sources drop the error of \<open>os.OpenFile\<close>); a method on a
  nil file returns an error, which the writers of the log drop too.
\<close>

definition fd_write :: "go_file option \<Rightarrow> bytes \<Rightarrow> go_file option \<times> go_error option" where
  "fd_write fd bs = (case fd of
       None \<Rightarrow> (None, Some (Lib_error ''invalid argument''))
     | Some f \<Rightarrow> (Some (file_write f bs), None))"

text \<open>A descriptor that stands at the end of its file: every write is then an append.\<close>

definition at_end :: "go_file \<Rightarrow> bool" where
  "at_end f \<longleftrightarrow> fpos f = length (fcontent f)"

lemma file_write_at_end:
  assumes "at_end f"
  shows "fcontent (file_write f bs) = fcontent f @ bs" and "at_end (file_write f bs)"
  using assms by (simp_all add: file_write_def at_end_def)

text \<open>Writing chunk by chunk is writing the concatenation.\<close>

lemma overwrite_append:
  "overwrite z (off + length xs) ys (overwrite z off xs old) = overwrite z off (xs @ ys) old"
proof (rule nth_equalityI)
  show "length (overwrite z (off + length xs) ys (overwrite z off xs old)) =
      length (overwrite z off (xs @ ys) old)"
    by (simp add: overwrite_length)
next
  fix i
  assume "i < length (overwrite z (off + length xs) ys (overwrite z off xs old))"
  then have i: "i < max (off + length xs + length ys) (length old)"
    by (simp add: overwrite_length)
  then show "overwrite z (off + length xs) ys (overwrite z off xs old) ! i =
      overwrite z off (xs @ ys) old ! i"
    by (cases "i < off + length xs")
       (auto simp: overwrite_length overwrite_nth nth_append less_max_iff_disj add.assoc)
qed

lemma file_write_append: "file_write (file_write f xs) ys = file_write f (xs @ ys)"
  by (simp add: file_write_def overwrite_append add.assoc)

lemma file_write_from_start:
  "fpos f = 0 \<Longrightarrow> fcontent (file_write f bs) = bs @ drop (length bs) (fcontent f)"
  by (simp add: file_write_def overwrite_def)

text \<open>
  \<open>File.WriteAt\<close> and \<open>File.ReadAt\<close>. A negative offset is refused before anything is
  written. The file system lets a file grow to \<open>limit\<close> bytes: what fits is written, and the
  rest of the call fails. A read past the end returns the bytes there are and \<open>io.EOF\<close>.
\<close>

definition write_at :: "nat \<Rightarrow> bytes \<Rightarrow> bytes \<Rightarrow> int \<Rightarrow> bytes \<times> go_error option" where
  "write_at limit content bs off =
     (if off < 0 then (content, Some (Lib_error ''negative offset''))
      else if bs = [] then (content, None)
      else if nat off + length bs \<le> limit then (overwrite nul (nat off) bs content, None)
      else if nat off < limit
        then (overwrite nul (nat off) (take (limit - nat off) bs) content,
              Some (Lib_error ''file too large''))
      else (content, Some (Lib_error ''file too large'')))"

definition read_at :: "bytes \<Rightarrow> nat \<Rightarrow> int \<Rightarrow> bytes \<times> go_error option" where
  "read_at content n off =
     (if off < 0 then ([], Some (Lib_error ''negative offset''))
      else let bs = take n (drop (nat off) content)
           in (bs, if length bs < n then Some (Lib_error ''EOF'') else None))"

section \<open>Package encoding/binary\<close>

text \<open>\<open>binary.Write\<close> and \<open>binary.Read\<close> of an \<open>int32\<close> in \<open>BigEndian\<close> order.\<close>

definition be32 :: "32 word \<Rightarrow> bytes" where
  "be32 w = (let n = unat w in
     [char_of (n div 16777216), char_of (n div 65536), char_of (n div 256), char_of n])"

definition be32_dec :: "bytes \<Rightarrow> 32 word" where
  "be32_dec bs = word_of_nat (foldl (\<lambda>n c. n * 256 + (of_char c :: nat)) 0 bs)"

lemma be32_length [simp]: "length (be32 w) = 4"
  by (simp add: be32_def Let_def)

lemma be32_digits:
  fixes n :: nat
  assumes "n < 4294967296"
  shows "((n div 16777216 mod 256 * 256 + n div 65536 mod 256) * 256 + n div 256 mod 256) * 256
           + n mod 256 = n"
proof -
  have d: "n div 16777216 mod 256 = n div 16777216"
    using assms by (simp add: less_mult_imp_div_less)
  have "n div 16777216 = n div 65536 div 256" and "n div 65536 = n div 256 div 256"
    by (simp_all flip: div_mult2_eq)
  then show ?thesis unfolding d by simp
qed

lemma be32_roundtrip [simp]: "be32_dec (be32 w) = w"
proof -
  have "unat w < 2 ^ LENGTH(32)" by (rule unsigned_less)
  then have "unat w < 4294967296" by simp
  then have "foldl (\<lambda>n c. n * 256 + (of_char c :: nat)) 0 (be32 w) = unat w"
    using be32_digits [of "unat w"] by (simp add: be32_def Let_def algebra_simps)
  then show ?thesis by (simp add: be32_dec_def)
qed

text \<open>The conversion \<open>int32(len(x))\<close> keeps a length below \<open>2^31\<close>.\<close>

lemma sint_int32_len: "n < 2 ^ 31 \<Longrightarrow> sint (word_of_nat n :: 32 word) = int n"
  by (simp add: signed_of_nat signed_take_bit_int_eq_self)

section \<open>Package bufio\<close>

text \<open>
  \<open>ReadBytes('\n')\<close> and \<open>ReadString('\n')\<close>: the bytes up to and including the
  delimiter, or what is left of the stream and \<open>io.EOF\<close>; and the rest of the stream.
\<close>

fun read_line :: "bytes \<Rightarrow> bytes \<times> bool \<times> bytes" where
  "read_line [] = ([], False, [])"
| "read_line (c # cs) =
     (if c = newline then ([c], True, cs)
      else (let (l, ok, rest) = read_line cs in (c # l, ok, rest)))"

lemma read_line_newline:
  "newline \<notin> set l \<Longrightarrow> read_line (l @ newline # rest) = (l @ [newline], True, rest)"
  by (induction l) auto

lemma read_line_eof: "newline \<notin> set l \<Longrightarrow> read_line l = (l, False, [])"
  by (induction l) auto

lemma read_line_rest:
  "read_line s = (l, ok, rest) \<Longrightarrow> s = l @ rest \<and> (ok \<longrightarrow> l \<noteq> [] \<and> last l = newline)
     \<and> (\<not> ok \<longrightarrow> rest = [])"
proof (induction s arbitrary: l)
  case Nil
  then show ?case by simp
next
  case (Cons c cs)
  then show ?case by (auto split: if_splits prod.splits)
qed

lemma read_line_shorter: "read_line s = (l, True, rest) \<Longrightarrow> length rest < length s"
  by (drule read_line_rest) (auto simp: neq_Nil_conv)

section \<open>Package bytes: the growable buffer\<close>

text \<open>
  A \<open>bytes.Buffer\<close> that is only written, reset and asked for \<open>Bytes()\<close>: the address of its
  backing array (none yet for the zero buffer) and the number of bytes in use. The arrays live in
  a heap, and a slice that \<open>Bytes()\<close> returned is the address and a length: it reads whatever
  the array holds when it is read.
\<close>

record heap =
  harr :: "nat \<Rightarrow> bytes"
  hnext :: nat

definition halloc :: "heap \<Rightarrow> bytes \<Rightarrow> heap \<times> nat" where
  "halloc h bs = (h\<lparr>harr := (harr h)(hnext h := bs), hnext := Suc (hnext h)\<rparr>, hnext h)"

record buffer =
  barr :: "nat option"
  blen :: nat

definition buf_reset :: "buffer \<Rightarrow> buffer" where
  "buf_reset b = b\<lparr>blen := 0\<rparr>"

text \<open>
  \<open>Buffer.Write\<close>: in place while the array has room (\<open>tryGrowByReslice\<close>), else a first array
  of 64 bytes for a small write, else a new array of twice the capacity plus the write, with the
  bytes in use copied over. The old array keeps its bytes.
\<close>

definition buf_write :: "heap \<Rightarrow> buffer \<Rightarrow> bytes \<Rightarrow> heap \<times> buffer" where
  "buf_write h b bs = (let n = length bs; m = blen b in
     case barr b of
       None \<Rightarrow>
         (if n = 0 then (h, b)
          else let (h', a) = halloc h (bs @ replicate ((if n \<le> 64 then 64 else n) - n) nul)
          in (h', \<lparr>barr = Some a, blen = n\<rparr>))
     | Some a \<Rightarrow>
         (let c = length (harr h a) in
          if m + n \<le> c
          then (h\<lparr>harr := (harr h)(a := overwrite nul m bs (harr h a))\<rparr>, b\<lparr>blen := m + n\<rparr>)
          else (let (h', a') = halloc h (take m (harr h a) @ bs @ replicate (2 * c - m) nul)
                in (h', \<lparr>barr = Some a', blen = m + n\<rparr>))))"

fun buf_writes :: "heap \<Rightarrow> buffer \<Rightarrow> bytes list \<Rightarrow> heap \<times> buffer" where
  "buf_writes h b [] = (h, b)"
| "buf_writes h b (x # xs) = (let (h', b') = buf_write h b x in buf_writes h' b' xs)"

text \<open>
  A \<open>[]byte\<close>: a slice of its own, made by a conversion from a string or by the decoder and
  never written afterwards, or a window on a buffer's array.
\<close>

datatype slice = Own bytes | Window nat nat

fun slice_bytes :: "heap \<Rightarrow> slice \<Rightarrow> bytes" where
  "slice_bytes h (Own bs) = bs"
| "slice_bytes h (Window a n) = take n (harr h a)"

definition buf_bytes :: "buffer \<Rightarrow> slice" where
  "buf_bytes b = (case barr b of None \<Rightarrow> Own [] | Some a \<Rightarrow> Window a (blen b))"

lemma overwrite_Nil: "overwrite z off [] old = old \<or> length old < off"
  by (auto simp: overwrite_def)

text \<open>Writes that fit the array go through in place.\<close>

lemma buf_writes_fit:
  "barr b = Some a \<Longrightarrow> blen b + length (concat xs) \<le> length (harr h a) \<Longrightarrow>
     buf_writes h b xs =
       (h\<lparr>harr := (harr h)(a := overwrite nul (blen b) (concat xs) (harr h a))\<rparr>,
        b\<lparr>blen := blen b + length (concat xs)\<rparr>)"
proof (induction xs arbitrary: h b)
  case Nil
  then have "overwrite nul (blen b) [] (harr h a) = harr h a"
    using overwrite_Nil [of nul "blen b" "harr h a"] by simp
  with Nil show ?case by simp
next
  case (Cons x xs)
  let ?h = "h\<lparr>harr := (harr h)(a := overwrite nul (blen b) x (harr h a))\<rparr>"
  let ?b = "b\<lparr>blen := blen b + length x\<rparr>"
  have w: "buf_write h b x = (?h, ?b)"
    using Cons.prems by (simp add: buf_write_def Let_def)
  have "length (harr ?h a) = length (harr h a)" using Cons.prems by (simp add: overwrite_length)
  with Cons.prems Cons.IH [of ?b ?h] show ?case
    by (simp add: w overwrite_append add.assoc cong: if_cong)
qed

end
