(* ===== verification/PB_Command.thy ===== *)
theory PB_Command
  imports Go_IO
begin

text \<open>
  The message that clients send, that Raft replicates and that the logs hold: the generated
  Protocol Buffers type \<open>pb.Command\<close> of the package \<open>journey/pb\<close>. The package is not part
  of the repository, so the model has the fields that the sources set and read, and its encoder
  and decoder are the parameter \<open>pb_codec\<close> of every definition that calls them. What a proof
  needs of them is \<open>codec_law\<close>, for the command at hand: what was marshalled is unmarshalled
  to the same command.
\<close>

text \<open>A proto3 enumeration is open: a number without a name is a possible value.\<close>

datatype pb_op = Command_SET | Command_GET | Command_DELETE | Command_other "32 word"

record pb_command =
  cmd_id :: "64 word"
  cmd_ip :: string
  cmd_op :: pb_op
  cmd_key :: string
  cmd_value :: string

text \<open>\<open>proto.Marshal\<close> returns the bytes and an error, \<open>proto.Unmarshal\<close> one or the other.\<close>

record pb_codec =
  pb_marshal :: "pb_command \<Rightarrow> bytes \<times> go_error option"
  pb_unmarshal :: "bytes \<Rightarrow> go_error + pb_command"

definition codec_law :: "pb_codec \<Rightarrow> pb_command \<Rightarrow> bool" where
  "codec_law P c \<longleftrightarrow> snd (pb_marshal P c) = None \<and> pb_unmarshal P (fst (pb_marshal P c)) = Inr c"

abbreviation serialize :: "pb_codec \<Rightarrow> pb_command \<Rightarrow> bytes" where
  "serialize P c \<equiv> fst (pb_marshal P c)"

section \<open>A concrete codec\<close>

text \<open>
  A codec that satisfies the law, for the theorems that show a hypothesis about the parameter can
  be met: a byte for the operation, the identifier in eight bytes, and each string after a byte
  with its length (so strings of at most 255 bytes, an error beyond). Like the real format it does
  not delimit a message, and decodes a message only when all its bytes are consumed.
\<close>

definition sample_str :: "string \<Rightarrow> bytes" where
  "sample_str s = char_of (length s) # s"

fun sample_op :: "pb_op \<Rightarrow> bytes" where
  "sample_op Command_SET = [char_of (0::nat)]"
| "sample_op Command_GET = [char_of (1::nat)]"
| "sample_op Command_DELETE = [char_of (2::nat)]"
| "sample_op (Command_other w) = char_of (3::nat) # be32 w"

definition sample_marshal :: "pb_command \<Rightarrow> bytes \<times> go_error option" where
  "sample_marshal c =
     (if length (cmd_ip c) < 256 \<and> length (cmd_key c) < 256 \<and> length (cmd_value c) < 256
      then (sample_op (cmd_op c) @ be32 (ucast (drop_bit 32 (cmd_id c))) @ be32 (ucast (cmd_id c))
            @ sample_str (cmd_ip c) @ sample_str (cmd_key c) @ sample_str (cmd_value c), None)
      else ([], Some (Lib_error ''field too long'')))"

definition sample_get_str :: "bytes \<Rightarrow> (string \<times> bytes) option" where
  "sample_get_str bs = (case bs of
       [] \<Rightarrow> None
     | c # cs \<Rightarrow> (let n = of_char c in if n \<le> length cs then Some (take n cs, drop n cs) else None))"

definition sample_get_op :: "bytes \<Rightarrow> (pb_op \<times> bytes) option" where
  "sample_get_op bs = (case bs of
       [] \<Rightarrow> None
     | c # cs \<Rightarrow>
         (if c = char_of (0::nat) then Some (Command_SET, cs)
          else if c = char_of (1::nat) then Some (Command_GET, cs)
          else if c = char_of (2::nat) then Some (Command_DELETE, cs)
          else if c = char_of (3::nat) \<and> 4 \<le> length cs
            then Some (Command_other (be32_dec (take 4 cs)), drop 4 cs)
          else None))"

definition sample_unmarshal :: "bytes \<Rightarrow> go_error + pb_command" where
  "sample_unmarshal bs =
     (case sample_get_op bs of None \<Rightarrow> Inl (Lib_error ''bad message'') | Some (op, r) \<Rightarrow>
      (if length r < 8 then Inl (Lib_error ''bad message'')
       else (case sample_get_str (drop 8 r) of None \<Rightarrow> Inl (Lib_error ''bad message'') | Some (ip, r1) \<Rightarrow>
        (case sample_get_str r1 of None \<Rightarrow> Inl (Lib_error ''bad message'') | Some (key, r2) \<Rightarrow>
         (case sample_get_str r2 of None \<Rightarrow> Inl (Lib_error ''bad message'') | Some (val, r3) \<Rightarrow>
          (if r3 = [] then
             Inr \<lparr>cmd_id = push_bit 32 (ucast (be32_dec (take 4 r))) + ucast (be32_dec (take 4 (drop 4 r))),
                  cmd_ip = ip, cmd_op = op, cmd_key = key, cmd_value = val\<rparr>
           else Inl (Lib_error ''bad message'')))))))"

definition sample_codec :: pb_codec where
  "sample_codec = \<lparr>pb_marshal = sample_marshal, pb_unmarshal = sample_unmarshal\<rparr>"

lemma sample_get_str_append [simp]:
  "length s < 256 \<Longrightarrow> sample_get_str (sample_str s @ rest) = Some (s, rest)"
  by (simp add: sample_get_str_def sample_str_def Let_def)

lemma sample_get_str_end [simp]:
  "length s < 256 \<Longrightarrow> sample_get_str (sample_str s) = Some (s, [])"
  using sample_get_str_append [of s "[]"] by simp

lemma sample_get_op_append [simp]: "sample_get_op (sample_op x @ rest) = Some (x, rest)"
  by (cases x) (simp_all add: sample_get_op_def)

lemma sample_id [simp]:
  "push_bit 32 (ucast (ucast (drop_bit 32 w) :: 32 word)) + ucast (ucast w :: 32 word) = (w :: 64 word)"
proof -
  have "push_bit 32 (ucast (ucast (drop_bit 32 w) :: 32 word) :: 64 word) = push_bit 32 (drop_bit 32 w)"
    by (rule bit_word_eqI) (auto simp: bit_simps dest: bit_imp_le_length)
  moreover have "(ucast (ucast w :: 32 word) :: 64 word) = take_bit 32 w"
    by (rule bit_word_eqI) (auto simp: bit_simps)
  ultimately show ?thesis
    by (simp add: bits_ident)
qed

lemma sample_codec_law:
  "length (cmd_ip c) < 256 \<Longrightarrow> length (cmd_key c) < 256 \<Longrightarrow> length (cmd_value c) < 256
   \<Longrightarrow> codec_law sample_codec c"
  by (simp add: codec_law_def sample_codec_def sample_marshal_def sample_unmarshal_def)

end
