(* ===== verification/FSM_Interface.thy ===== *)
theory FSM_Interface
  imports PB_Command
begin

text \<open>
  The interface between Raft and the applications (\<open>raft.FSM\<close> of hashicorp/raft): Raft hands
  each committed entry, in the order of the log, to \<open>Apply\<close> of the replica's state machine, and
  restores a lagging replica from the bytes that \<open>Persist\<close> wrote. Two contracts: a state
  machine that is deterministic on what it replicates (\<open>raft_fsm\<close>), and one whose snapshot
  carries all of it (\<open>raft_fsm_snapshot\<close>). The lemmas of the locales are what replication then
  gives; the applications interpret them.
\<close>

section \<open>Entries and responses\<close>

text \<open>\<open>raft.Log\<close>, the fields that the sources read, and what \<open>Apply\<close> returns.\<close>

record raft_log =
  log_index :: "64 word"
  log_data :: bytes

datatype fsm_response = Resp_string string | Resp_error go_error | Resp_nil

text \<open>
  Raft's goroutine that feeds a state machine: entry after entry, until \<open>Apply\<close> panics, which
  ends the process. The result: the last state, the responses so far, and whether it crashed.
\<close>

fun fsm_run :: "('s \<Rightarrow> raft_log \<Rightarrow> 's \<times> fsm_response outcome) \<Rightarrow> 's \<Rightarrow> raft_log list
                \<Rightarrow> 's \<times> fsm_response list \<times> bool" where
  "fsm_run f s [] = (s, [], False)"
| "fsm_run f s (e # es) =
     (case f s e of
        (s', Ret r) \<Rightarrow> (let (s'', rs, crashed) = fsm_run f s' es in (s'', r # rs, crashed))
      | (s', _) \<Rightarrow> (s', [], True))"

abbreviation run_state :: "('s \<Rightarrow> raft_log \<Rightarrow> 's \<times> fsm_response outcome) \<Rightarrow> 's \<Rightarrow> raft_log list \<Rightarrow> 's"
  where "run_state f s es \<equiv> fst (fsm_run f s es)"

abbreviation run_crashed :: "('s \<Rightarrow> raft_log \<Rightarrow> 's \<times> fsm_response outcome) \<Rightarrow> 's \<Rightarrow> raft_log list \<Rightarrow> bool"
  where "run_crashed f s es \<equiv> snd (snd (fsm_run f s es))"

lemma fsm_run_Cons_Ret:
  "f s e = (s', Ret r) \<Longrightarrow> fsm_run f s (e # es) =
     (run_state f s' es, r # fst (snd (fsm_run f s' es)), run_crashed f s' es)"
  by (simp split: prod.split)

lemma fsm_run_Cons_crash:
  "f s e = (s', p) \<Longrightarrow> (\<forall>r. p \<noteq> Ret r) \<Longrightarrow> fsm_run f s (e # es) = (s', [], True)"
  by (cases p) auto

text \<open>A run over a longer log continues the run over its prefix, unless that crashed.\<close>

lemma fsm_run_append:
  "fsm_run f s (es @ es') =
     (let (s1, rs1, c1) = fsm_run f s es
      in if c1 then (s1, rs1, True)
         else (let (s2, rs2, c2) = fsm_run f s1 es' in (s2, rs1 @ rs2, c2)))"
proof (induction es arbitrary: s)
  case Nil
  then show ?case by (simp split: prod.split)
next
  case (Cons e es)
  obtain s' p where fe: "f s e = (s', p)" by (cases "f s e") auto
  show ?case
  proof (cases p)
    case (Ret r)
    with fe Cons.IH [of s'] show ?thesis by (simp split: prod.splits)
  qed (use fe in simp_all)
qed

section \<open>A deterministic state machine\<close>

text \<open>
  \<open>view\<close> is the replicated part of a state: two states with the same view answer an entry in
  the same way and go to states with the same view. \<open>inv\<close> is what the code keeps of a state.
\<close>

locale raft_fsm =
  fixes apply_entry :: "'s \<Rightarrow> raft_log \<Rightarrow> 's \<times> fsm_response outcome"
    and view :: "'s \<Rightarrow> 'v"
    and inv :: "'s \<Rightarrow> bool"
  assumes apply_inv: "inv s \<Longrightarrow> inv (fst (apply_entry s e))"
    and apply_view: "inv s \<Longrightarrow> inv t \<Longrightarrow> view s = view t \<Longrightarrow>
          view (fst (apply_entry s e)) = view (fst (apply_entry t e))"
    and apply_response: "inv s \<Longrightarrow> inv t \<Longrightarrow> view s = view t \<Longrightarrow>
          snd (apply_entry s e) = snd (apply_entry t e)"
begin

lemma run_inv: "inv s \<Longrightarrow> inv (run_state apply_entry s es)"
proof (induction es arbitrary: s)
  case Nil
  then show ?case by simp
next
  case (Cons e es)
  obtain s' p where fe: "apply_entry s e = (s', p)" by (cases "apply_entry s e") auto
  with apply_inv [OF Cons.prems, of e] have "inv s'" by simp
  with fe Cons.IH [of s'] show ?case
    by (cases p) (simp_all add: fsm_run_Cons_Ret fsm_run_Cons_crash del: fsm_run.simps)
qed

text \<open>Two replicas that start alike and apply the same entries agree on view, answers and fate.\<close>

lemma run_agree:
  "inv s \<Longrightarrow> inv t \<Longrightarrow> view s = view t \<Longrightarrow>
     view (run_state apply_entry s es) = view (run_state apply_entry t es)
     \<and> snd (fsm_run apply_entry s es) = snd (fsm_run apply_entry t es)"
proof (induction es arbitrary: s t)
  case Nil
  then show ?case by simp
next
  case (Cons e es)
  obtain s' p where fs: "apply_entry s e = (s', p)" by (cases "apply_entry s e") auto
  obtain t' q where ft: "apply_entry t e = (t', q)" by (cases "apply_entry t e") auto
  from Cons.prems fs ft have "inv s'" "inv t'" "view s' = view t'" "p = q"
    using apply_inv [of s e] apply_inv [of t e] apply_view [of s t e] apply_response [of s t e]
    by simp_all
  with Cons.IH [of s' t'] fs ft show ?case
    by (cases q) (simp_all add: fsm_run_Cons_Ret fsm_run_Cons_crash del: fsm_run.simps)
qed

end

section \<open>A state machine with a complete snapshot\<close>

text \<open>
  \<open>persist\<close> gives the bytes a snapshot writes (None when it fails) and \<open>restore\<close> installs
  them; \<open>sound s b\<close> says that the encoder's law holds for this state and these bytes (the
  encoders are library code).
\<close>

locale raft_fsm_snapshot = raft_fsm apply_entry view inv
  for apply_entry :: "'s \<Rightarrow> raft_log \<Rightarrow> 's \<times> fsm_response outcome"
    and view :: "'s \<Rightarrow> 'v" and inv :: "'s \<Rightarrow> bool" +
  fixes persist :: "'s \<Rightarrow> bytes option"
    and restore :: "'s \<Rightarrow> bytes \<Rightarrow> 's \<times> go_error option"
    and sound :: "'s \<Rightarrow> bytes \<Rightarrow> bool"
  assumes restore_ok: "inv s \<Longrightarrow> inv t \<Longrightarrow> persist s = Some b \<Longrightarrow> sound s b \<Longrightarrow> snd (restore t b) = None"
    and restore_inv: "inv s \<Longrightarrow> inv t \<Longrightarrow> persist s = Some b \<Longrightarrow> sound s b \<Longrightarrow> inv (fst (restore t b))"
    and restore_view: "inv s \<Longrightarrow> inv t \<Longrightarrow> persist s = Some b \<Longrightarrow> sound s b \<Longrightarrow>
          view (fst (restore t b)) = view s"
begin

text \<open>
  A replica in any state that installs a snapshot taken after the entries \<open>es\<close> and then applies
  \<open>es'\<close> ends like a replica that applied all of them.
\<close>

lemma catch_up:
  assumes "inv s" and "inv t" and "\<not> run_crashed apply_entry s es"
    and "persist (run_state apply_entry s es) = Some b"
    and "sound (run_state apply_entry s es) b"
  shows "view (run_state apply_entry (fst (restore t b)) es') = view (run_state apply_entry s (es @ es'))"
proof -
  let ?m = "run_state apply_entry s es"
  have m: "inv ?m" by (rule run_inv [OF assms(1)])
  have "view (fst (restore t b)) = view ?m" and "inv (fst (restore t b))"
    using restore_view [OF m assms(2,4,5)] restore_inv [OF m assms(2,4,5)] by simp_all
  with m have "view (run_state apply_entry (fst (restore t b)) es') = view (run_state apply_entry ?m es')"
    using run_agree by blast
  also have "run_state apply_entry ?m es' = run_state apply_entry s (es @ es')"
    using assms(3) by (simp add: fsm_run_append split_beta Let_def)
  finally show ?thesis .
qed

end

section \<open>Concrete entries\<close>

text \<open>The entries of the witnesses: a command in the concrete codec, at index 1.\<close>

definition sample_cmd :: "pb_op \<Rightarrow> string \<Rightarrow> string \<Rightarrow> pb_command" where
  "sample_cmd op k v = \<lparr>cmd_id = 0, cmd_ip = ''15000'', cmd_op = op, cmd_key = k, cmd_value = v\<rparr>"

definition sample_entry :: "pb_op \<Rightarrow> string \<Rightarrow> string \<Rightarrow> raft_log" where
  "sample_entry op k v = \<lparr>log_index = 1, log_data = serialize sample_codec (sample_cmd op k v)\<rparr>"

lemma sample_cmd_simps [simp]:
  "cmd_id (sample_cmd op k v) = 0" "cmd_ip (sample_cmd op k v) = ''15000''"
  "cmd_op (sample_cmd op k v) = op" "cmd_key (sample_cmd op k v) = k" "cmd_value (sample_cmd op k v) = v"
  by (simp_all add: sample_cmd_def)

lemma sample_cmd_law:
  "length k < 256 \<Longrightarrow> length v < 256 \<Longrightarrow> codec_law sample_codec ((sample_cmd op k v)\<lparr>cmd_id := i\<rparr>)"
  by (rule sample_codec_law) simp_all

lemma sample_entry_decodes:
  "length k < 256 \<Longrightarrow> length v < 256 \<Longrightarrow>
     pb_unmarshal sample_codec (log_data (sample_entry op k v)) = Inr (sample_cmd op k v)"
  using sample_codec_law [of "sample_cmd op k v"] by (simp add: sample_entry_def codec_law_def)

lemma sample_entry_index [simp]: "log_index (sample_entry op k v) = 1"
  by (simp add: sample_entry_def)

end
