(* ===== verification/Log_File.thy ===== *)
theory Log_File
  imports FSM_Interface
begin

text \<open>
  The command log on disk, as kvstore (\<open>Apply\<close> with \<open>-logfolder\<close>) and the logger process
  write it: per command a big-endian \<open>int32\<close> with the length of the message and then the
  message, at the offset of a descriptor that \<open>createFile\<close> opened without \<open>O_APPEND\<close> and
  without \<open>O_TRUNC\<close>.
\<close>

section \<open>Opening the log\<close>

text \<open>
  What \<open>os.Stat\<close> says of the name. \<open>os.OpenFile\<close>'s error is dropped, so a failed open
  leaves a nil file (\<open>openable\<close> false).
\<close>

datatype stat_result = Stat_file bytes | Stat_not_exist | Stat_error string

definition createFile :: "stat_result \<Rightarrow> bool \<Rightarrow> string \<Rightarrow> go_file option outcome" where
  "createFile st openable filename = (case st of
       Stat_file old \<Rightarrow> Ret (if openable then Some \<lparr>fcontent = old, fpos = 0\<rparr> else None)
     | Stat_not_exist \<Rightarrow> Ret (if openable then Some \<lparr>fcontent = [], fpos = 0\<rparr> else None)
     | Stat_error e \<Rightarrow> Fatal (Errorf ''Could not create file'' [filename, e]))"

section \<open>Frames\<close>

text \<open>\<open>binary.Write(f, BigEndian, int32(len(msg)))\<close> and \<open>f.Write(msg)\<close>, errors dropped.\<close>

definition write_frame :: "go_file option \<Rightarrow> bytes \<Rightarrow> go_file option" where
  "write_frame fd msg =
     (let fd' = fst (fd_write fd (be32 (word_of_nat (length msg))))
      in fst (fd_write fd' msg))"

definition frame :: "bytes \<Rightarrow> bytes" where
  "frame msg = be32 (word_of_nat (length msg)) @ msg"

definition frames :: "bytes list \<Rightarrow> bytes" where
  "frames msgs = concat (map frame msgs)"

lemma frames_simps [simp]:
  "frames [] = []" "frames (m # ms) = frame m @ frames ms" "frames (ms @ ns) = frames ms @ frames ns"
  by (simp_all add: frames_def)

lemma write_frame_Some: "write_frame (Some f) msg = Some (file_write f (frame msg))"
  by (simp add: write_frame_def fd_write_def Let_def frame_def file_write_append)

lemma write_frame_None [simp]: "write_frame None msg = None"
  by (simp add: write_frame_def fd_write_def)

text \<open>The log of a descriptor: its file's bytes (nothing for a nil file).\<close>

definition log_bytes :: "go_file option \<Rightarrow> bytes" where
  "log_bytes fd = (case fd of None \<Rightarrow> [] | Some f \<Rightarrow> fcontent f)"

text \<open>A process that starts again opens the file its predecessor left, and writes from its start.\<close>

definition reopen :: "go_file option \<Rightarrow> go_file option" where
  "reopen fd = Some \<lparr>fcontent = log_bytes fd, fpos = 0\<rparr>"

lemma createFile_reopen: "createFile (Stat_file (log_bytes fd)) True name = Ret (reopen fd)"
  by (simp add: createFile_def reopen_def)

lemma log_bytes_reopen [simp]: "log_bytes (reopen fd) = log_bytes fd"
  by (simp add: reopen_def log_bytes_def)

definition log_ready :: "go_file option \<Rightarrow> bool" where
  "log_ready fd \<longleftrightarrow> (case fd of None \<Rightarrow> False | Some f \<Rightarrow> at_end f)"

text \<open>
  Opened on an old file, the same writes overwrite it from the start and leave what the new log
  is too short to cover.
\<close>

lemma write_frames_over:
  "fold (\<lambda>m fd. write_frame fd m) ms (Some f) = Some (file_write f (frames ms))"
proof (induction ms arbitrary: f)
  case Nil
  then show ?case by (simp add: file_write_def)
next
  case (Cons m ms)
  then show ?case by (simp add: write_frame_Some file_write_append)
qed

section \<open>Replicas that log\<close>

text \<open>
  A replica whose \<open>Apply\<close> adds one record to its log per entry that decodes: \<open>payload\<close> is
  the message it logs for an entry, \<open>write_msg\<close> how it writes it and \<open>encode\<close> the bytes that
  this puts behind the end of the file. Its log is then the encoded messages of the entries it
  applied, in order, so that two such replicas with the same messages have the same log.
\<close>

locale logging_fsm =
  fixes apply_entry :: "'s \<Rightarrow> raft_log \<Rightarrow> 's \<times> fsm_response outcome"
    and logfile :: "'s \<Rightarrow> go_file option"
    and enabled :: "'s \<Rightarrow> bool"
    and payload :: "raft_log \<Rightarrow> bytes option"
    and write_msg :: "go_file option \<Rightarrow> bytes \<Rightarrow> go_file option"
    and encode :: "bytes \<Rightarrow> bytes"
  assumes apply_enabled: "enabled s \<Longrightarrow> enabled (fst (apply_entry s e))"
    and apply_logfile: "enabled s \<Longrightarrow> logfile (fst (apply_entry s e)) =
          (case payload e of None \<Rightarrow> logfile s | Some msg \<Rightarrow> write_msg (logfile s) msg)"
    and write_file: "write_msg (Some fl) msg = Some (file_write fl (encode msg))"
begin

definition payloads :: "raft_log list \<Rightarrow> bytes list" where
  "payloads es = List.map_filter payload es"

definition log_text :: "raft_log list \<Rightarrow> bytes" where
  "log_text es = concat (map encode (payloads es))"

lemma log_text_append: "log_text (es @ es') = log_text es @ log_text es'"
  by (simp add: log_text_def payloads_def List.map_filter_def)

lemma log_text_one:
  "log_text [e] = (case payload e of None \<Rightarrow> [] | Some m \<Rightarrow> encode m)"
  by (simp add: log_text_def payloads_def List.map_filter_def split: option.split)

lemma log_text_Nil [simp]: "log_text [] = []"
  by (simp add: log_text_def payloads_def List.map_filter_def)

lemma apply_file:
  assumes "enabled s" and "logfile s = Some fl"
  shows "logfile (fst (apply_entry s e)) = Some (file_write fl (log_text [e]))"
  using apply_logfile [OF assms(1), of e] assms(2)
  by (auto simp: log_text_one write_file file_write_def split: option.splits)

text \<open>The log file after a run that did not crash: one write of the whole text.\<close>

lemma run_file:
  assumes "enabled s" and "logfile s = Some fl" and "\<not> run_crashed apply_entry s es"
  shows "logfile (run_state apply_entry s es) = Some (file_write fl (log_text es))"
  using assms
proof (induction es arbitrary: s fl)
  case Nil
  then show ?case by (simp add: file_write_def)
next
  case (Cons e es)
  obtain s' p where fe: "apply_entry s e = (s', p)" by (cases "apply_entry s e") auto
  then have s': "enabled s'" "logfile s' = Some (file_write fl (log_text [e]))"
    using apply_enabled [OF Cons.prems(1), of e] apply_file [OF Cons.prems(1,2), of e] by simp_all
  from Cons.prems(3) fe obtain r where p: "p = Ret r" by (cases p) simp_all
  with Cons.prems(3) fe have "\<not> run_crashed apply_entry s' es"
    by (simp add: fsm_run_Cons_Ret del: fsm_run.simps)
  with Cons.IH [OF s'] have "logfile (run_state apply_entry s' es) =
      Some (file_write fl (log_text ([e] @ es)))"
    unfolding log_text_append by (simp add: file_write_append)
  then show ?case using fe p by (simp add: fsm_run_Cons_Ret del: fsm_run.simps)
qed

text \<open>At the end of its file a replica appends.\<close>

lemma run_log:
  assumes "enabled s" and "log_ready (logfile s)" and "\<not> run_crashed apply_entry s es"
  shows "log_bytes (logfile (run_state apply_entry s es)) = log_bytes (logfile s) @ log_text es"
proof -
  obtain fl where "logfile s = Some fl" "at_end fl"
    using assms(2) by (auto simp: log_ready_def split: option.splits)
  then show ?thesis
    using run_file [OF assms(1) _ assms(3)] file_write_at_end(1) by (simp add: log_bytes_def)
qed

text \<open>Over an old file it overwrites, and what it does not reach stays.\<close>

lemma run_over:
  assumes "enabled s" and "logfile s = Some \<lparr>fcontent = old, fpos = 0\<rparr>" and "\<not> run_crashed apply_entry s es"
  shows "log_bytes (logfile (run_state apply_entry s es)) =
           log_text es @ drop (length (log_text es)) old"
  using run_file [OF assms] by (simp add: log_bytes_def file_write_from_start)

end

end
