(* ===== verification/Go_JSON.thy ===== *)
theory Go_JSON
  imports Go_Prelude "HOL-Library.List_Lexorder" "HOL-Library.Char_ord"
begin

text \<open>
  encoding/json of the standard library (Go 1.13, the version the Dockerfiles build with) as the sources use
  it: maps from strings to strings and to byte slices, the command struct of webkvstore, and
  decoders over bodies and snapshots. With it unicode/utf8 and encoding/base64.
\<close>

section \<open>unicode/utf8\<close>

abbreviation octet :: "char \<Rightarrow> nat" where "octet c \<equiv> of_char c"

definition between :: "nat \<Rightarrow> nat \<Rightarrow> char \<Rightarrow> bool" where
  "between lo hi c \<longleftrightarrow> lo \<le> octet c \<and> octet c \<le> hi"

text \<open>
  How many bytes follow the first of a rune, which of them are accepted, and the length of the rune that a
  string begins with, 0 where \<open>DecodeRune\<close> gives an error.
\<close>

definition rune_tail :: "char \<Rightarrow> nat option" where
  "rune_tail c =
     (if octet c < 0x80 then Some 0 else if between 0xC2 0xDF c then Some 1
      else if between 0xE0 0xEF c then Some 2 else if between 0xF0 0xF4 c then Some 3 else None)"

definition rune_accepts :: "char \<Rightarrow> bytes \<Rightarrow> bool" where
  "rune_accepts c ds = (case ds of [] \<Rightarrow> True
     | d # ds' \<Rightarrow>
         between (if octet c = 0xE0 then 0xA0 else if octet c = 0xF0 then 0x90 else 0x80)
           (if octet c = 0xED then 0x9F else if octet c = 0xF4 then 0x8F else 0xBF) d
         \<and> list_all (between 0x80 0xBF) ds')"

definition utf8_size :: "bytes \<Rightarrow> nat" where
  "utf8_size s = (case s of [] \<Rightarrow> 0
     | c # cs \<Rightarrow> (case rune_tail c of None \<Rightarrow> 0
         | Some k \<Rightarrow> if k \<le> length cs \<and> rune_accepts c (take k cs) then Suc k else 0))"

lemma utf8_size_le: "utf8_size s \<le> length s"
  by (auto simp: utf8_size_def split: list.split option.split)

lemma utf8_size_take: "utf8_size s \<noteq> 0 \<Longrightarrow> utf8_size (take (utf8_size s) s @ t) = utf8_size s"
  by (auto simp: utf8_size_def split: list.splits option.splits if_splits)

lemma utf8_size_ascii: "octet c < 0x80 \<Longrightarrow> utf8_size (c # cs) = 1"
  by (simp add: utf8_size_def rune_tail_def rune_accepts_def)

text \<open>\<open>utf8.ValidString\<close>.\<close>

function utf8_valid :: "bytes \<Rightarrow> bool" where
  "utf8_valid s =
     (if s = [] then True else if utf8_size s = 0 then False else utf8_valid (drop (utf8_size s) s))"
  by pat_completeness auto
termination
  by (relation "measure length") auto

declare utf8_valid.simps [simp del]

text \<open>A string with U+FFFD for each byte that begins no rune.\<close>

definition utf8_error :: bytes where "utf8_error = map char_of [0xEF, 0xBF, 0xBD :: nat]"

function utf8_fix :: "bytes \<Rightarrow> bytes" where
  "utf8_fix s =
     (if s = [] then [] else if utf8_size s = 0 then utf8_error @ utf8_fix (tl s)
      else take (utf8_size s) s @ utf8_fix (drop (utf8_size s) s))"
  by pat_completeness auto
termination
  by (relation "measure length") auto

declare utf8_fix.simps [simp del]

lemma utf8_fix_valid: "utf8_valid s \<Longrightarrow> utf8_fix s = s"
proof (induction s rule: utf8_valid.induct)
  case (1 s)
  show ?case
  proof (cases "s = []")
    case False
    then have "utf8_size s \<noteq> 0" "utf8_valid (drop (utf8_size s) s)"
      using "1.prems" utf8_valid.simps [of s] by (auto split: if_splits)
    with "1.IH" [OF False] False show ?thesis by (simp add: utf8_fix.simps [of s])
  qed (simp add: utf8_fix.simps)
qed

lemma utf8_valid_rune: "utf8_size u = length u \<Longrightarrow> utf8_valid v \<Longrightarrow> utf8_valid (u @ v)"
  using utf8_size_take [of u v] by (cases "u = []") (auto simp: utf8_valid.simps [of "u @ v"])

lemma utf8_valid_Nil [simp]: "utf8_valid []"
  by (simp add: utf8_valid.simps)

lemma utf8_error_size: "utf8_size utf8_error = 3" "length utf8_error = 3"
  by (simp_all add: utf8_error_def utf8_size_def rune_tail_def rune_accepts_def between_def)

lemma utf8_take_size: "utf8_size (take (utf8_size s) s) = utf8_size s"
  using utf8_size_take [of s "[]"] by (cases "utf8_size s = 0") (simp_all add: utf8_size_def)

lemma utf8_fix_is_valid: "utf8_valid (utf8_fix s)"
proof (induction s rule: utf8_fix.induct)
  case (1 s)
  then show ?case
    using utf8_valid_rune [of utf8_error "utf8_fix (tl s)"]
      utf8_valid_rune [of "take (utf8_size s) s" "utf8_fix (drop (utf8_size s) s)"] utf8_size_le [of s] utf8_take_size [of s]
    by (auto simp: utf8_fix.simps [of s] utf8_error_size)
qed

definition utf8_encode :: "nat \<Rightarrow> bytes" where
  "utf8_encode r =
     (let r = (if (0xD800 \<le> r \<and> r < 0xE000) \<or> 0x10FFFF < r then 0xFFFD else r)
      in if r < 0x80 then [char_of r]
         else if r < 0x800 then [char_of (0xC0 + r div 64), char_of (0x80 + r mod 64)]
         else if r < 0x10000 then
           [char_of (0xE0 + r div 4096), char_of (0x80 + r div 64 mod 64), char_of (0x80 + r mod 64)]
         else [char_of (0xF0 + r div 262144), char_of (0x80 + r div 4096 mod 64),
               char_of (0x80 + r div 64 mod 64), char_of (0x80 + r mod 64)])"

section \<open>Strings\<close>

abbreviation dquote :: char where "dquote \<equiv> CHR 0x22"
abbreviation backslash :: char where "backslash \<equiv> CHR 0x5C"

definition hex_digit :: "nat \<Rightarrow> char" where
  "hex_digit n = (if n < 10 then char_of (n + 48) else char_of (n + 87))"

definition hex_val :: "char \<Rightarrow> nat option" where
  "hex_val c =
     (if between 48 57 c then Some (octet c - 48)
      else if between 97 102 c then Some (octet c - 87)
      else if between 65 70 c then Some (octet c - 55) else None)"

text \<open>\<open>encodeState.string\<close>, with the escapes for HTML: a byte below \<open>RuneSelf\<close>, the separators U+2028 and U+2029, a
  byte that begins no rune.\<close>

definition json_escape :: "char \<Rightarrow> bytes" where
  "json_escape c =
     (if c = dquote \<or> c = backslash then [backslash, c]
      else if c = newline then backslash # ''n''
      else if c = CHR 0x0D then backslash # ''r''
      else if c = CHR 0x09 then backslash # ''t''
      else if octet c < 0x20 \<or> c \<in> set ''<>&'' then
        backslash # ''u00'' @ [hex_digit (octet c div 16), hex_digit (octet c mod 16)]
      else [c])"

definition line_separator :: bytes where "line_separator = map char_of [0xE2, 0x80, 0xA8 :: nat]"
definition paragraph_separator :: bytes where "paragraph_separator = map char_of [0xE2, 0x80, 0xA9 :: nat]"

function json_quote :: "bytes \<Rightarrow> bytes" where
  "json_quote s =
     (case s of [] \<Rightarrow> []
      | c # cs \<Rightarrow>
          (if octet c < 0x80 then json_escape c @ json_quote cs
           else (let n = utf8_size s in
                   if n = 0 then backslash # ''ufffd'' @ json_quote cs
                   else (if take n s = line_separator then backslash # ''u2028''
                         else if take n s = paragraph_separator then backslash # ''u2029''
                         else take n s) @ json_quote (drop n s))))"
  by pat_completeness auto
termination
  by (relation "measure length") auto

declare json_quote.simps [simp del]

text \<open>The scanner and \<open>unquoteBytes\<close>, after the opening quote: the string and what follows the closing one.\<close>

definition hex4 :: "bytes \<Rightarrow> (nat \<times> bytes) option" where
  "hex4 s = (case s of
       a # b # c # d # r \<Rightarrow>
         (case (hex_val a, hex_val b, hex_val c, hex_val d) of
            (Some w, Some x, Some y, Some z) \<Rightarrow> Some (((w * 16 + x) * 16 + y) * 16 + z, r)
          | _ \<Rightarrow> None)
     | _ \<Rightarrow> None)"

definition escaped4 :: "bytes \<Rightarrow> (nat \<times> bytes) option" where
  "escaped4 s = (case s of
       b # u # r \<Rightarrow> if b = backslash \<and> u = CHR ''u'' then hex4 r else None
     | _ \<Rightarrow> None)"

definition simple_escape :: "char \<Rightarrow> char option" where
  "simple_escape e =
     (if e = dquote \<or> e = backslash \<or> e = CHR ''/'' then Some e
      else if e = CHR ''b'' then Some (CHR 0x08) else if e = CHR ''f'' then Some (CHR 0x0C)
      else if e = CHR ''n'' then Some newline else if e = CHR ''r'' then Some (CHR 0x0D)
      else if e = CHR ''t'' then Some (CHR 0x09) else None)"

definition prepend :: "bytes \<Rightarrow> (bytes \<times> 'r) option \<Rightarrow> (bytes \<times> 'r) option" where
  "prepend x r = map_option (\<lambda>(v, rest). (x @ v, rest)) r"

lemma hex4_shorter: "hex4 s = Some (n, r) \<Longrightarrow> length r < length s"
  by (auto simp: hex4_def split: list.splits option.splits)

lemma escaped4_shorter: "escaped4 s = Some (n, r) \<Longrightarrow> length r < length s"
  by (auto simp: escaped4_def dest: hex4_shorter split: list.splits if_splits)

function json_unquote :: "bytes \<Rightarrow> (bytes \<times> bytes) option" where
  "json_unquote s =
     (case s of [] \<Rightarrow> None
      | c # cs \<Rightarrow>
          (if c = dquote then Some ([], cs)
           else if c = backslash then
             (case cs of [] \<Rightarrow> None
              | e # r \<Rightarrow>
                  (case simple_escape e of
                     Some x \<Rightarrow> prepend [x] (json_unquote r)
                   | None \<Rightarrow>
                       (if e \<noteq> CHR ''u'' then None
                        else (case hex4 r of None \<Rightarrow> None
                          | Some (n, r1) \<Rightarrow>
                              (case escaped4 r1 of
                                 Some (m, r2) \<Rightarrow>
                                   (if 0xD800 \<le> n \<and> n < 0xDC00 \<and> 0xDC00 \<le> m \<and> m < 0xE000
                                    then prepend (utf8_encode (0x10000 + (n - 0xD800) * 1024 + (m - 0xDC00))) (json_unquote r2)
                                    else prepend (utf8_encode n) (json_unquote r1))
                               | None \<Rightarrow> prepend (utf8_encode n) (json_unquote r1))))))
           else if octet c < 0x20 then None
           else if octet c < 0x80 then prepend [c] (json_unquote cs)
           else (let n = utf8_size s in
                   if n = 0 then prepend (utf8_encode 0xFFFD) (json_unquote cs)
                   else prepend (take n s) (json_unquote (drop n s)))))"
  by pat_completeness auto
termination
  by (relation "measure length") (auto dest!: hex4_shorter escaped4_shorter)

declare json_unquote.simps [simp del]

section \<open>What is quoted is read back\<close>

lemma hex_val_digit: "n < 16 \<Longrightarrow> hex_val (hex_digit n) = Some n"
  by (auto simp: hex_val_def hex_digit_def between_def)

lemma hex_val_zero: "hex_val (CHR ''0'') = Some 0"
  by (simp add: hex_val_def between_def)

lemma unquote_escape:
  assumes "octet c < 0x80"
  shows "json_unquote (json_escape c @ t) = prepend [c] (json_unquote t)"
proof (cases "(octet c < 0x20 \<or> c \<in> set ''<>&'') \<and> c \<notin> {dquote, backslash, newline, CHR 0x0D, CHR 0x09}")
  case True
  have "hex4 (''00'' @ [hex_digit (octet c div 16), hex_digit (octet c mod 16)] @ t) = Some (octet c, t)"
    using assms by (simp add: hex4_def hex_val_digit hex_val_zero)
  then show ?thesis
    using True assms
    by (subst json_unquote.simps)
       (auto simp: json_escape_def simple_escape_def utf8_encode_def Let_def split: option.split)
next
  case False
  then show ?thesis
    using assms by (subst json_unquote.simps) (auto simp: json_escape_def simple_escape_def)
qed

lemma unquote_line_separator: "json_unquote (backslash # ''u2028'' @ t) = prepend line_separator (json_unquote t)"
  by (subst json_unquote.simps)
     (simp add: simple_escape_def hex4_def hex_val_def between_def utf8_encode_def line_separator_def split: option.split)

lemma unquote_paragraph_separator: "json_unquote (backslash # ''u2029'' @ t) = prepend paragraph_separator (json_unquote t)"
  by (subst json_unquote.simps)
     (simp add: simple_escape_def hex4_def hex_val_def between_def utf8_encode_def paragraph_separator_def split: option.split)

lemma json_unquote_rune:
  "s = c # cs \<Longrightarrow> \<not> octet c < 0x80 \<Longrightarrow> utf8_size s = n \<Longrightarrow> n \<noteq> 0 \<Longrightarrow>
     json_unquote s = prepend (take n s) (json_unquote (drop n s))"
  by (subst json_unquote.simps) (auto simp: Let_def)

lemma unquote_rune:
  assumes "s = c # cs" and "\<not> octet c < 0x80" and "utf8_size s = n" and "n \<noteq> 0"
  shows "json_unquote (take n s @ t) = prepend (take n s) (json_unquote t)"
proof -
  have n: "length (take n s) = n" using utf8_size_le [of s] assms(3) by simp
  have u: "take n s @ t = c # (take (n - 1) cs @ t)" using assms(1,4) by (cases n) auto
  have z: "utf8_size (take n s @ t) = n" using utf8_size_take [of s t] assms(3,4) by simp
  have "take n (take n s @ t) = take n s" "drop n (take n s @ t) = t" using n by simp_all
  with json_unquote_rune [OF u assms(2) z assms(4)] show ?thesis by (simp only:)
qed

lemma unquote_error: "json_unquote (backslash # ''ufffd'' @ t) = prepend utf8_error (json_unquote t)"
  by (subst json_unquote.simps)
     (simp add: simple_escape_def hex4_def hex_val_def between_def utf8_encode_def utf8_error_def split: option.split)

text \<open>What is quoted is read back, with the bytes that begin no rune replaced.\<close>

lemma json_string_roundtrip: "json_unquote (json_quote s @ dquote # t) = Some (utf8_fix s, t)"
proof (induction s rule: json_quote.induct)
  case (1 s)
  show ?case
  proof (cases s)
    case Nil
    then show ?thesis by (subst json_unquote.simps) (simp add: json_quote.simps utf8_fix.simps)
  next
    case (Cons c cs)
    then have ne: "s \<noteq> []" "tl s = cs" by simp_all
    show ?thesis
    proof (cases "octet c < 0x80")
      case True
      have "utf8_fix s = c # utf8_fix cs"
        using utf8_size_ascii [OF True, of cs] Cons by (simp add: utf8_fix.simps [of "c # cs"])
      then show ?thesis
        using unquote_escape [OF True] True "1.IH"(1) [OF Cons True]
        by (subst json_quote.simps) (simp add: Cons prepend_def)
    next
      case False
      let ?n = "utf8_size s"
      show ?thesis
      proof (cases "?n = 0")
        case True
        then have "json_quote s = backslash # ''ufffd'' @ json_quote cs" "utf8_fix s = utf8_error @ utf8_fix cs"
          using False Cons by (subst json_quote.simps, simp, simp add: utf8_fix.simps [of "c # cs"])
        then show ?thesis
          using unquote_error [of "json_quote cs @ dquote # t"] "1.IH"(2) [OF Cons False refl True]
          by (simp add: prepend_def)
      next
        case n: False
        have q: "json_quote s = (if take ?n s = line_separator then backslash # ''u2028''
             else if take ?n s = paragraph_separator then backslash # ''u2029''
             else take ?n s) @ json_quote (drop ?n s)"
          using False n Cons by (subst json_quote.simps) (simp add: Let_def)
        have "json_unquote (json_quote s @ dquote # t) = prepend (take ?n s) (json_unquote (json_quote (drop ?n s) @ dquote # t))"
          using unquote_rune [OF Cons False refl n, of "json_quote (drop ?n s) @ dquote # t"]
            unquote_line_separator [of "json_quote (drop ?n s) @ dquote # t"]
            unquote_paragraph_separator [of "json_quote (drop ?n s) @ dquote # t"]
          unfolding q by (auto simp only: append_assoc append_Cons split: if_split)
        then show ?thesis
          using n ne(1) by (simp add: "1.IH"(3) [OF Cons False refl n] prepend_def utf8_fix.simps [of s])
      qed
    qed
  qed
qed

section \<open>Values\<close>

datatype json =
    JNull
  | JBool bool
  | JNum bytes
  | JStr bytes
  | JArr "json list"
  | JObj "(bytes \<times> json) list"

definition skip_space :: "bytes \<Rightarrow> bytes" where
  "skip_space s = dropWhile (\<lambda>c. c \<in> {CHR '' '', CHR 0x09, newline, CHR 0x0D}) s"

definition is_digit :: "char \<Rightarrow> bool" where "is_digit c = between 48 57 c"

text \<open>The states of the scanner in a number: sign, integer, fraction, exponent.\<close>

definition json_digits :: "bytes \<Rightarrow> (bytes \<times> bytes) option" where
  "json_digits s = (let ds = takeWhile is_digit s in if ds = [] then None else Some (ds, dropWhile is_digit s))"

definition json_sign :: "char set \<Rightarrow> bytes \<Rightarrow> bytes \<times> bytes" where
  "json_sign signs s = (case s of c # r \<Rightarrow> if c \<in> signs then ([c], r) else ([], s) | [] \<Rightarrow> ([], s))"

definition json_integer :: "bytes \<Rightarrow> (bytes \<times> bytes) option" where
  "json_integer s = (case s of c # r \<Rightarrow> if c = CHR ''0'' then Some ([c], r) else json_digits s | [] \<Rightarrow> None)"

definition json_fraction :: "bytes \<Rightarrow> (bytes \<times> bytes) option" where
  "json_fraction s = (case s of
       c # r \<Rightarrow> if c = CHR ''.'' then prepend [c] (json_digits r) else Some ([], s)
     | [] \<Rightarrow> Some ([], s))"

definition json_exponent :: "bytes \<Rightarrow> (bytes \<times> bytes) option" where
  "json_exponent s = (case s of
       c # r \<Rightarrow>
         if c \<in> {CHR ''e'', CHR ''E''}
         then (case json_sign {CHR ''+'', dash} r of (sg, r') \<Rightarrow> prepend (c # sg) (json_digits r'))
         else Some ([], s)
     | [] \<Rightarrow> Some ([], s))"

definition json_number :: "bytes \<Rightarrow> (bytes \<times> bytes) option" where
  "json_number s =
     (case json_sign {dash} s of (sg, r) \<Rightarrow>
        (case json_integer r of None \<Rightarrow> None
         | Some (i, r1) \<Rightarrow>
             (case json_fraction r1 of None \<Rightarrow> None
              | Some (f, r2) \<Rightarrow> prepend (sg @ i @ f) (json_exponent r2))))"

text \<open>
  A value, the elements of an array and the members of an object, each up to its end, and what follows. The
  fuel bounds the depth of the calls, at most two for a byte of the text: see \<open>json_fuel\<close>.
\<close>

fun json_value :: "nat \<Rightarrow> bytes \<Rightarrow> (json \<times> bytes) option"
  and json_elements :: "nat \<Rightarrow> bytes \<Rightarrow> (json list \<times> bytes) option"
  and json_members :: "nat \<Rightarrow> bytes \<Rightarrow> ((bytes \<times> json) list \<times> bytes) option" where
  "json_value 0 s = None"
| "json_value (Suc n) s =
     (case skip_space s of [] \<Rightarrow> None
      | c # cs \<Rightarrow>
          (if c = dquote then map_option (\<lambda>(v, r). (JStr v, r)) (json_unquote cs)
           else if c = CHR ''{'' then
             (case skip_space cs of [] \<Rightarrow> None
              | d # r \<Rightarrow> if d = CHR ''}'' then Some (JObj [], r)
                         else map_option (\<lambda>(ps, r). (JObj ps, r)) (json_members n (d # r)))
           else if c = CHR ''['' then
             (case skip_space cs of [] \<Rightarrow> None
              | d # r \<Rightarrow> if d = CHR '']'' then Some (JArr [], r)
                         else map_option (\<lambda>(vs, r). (JArr vs, r)) (json_elements n (d # r)))
           else if take 4 (c # cs) = ''null'' then Some (JNull, drop 4 (c # cs))
           else if take 4 (c # cs) = ''true'' then Some (JBool True, drop 4 (c # cs))
           else if take 5 (c # cs) = ''false'' then Some (JBool False, drop 5 (c # cs))
           else map_option (\<lambda>(v, r). (JNum v, r)) (json_number (c # cs))))"
| "json_elements 0 s = None"
| "json_elements (Suc n) s =
     (case json_value n s of None \<Rightarrow> None
      | Some (v, r) \<Rightarrow>
          (case skip_space r of [] \<Rightarrow> None
           | e # r1 \<Rightarrow>
               (if e = CHR '']'' then Some ([v], r1)
                else if e = CHR '','' then map_option (\<lambda>(vs, r). (v # vs, r)) (json_elements n r1)
                else None)))"
| "json_members 0 s = None"
| "json_members (Suc n) s =
     (case skip_space s of [] \<Rightarrow> None
      | c # cs \<Rightarrow>
          (if c \<noteq> dquote then None
           else (case json_unquote cs of None \<Rightarrow> None
             | Some (k, r) \<Rightarrow>
                 (case skip_space r of [] \<Rightarrow> None
                  | d # r1 \<Rightarrow>
                      (if d \<noteq> colon then None
                       else (case json_value n r1 of None \<Rightarrow> None
                         | Some (v, r2) \<Rightarrow>
                             (case skip_space r2 of [] \<Rightarrow> None
                              | e # r3 \<Rightarrow>
                                  (if e = CHR ''}'' then Some ([(k, v)], r3)
                                   else if e = CHR '','' then
                                     map_option (\<lambda>(ps, r). ((k, v) # ps, r)) (json_members n r3)
                                   else None))))))))"

definition json_parse :: "bytes \<Rightarrow> (json \<times> bytes) option" where
  "json_parse s = json_value (Suc (2 * length s)) s"

section \<open>The fuel is enough\<close>

lemma prepend_Some: "prepend x r = Some (v, t) \<longleftrightarrow> (\<exists>w. r = Some (w, t) \<and> v = x @ w)"
  by (auto simp: prepend_def)

lemma skip_space_le: "length (skip_space s) \<le> length s"
  by (simp add: skip_space_def length_dropWhile_le)

lemma skip_space_Cons: "skip_space s = c # cs \<Longrightarrow> length cs < length s"
  using skip_space_le [of s] by simp

lemma json_unquote_Nil: "json_unquote [] = None"
  by (subst json_unquote.simps) simp

lemma json_unquote_shorter: "json_unquote s = Some (v, r) \<Longrightarrow> length r < length s"
proof (induction s arbitrary: v rule: json_unquote.induct)
  case (1 s)
  note IH = "1.IH" and prem = "1.prems"
  show ?case
  proof (cases s)
    case Nil
    with prem show ?thesis by (simp add: json_unquote_Nil)
  next
    case (Cons c cs)
    then show ?thesis
      using prem IH
      by (subst (asm) json_unquote.simps)
         (auto simp: prepend_Some Let_def dest!: hex4_shorter escaped4_shorter split: if_splits list.splits option.splits; fastforce)
  qed
qed

lemma json_digits_shorter: "json_digits s = Some (v, r) \<Longrightarrow> length r < length s"
proof -
  assume "json_digits s = Some (v, r)"
  then have "takeWhile is_digit s \<noteq> []" "r = dropWhile is_digit s"
    by (auto simp: json_digits_def Let_def split: if_splits)
  moreover have "length s = length (takeWhile is_digit s) + length (dropWhile is_digit s)"
    by (metis length_append takeWhile_dropWhile_id)
  ultimately show "length r < length s" by simp
qed

lemma json_sign_le: "json_sign S s = (v, r) \<Longrightarrow> length r \<le> length s"
  by (auto simp: json_sign_def split: list.splits if_splits)

lemma json_integer_shorter: "json_integer s = Some (v, r) \<Longrightarrow> length r < length s"
  by (auto simp: json_integer_def dest: json_digits_shorter split: list.splits if_splits)

lemma json_fraction_le: "json_fraction s = Some (v, r) \<Longrightarrow> length r \<le> length s"
  using json_digits_shorter by (fastforce simp: json_fraction_def prepend_Some split: list.splits if_splits)

lemma json_exponent_le: "json_exponent s = Some (v, r) \<Longrightarrow> length r \<le> length s"
  using json_digits_shorter json_sign_le
  by (fastforce simp: json_exponent_def prepend_Some split: list.splits if_splits prod.splits)

lemma json_number_shorter:
  assumes "json_number s = Some (v, r)"
  shows "length r < length s"
proof -
  obtain sg r0 i r1 f r2 e where "json_sign {dash} s = (sg, r0)" "json_integer r0 = Some (i, r1)"
    "json_fraction r1 = Some (f, r2)" "json_exponent r2 = Some (e, r)"
    using assms by (auto simp: json_number_def prepend_Some split: prod.splits option.splits)
  from json_sign_le [OF this(1)] json_integer_shorter [OF this(2)] json_fraction_le [OF this(3)] json_exponent_le [OF this(4)]
  show ?thesis by simp
qed

lemma json_shorter:
  "json_value n s = Some (v, r) \<Longrightarrow> length r < length s"
  "json_elements n s = Some (vs, r) \<Longrightarrow> length r < length s"
  "json_members n s = Some (ps, r) \<Longrightarrow> length r < length s"
proof (induction n s and n s and n s arbitrary: v r and vs r and ps r rule: json_value_json_elements_json_members.induct)
  case (2 n s)
  obtain c cs where c: "skip_space s = c # cs" using "2.prems" by (cases "skip_space s") simp_all
  note lt = skip_space_Cons [OF c]
  show ?case
  proof (cases "c = dquote \<or> c \<notin> {CHR ''{'', CHR ''[''}")
    case True
    then show ?thesis
      using "2.prems" c lt json_unquote_shorter [of cs] json_number_shorter [of "c # cs"] skip_space_le [of s]
      by (auto split: if_splits)
  next
    case False
    then obtain d ds where d: "skip_space cs = d # ds" using "2.prems" c by (cases "skip_space cs") (auto split: if_splits)
    note lt' = skip_space_Cons [OF d] skip_space_le [of cs]
    show ?thesis
      using "2.prems" c lt d lt' False "2.IH"(1) [OF c _ _ d] "2.IH"(2) [OF c _ _ _ d]
      by (auto split: if_splits; fastforce)
  qed
next
  case (4 n s)
  obtain v r0 where v: "json_value n s = Some (v, r0)" using "4.prems" by (cases "json_value n s") auto
  obtain e r1 where e: "skip_space r0 = e # r1" using "4.prems" v by (cases "skip_space r0") simp_all
  show ?case
    using "4.prems" v e "4.IH"(1) [OF v] skip_space_Cons [OF e] "4.IH"(2) [OF v refl e]
    by (auto split: if_splits; fastforce)
next
  case (6 n s)
  obtain cs where c: "skip_space s = dquote # cs" using "6.prems" by (cases "skip_space s") (auto split: if_splits)
  obtain k r0 where k: "json_unquote cs = Some (k, r0)" using "6.prems" c by (cases "json_unquote cs") auto
  obtain r1 where r1: "skip_space r0 = colon # r1" using "6.prems" c k by (cases "skip_space r0") (auto split: if_splits)
  obtain v r2 where v: "json_value n r1 = Some (v, r2)" using "6.prems" c k r1 by (cases "json_value n r1") auto
  obtain e r3 where e: "skip_space r2 = e # r3" using "6.prems" c k r1 v by (cases "skip_space r2") simp_all
  have "length r2 < length s"
    using "6.IH"(1) [OF c _ k refl r1 _ v] skip_space_Cons [OF c] json_unquote_shorter [OF k] skip_space_Cons [OF r1] by simp
  then show ?case
    using "6.prems" c k r1 v e skip_space_Cons [OF e] "6.IH"(2) [OF c _ k refl r1 _ v refl e]
    by (auto split: if_splits; fastforce)
qed simp_all

text \<open>With more fuel than that the result does not depend on the fuel.\<close>

lemma json_fuel:
  "2 * length s < n \<Longrightarrow> 2 * length s < m \<Longrightarrow> json_value n s = json_value m s"
  "2 * length s + 1 < n \<Longrightarrow> 2 * length s + 1 < m \<Longrightarrow> json_elements n s = json_elements m s"
  "2 * length s < n \<Longrightarrow> 2 * length s < m \<Longrightarrow> json_members n s = json_members m s"
proof (induction n arbitrary: s m)
  case (Suc n)
  { case 1
    then obtain k where m: "m = Suc k" by (cases m) auto
    have "json_members n (d # ds) = json_members k (d # ds) \<and> json_elements n (d # ds) = json_elements k (d # ds)"
      if "skip_space s = c # cs" "skip_space cs = d # ds" for c cs d ds
      using that skip_space_Cons [OF that(1)] skip_space_le [of cs] 1 m Suc.IH(2,3) by auto
    then show ?case by (auto simp: m split: list.split)
  next
    case 2
    then obtain k where m: "m = Suc k" by (cases m) auto
    have "json_value n s = json_value k s" by (rule Suc.IH(1)) (use 2 m in simp_all)
    moreover have "json_elements n r1 = json_elements k r1" if "json_value k s = Some (v, r)" "skip_space r = e # r1" for v r e r1
      by (rule Suc.IH(2)) (use json_shorter(1) [OF that(1)] skip_space_Cons [OF that(2)] 2 m in simp_all)
    ultimately show ?case by (auto simp: m split: list.split option.split prod.split)
  next
    case 3
    then obtain k where m: "m = Suc k" by (cases m) auto
    have v: "json_value n r1 = json_value k r1"
      if "skip_space s = c # cs" "json_unquote cs = Some (w, r)" "skip_space r = d # r1" for c cs w r d r1
      by (rule Suc.IH(1))
        (use skip_space_Cons [OF that(1)] json_unquote_shorter [OF that(2)] skip_space_Cons [OF that(3)] 3 m in simp_all)
    have mem: "json_members n r3 = json_members k r3"
      if "skip_space s = c # cs" "json_unquote cs = Some (w, r)" "skip_space r = d # r1"
        "json_value k r1 = Some (x, r2)" "skip_space r2 = e # r3" for c cs w r d r1 x r2 e r3
      by (rule Suc.IH(3))
        (use skip_space_Cons [OF that(1)] json_unquote_shorter [OF that(2)] skip_space_Cons [OF that(3)]
          json_shorter(1) [OF that(4)] skip_space_Cons [OF that(5)] 3 m in simp_all)
    show ?case
      unfolding m json_members.simps
    proof (intro list.case_cong option.case_cong prod.case_cong if_cong refl, goal_cases)
      case (1 c cs x w r d r1)
      then show ?case using v by blast
    next
      case (2 c cs x w r d r1 y z r2 e r3)
      then have "json_members n r3 = json_members k r3" using mem by blast
      then show ?case by simp
    qed
  }
qed simp_all

section \<open>Objects\<close>

text \<open>\<open>mapEncoder\<close> and \<open>structEncoder\<close>: the members in the order given, values as texts.\<close>

definition json_text :: "bytes \<Rightarrow> bytes" where
  "json_text s = dquote # json_quote s @ [dquote]"

fun json_fields :: "(bytes \<times> bytes) list \<Rightarrow> bytes" where
  "json_fields [] = []"
| "json_fields [(k, v)] = json_text k @ colon # v"
| "json_fields ((k, v) # ps) = json_text k @ colon # v @ CHR '','' # json_fields ps"

definition json_object :: "(bytes \<times> bytes) list \<Rightarrow> bytes" where
  "json_object ps = CHR ''{'' # json_fields ps @ ''}''"

lemma skip_space_simps [simp]:
  "skip_space (dquote # s) = dquote # s" "skip_space (colon # s) = colon # s"
  "skip_space (CHR ''{'' # s) = CHR ''{'' # s" "skip_space (CHR ''}'' # s) = CHR ''}'' # s"
  "skip_space (CHR '','' # s) = CHR '','' # s"
  by (simp_all add: skip_space_def)

lemma json_value_text:
  "0 < n \<Longrightarrow> json_value n (json_text s @ t) = Some (JStr (utf8_fix s), t)"
  by (cases n) (simp_all add: json_text_def json_string_roundtrip)

lemma json_members_fields:
  "ps \<noteq> [] \<Longrightarrow> length ps < n \<Longrightarrow>
     json_members n (json_fields (map (\<lambda>(k, v). (k, json_text v)) ps) @ CHR ''}'' # t) =
       Some (map (\<lambda>(k, v). (utf8_fix k, JStr (utf8_fix v))) ps, t)"
proof (induction ps arbitrary: n)
  case (Cons p ps)
  obtain k v where p: "p = (k, v)" by fastforce
  obtain m where n: "n = Suc m" "0 < m" "length ps < m" using Cons.prems(2) by (cases n) auto
  show ?case
  proof (cases ps)
    case Nil
    have "json_fields (map (\<lambda>(k, v). (k, json_text v)) (p # ps)) @ CHR ''}'' # t =
        dquote # json_quote k @ dquote # colon # json_text v @ CHR ''}'' # t"
      by (simp add: Nil p json_text_def)
    then show ?thesis
      using Nil p by (simp add: n(1) json_string_roundtrip json_value_text [OF n(2)])
  next
    case (Cons q qs)
    have "json_fields (map (\<lambda>(k, v). (k, json_text v)) (p # ps)) @ CHR ''}'' # t =
        dquote # json_quote k @ dquote # colon # json_text v @ CHR '','' #
          (json_fields (map (\<lambda>(k, v). (k, json_text v)) ps) @ CHR ''}'' # t)"
      by (cases q) (simp add: Cons p json_text_def)
    then show ?thesis
      using Cons.IH [of m] n(3) Cons p
      by (simp add: n(1) json_string_roundtrip json_value_text [OF n(2)])
  qed
qed simp

lemma json_fields_length: "length ps \<le> length (json_fields ps)"
  by (induction ps rule: json_fields.induct) (auto simp: json_text_def)

lemma json_parse_object:
  "json_parse (json_object (map (\<lambda>(k, v). (k, json_text v)) ps) @ t) =
     Some (JObj (map (\<lambda>(k, v). (utf8_fix k, JStr (utf8_fix v))) ps), t)"
proof (cases "ps = []")
  case True
  then show ?thesis by (simp add: json_parse_def json_object_def)
next
  case False
  let ?fs = "map (\<lambda>(k, v). (k, json_text v)) ps"
  let ?s = "json_object ?fs @ t"
  have l: "length ps < 2 * length ?s" using json_fields_length [of ?fs] by (simp add: json_object_def)
  have "?s = CHR ''{'' # json_fields ?fs @ CHR ''}'' # t" by (simp add: json_object_def)
  moreover have "\<exists>r. json_fields ?fs @ CHR ''}'' # t = dquote # r"
    using False by (cases ps rule: json_fields.cases) (auto simp: json_text_def)
  ultimately show ?thesis
    using json_members_fields [OF False l, of t] by (auto simp: json_parse_def)
qed

section \<open>encoding/base64\<close>

definition b64_char :: "nat \<Rightarrow> char" where
  "b64_char n =
     (if n < 26 then char_of (n + 65) else if n < 52 then char_of (n + 71)
      else if n < 62 then char_of (n - 4) else if n = 62 then CHR ''+'' else CHR ''/'')"

definition b64_val :: "char \<Rightarrow> nat option" where
  "b64_val c =
     (if between 65 90 c then Some (octet c - 65) else if between 97 122 c then Some (octet c - 71)
      else if between 48 57 c then Some (octet c + 4)
      else if c = CHR ''+'' then Some 62 else if c = CHR ''/'' then Some 63 else None)"

text \<open>\<open>StdEncoding\<close>: groups of three bytes, padded; the decoder leaves line ends out and does not check the bits of the
  padding.\<close>

fun b64_encode :: "bytes \<Rightarrow> bytes" where
  "b64_encode [] = []"
| "b64_encode [a] = [b64_char (octet a div 4), b64_char (octet a mod 4 * 16), CHR ''='', CHR ''='']"
| "b64_encode [a, b] =
     [b64_char (octet a div 4), b64_char (octet a mod 4 * 16 + octet b div 16), b64_char (octet b mod 16 * 4), CHR ''='']"
| "b64_encode (a # b # c # r) =
     [b64_char (octet a div 4), b64_char (octet a mod 4 * 16 + octet b div 16),
      b64_char (octet b mod 16 * 4 + octet c div 64), b64_char (octet c mod 64)] @ b64_encode r"

fun b64_quanta :: "bytes \<Rightarrow> bytes option" where
  "b64_quanta [] = Some []"
| "b64_quanta (w # x # y # z # r) =
     (case (b64_val w, b64_val x) of
        (Some i, Some j) \<Rightarrow>
          (let a = char_of (i * 4 + j div 16)
           in if y = CHR ''='' then (if z = CHR ''='' \<and> r = [] then Some [a] else None)
              else (case b64_val y of None \<Rightarrow> None
                | Some k \<Rightarrow>
                    (let b = char_of (j mod 16 * 16 + k div 4)
                     in if z = CHR ''='' then (if r = [] then Some [a, b] else None)
                        else (case b64_val z of None \<Rightarrow> None
                          | Some l \<Rightarrow> map_option (\<lambda>bs. a # b # char_of (k mod 4 * 64 + l) # bs) (b64_quanta r)))))
      | _ \<Rightarrow> None)"
| "b64_quanta _ = None"

definition b64_decode :: "bytes \<Rightarrow> bytes option" where
  "b64_decode s = b64_quanta (filter (\<lambda>c. c \<noteq> newline \<and> c \<noteq> CHR 0x0D) s)"

lemma b64_val_char: "n < 64 \<Longrightarrow> b64_val (b64_char n) = Some n"
  by (auto simp: b64_val_def b64_char_def between_def)

lemma b64_char_plain:
  "n < 64 \<Longrightarrow> b64_char n \<noteq> CHR ''='' \<and> b64_char n \<noteq> newline \<and> b64_char n \<noteq> CHR 0x0D \<and>
     octet (b64_char n) < 0x80 \<and> json_escape (b64_char n) = [b64_char n]"
proof -
  assume n: "n < 64"
  have "between 48 57 (b64_char n) \<or> between 65 90 (b64_char n) \<or> between 97 122 (b64_char n) \<or>
      b64_char n = CHR ''+'' \<or> b64_char n = CHR ''/''"
    using n by (auto simp: b64_char_def between_def)
  then show ?thesis by (auto simp: between_def json_escape_def)
qed

lemma octet_less: "octet c < 256"
  using of_char_mod_256 [of c, where ?'a = nat] by (metis mod_less_divisor zero_less_numeral)

lemma b64_bounds:
  "octet a div 4 < 64" "octet a mod 4 * 16 < 64" "octet b mod 16 * 4 < 64" "octet c mod 64 < 64"
  "octet a mod 4 * 16 + octet b div 16 < 64" "octet b mod 16 * 4 + octet c div 64 < 64"
proof -
  have "octet a div 4 < 64" "octet b div 16 < 16" "octet c div 64 < 4"
    using octet_less [of a] octet_less [of b] octet_less [of c] by (simp_all add: less_mult_imp_div_less)
  moreover have "octet a mod 4 < 4" "octet b mod 16 < 16" "octet c mod 64 < 64" by simp_all
  ultimately show "octet a div 4 < 64" "octet a mod 4 * 16 < 64" "octet b mod 16 * 4 < 64" "octet c mod 64 < 64"
    "octet a mod 4 * 16 + octet b div 16 < 64" "octet b mod 16 * 4 + octet c div 64 < 64" by linarith+
qed

text \<open>What the decoder makes of two neighbouring groups of six bits.\<close>

lemma b64_join:
  "char_of (octet a div 4 * 4 + octet a mod 4 * 16 div 16) = a"
  "char_of (octet a div 4 * 4 + (octet a mod 4 * 16 + octet b div 16) div 16) = a"
  "char_of ((octet a mod 4 * 16 + octet b div 16) mod 16 * 16 + octet b mod 16 * 4 div 4) = b"
  "char_of ((octet a mod 4 * 16 + octet b div 16) mod 16 * 16 + (octet b mod 16 * 4 + octet c div 64) div 4) = b"
  "char_of ((octet b mod 16 * 4 + octet c div 64) mod 4 * 64 + octet c mod 64) = c"
proof -
  have b: "octet b div 16 < 16" and c: "octet c div 64 < 4"
    using octet_less [of b] octet_less [of c] by (simp_all add: less_mult_imp_div_less)
  have x: "(x * 16 + octet b div 16) div 16 = x" "(x * 16 + octet b div 16) mod 16 = octet b div 16"
    "(x * 4 + octet c div 64) div 4 = x" "(x * 4 + octet c div 64) mod 4 = octet c div 64" for x
    using b c by simp_all
  have d: "octet a div 4 * 4 + octet a mod 4 = octet a" "octet b div 16 * 16 + octet b mod 16 = octet b"
    "octet c div 64 * 64 + octet c mod 64 = octet c" by (rule div_mult_mod_eq)+
  have y: "octet a mod 4 * 16 div 16 = octet a mod 4" "octet b mod 16 * 4 div 4 = octet b mod 16" by simp_all
  show "char_of (octet a div 4 * 4 + octet a mod 4 * 16 div 16) = a"
    "char_of (octet a div 4 * 4 + (octet a mod 4 * 16 + octet b div 16) div 16) = a"
    "char_of ((octet a mod 4 * 16 + octet b div 16) mod 16 * 16 + octet b mod 16 * 4 div 4) = b"
    "char_of ((octet a mod 4 * 16 + octet b div 16) mod 16 * 16 + (octet b mod 16 * 4 + octet c div 64) div 4) = b"
    "char_of ((octet b mod 16 * 4 + octet c div 64) mod 4 * 64 + octet c mod 64) = c"
    unfolding x y d by (rule char_of_char)+
qed

lemma b64_quanta_encode: "b64_quanta (b64_encode bs) = Some bs"
proof (induction bs rule: b64_encode.induct)
  case (2 a)
  then show ?case
    unfolding b64_encode.simps b64_quanta.simps b64_val_char [OF b64_bounds(1)] b64_val_char [OF b64_bounds(2)]
      Let_def option.case prod.case b64_join by simp
next
  case (3 a b)
  have "b64_char (octet b mod 16 * 4) \<noteq> CHR ''=''" using b64_char_plain [OF b64_bounds(3)] by blast
  then show ?case
    unfolding b64_encode.simps b64_quanta.simps b64_val_char [OF b64_bounds(1)] b64_val_char [OF b64_bounds(5)]
      b64_val_char [OF b64_bounds(3)] Let_def option.case prod.case b64_join by simp
next
  case (4 a b c r)
  have "b64_char (octet b mod 16 * 4 + octet c div 64) \<noteq> CHR ''=''" "b64_char (octet c mod 64) \<noteq> CHR ''=''"
    using b64_char_plain [OF b64_bounds(6)] b64_char_plain [OF b64_bounds(4)] by blast+
  with "4.IH" show ?case
    unfolding b64_encode.simps append_Cons append_Nil b64_quanta.simps b64_val_char [OF b64_bounds(1)]
      b64_val_char [OF b64_bounds(5)] b64_val_char [OF b64_bounds(6)] b64_val_char [OF b64_bounds(4)]
      Let_def option.case prod.case b64_join by simp
qed simp

lemma b64_encode_plain: "\<forall>c \<in> set (b64_encode bs). c \<noteq> newline \<and> c \<noteq> CHR 0x0D \<and> octet c < 0x80 \<and> json_escape c = [c]"
proof (induction bs rule: b64_encode.induct)
  case 1
  then show ?case by simp
next
  case (2 a)
  then show ?case using b64_char_plain b64_bounds by (simp add: json_escape_def)
next
  case (3 a b)
  then show ?case using b64_char_plain b64_bounds by (simp add: json_escape_def)
next
  case (4 a b c r)
  then show ?case using b64_char_plain b64_bounds by simp
qed

lemma b64_decode_encode: "b64_decode (b64_encode bs) = Some bs"
proof -
  have "filter (\<lambda>c. c \<noteq> newline \<and> c \<noteq> CHR 0x0D) (b64_encode bs) = b64_encode bs"
    using b64_encode_plain by (simp add: filter_id_conv)
  then show ?thesis by (simp add: b64_decode_def b64_quanta_encode)
qed

lemma json_quote_plain: "\<forall>c \<in> set s. octet c < 0x80 \<and> json_escape c = [c] \<Longrightarrow> json_quote s = s"
  by (induction s) (simp_all add: json_quote.simps)

lemma utf8_valid_ascii: "\<forall>c \<in> set s. octet c < 0x80 \<Longrightarrow> utf8_valid s"
proof (induction s)
  case (Cons c s)
  then show ?case using utf8_size_ascii [of c s] by (simp add: utf8_valid.simps [of "c # s"])
qed simp

section \<open>Maps\<close>

text \<open>\<open>Marshal\<close> of a map with string keys, which it sorts; the texts of strings and of byte slices.\<close>

definition json_marshal_map :: "('v \<Rightarrow> bytes) \<Rightarrow> (string \<rightharpoonup> 'v) \<Rightarrow> bytes" where
  "json_marshal_map tx m = json_object (map (\<lambda>k. (k, tx (the (m k)))) (sorted_list_of_set (dom m)))"

definition json_base64 :: "bytes \<Rightarrow> bytes" where
  "json_base64 v = dquote # b64_encode v @ [dquote]"

text \<open>
  \<open>Decode\<close> into such a map, of the first value of the text. The decoder stores every member, the later of two
  with one key, and reports an element of the wrong kind only at the end; a null is the zero value. A slice of
  bytes is a text in base64 or an array of numbers.
\<close>

definition err_json :: go_error where "err_json = Lib_error ''json''"

fun json_string :: "json \<Rightarrow> string option" where
  "json_string (JStr s) = Some s"
| "json_string JNull = Some []"
| "json_string _ = None"

fun json_byte :: "json \<Rightarrow> char option" where
  "json_byte (JNum s) =
     (if list_all is_digit s then
        (let n = foldl (\<lambda>n c. n * 10 + (octet c - 48)) 0 s in if n < 256 then Some (char_of n) else None)
      else None)"
| "json_byte JNull = Some (CHR 0x00)"
| "json_byte _ = None"

fun all_some :: "'a option list \<Rightarrow> 'a list option" where
  "all_some [] = Some []"
| "all_some (None # xs) = None"
| "all_some (Some x # xs) = map_option ((#) x) (all_some xs)"

fun json_bytes :: "json \<Rightarrow> bytes option" where
  "json_bytes (JStr s) = b64_decode s"
| "json_bytes JNull = Some []"
| "json_bytes (JArr vs) = all_some (map json_byte vs)"
| "json_bytes _ = None"

definition json_members_of :: "(json \<Rightarrow> 'v option) \<Rightarrow> json \<Rightarrow> go_error + (string \<times> 'v) list" where
  "json_members_of element v = (case v of
       JObj ps \<Rightarrow> (case all_some (map (\<lambda>(k, x). map_option (Pair k) (element x)) ps) of
           None \<Rightarrow> Inl err_json | Some ps' \<Rightarrow> Inr ps')
     | JNull \<Rightarrow> Inr []
     | _ \<Rightarrow> Inl err_json)"

definition json_decode_members :: "(json \<Rightarrow> 'v option) \<Rightarrow> bytes \<Rightarrow> go_error + (string \<times> 'v) list" where
  "json_decode_members element b =
     (case json_parse b of None \<Rightarrow> Inl err_json | Some (v, rest) \<Rightarrow> json_members_of element v)"

definition json_decode_map :: "(json \<Rightarrow> 'v option) \<Rightarrow> bytes \<Rightarrow> go_error + (string \<rightharpoonup> 'v)" where
  "json_decode_map element b =
     (case json_decode_members element b of Inl e \<Rightarrow> Inl e | Inr ps \<Rightarrow> Inr (map_of (rev ps)))"

lemma all_some_map: "\<forall>x \<in> set xs. f x = Some (g x) \<Longrightarrow> all_some (map f xs) = Some (map g xs)"
  by (induction xs) auto

lemma json_base64_text: "json_base64 v = json_text (b64_encode v)"
  using b64_encode_plain [of v] by (simp add: json_base64_def json_text_def json_quote_plain)

lemma utf8_fix_base64: "utf8_fix (b64_encode v) = b64_encode v"
  using b64_encode_plain [of v] by (intro utf8_fix_valid utf8_valid_ascii) blast

text \<open>Texts of members are read back as such.\<close>

lemma json_decode_object:
  assumes "\<forall>(k, v) \<in> set ps. element (JStr (utf8_fix v)) = Some (g v)"
  shows "json_decode_members element (json_object (map (\<lambda>(k, v). (k, json_text v)) ps) @ t) =
    Inr (map (\<lambda>(k, v). (utf8_fix k, g v)) ps)"
proof -
  have "all_some (map (\<lambda>(k, x). map_option (Pair k) (element x)) (map (\<lambda>(k, v). (utf8_fix k, JStr (utf8_fix v))) ps)) =
      Some (map (\<lambda>(k, v). (utf8_fix k, g v)) ps)"
    using assms by (simp add: comp_def case_prod_beta) (rule all_some_map, auto)
  then show ?thesis by (simp add: json_decode_members_def json_parse_object json_members_of_def)
qed

lemma map_of_keys: "finite (dom m) \<Longrightarrow> map_of (rev (map (\<lambda>k. (k, the (m k))) (sorted_list_of_set (dom m)))) = m"
proof (rule ext)
  fix k assume f: "finite (dom m)"
  let ?ps = "map (\<lambda>k. (k, the (m k))) (sorted_list_of_set (dom m))"
  have d: "distinct (map fst (rev ?ps))" by (simp add: rev_map [symmetric] comp_def)
  show "map_of (rev ?ps) k = m k"
  proof (cases "m k")
    case None
    then have "k \<notin> fst ` set (rev ?ps)" using f by auto
    then show ?thesis using None by (simp add: map_of_eq_None_iff)
  next
    case (Some v)
    then have "(k, v) \<in> set (rev ?ps)" using f by force
    then show ?thesis using Some map_of_is_SomeI [OF d] by simp
  qed
qed

lemma json_map_roundtrip:
  assumes "finite (dom m)" and "\<forall>k \<in> dom m. utf8_valid k"
    and "\<And>v. tx v = json_text (f v)" and "\<forall>v \<in> ran m. element (JStr (utf8_fix (f v))) = Some v"
  shows "json_decode_map element (json_marshal_map tx m) = Inr m"
proof -
  let ?ks = "sorted_list_of_set (dom m)"
  let ?ps = "map (\<lambda>k. (k, f (the (m k)))) ?ks"
  have "all_some (map (\<lambda>(k, x). map_option (Pair k) (element x)) (map (\<lambda>(k, v). (utf8_fix k, JStr (utf8_fix v))) ?ps)) =
      Some (map (\<lambda>k. (k, the (m k))) ?ks)"
    unfolding map_map
  proof (rule all_some_map, rule ballI)
    fix k assume "k \<in> set ?ks"
    then have k: "k \<in> dom m" using assms(1) by simp
    then have "the (m k) \<in> ran m" by (auto simp: ran_def)
    then show "((\<lambda>(k, x). map_option (Pair k) (element x)) \<circ> ((\<lambda>(k, v). (utf8_fix k, JStr (utf8_fix v))) \<circ> (\<lambda>k. (k, f (the (m k)))))) k =
        Some (k, the (m k))"
      using assms(2,4) k utf8_fix_valid by simp
  qed
  moreover have "json_marshal_map tx m = json_object (map (\<lambda>(k, v). (k, json_text v)) ?ps) @ []"
    by (simp add: json_marshal_map_def assms(3) comp_def)
  ultimately show ?thesis
    unfolding json_decode_map_def json_decode_members_def
    by (simp only: json_parse_object option.case prod.case json_members_of_def json.case sum.case map_of_keys [OF assms(1)])
qed

text \<open>A map of byte slices with keys that are UTF-8 is read back, whatever its values; a map of strings, if they are
  UTF-8 too.\<close>

lemma json_bytes_roundtrip:
  assumes "finite (dom m)" and "\<forall>k \<in> dom m. utf8_valid k"
  shows "json_decode_map json_bytes (json_marshal_map json_base64 m) = Inr m"
  using json_map_roundtrip [OF assms, where f = b64_encode and tx = json_base64 and element = json_bytes]
  by (simp add: json_base64_text utf8_fix_base64 b64_decode_encode)

lemma json_strings_roundtrip:
  assumes "finite (dom m)" and "\<forall>k \<in> dom m. utf8_valid k" and "\<forall>v \<in> ran m. utf8_valid v"
  shows "json_decode_map json_string (json_marshal_map json_text m) = Inr m"
  using json_map_roundtrip [OF assms(1,2), where f = "\<lambda>v. v" and tx = json_text and element = json_string]
    assms(3) utf8_fix_valid by simp

section \<open>What is decoded is UTF-8\<close>

lemma octet_char_of: "n < 256 \<Longrightarrow> octet (char_of n) = n"
  by simp

lemma utf8_rune_size:
  assumes "rune_tail c = Some (length ds)" and "rune_accepts c ds"
  shows "utf8_size (c # ds) = length (c # ds)"
  using assms by (simp add: utf8_size_def)

lemma utf8_encode_size: "utf8_size (utf8_encode r) = length (utf8_encode r)"
proof -
  define x where "x = (if (0xD800 \<le> r \<and> r < 0xE000) \<or> 0x10FFFF < r then 0xFFFD else r)"
  have x: "\<not> (0xD800 \<le> x \<and> x < 0xE000)" "x \<le> 0x10FFFF" by (auto simp: x_def)
  have e: "utf8_encode r =
      (if x < 0x80 then [char_of x]
       else if x < 0x800 then [char_of (0xC0 + x div 64), char_of (0x80 + x mod 64)]
       else if x < 0x10000 then
         [char_of (0xE0 + x div 4096), char_of (0x80 + x div 64 mod 64), char_of (0x80 + x mod 64)]
       else [char_of (0xF0 + x div 262144), char_of (0x80 + x div 4096 mod 64),
             char_of (0x80 + x div 64 mod 64), char_of (0x80 + x mod 64)])"
    by (simp add: utf8_encode_def x_def Let_def)
  have m: "octet (char_of (0x80 + y mod 64)) = 0x80 + y mod 64" for y by (rule octet_char_of) presburger
  consider "x < 0x80" | "0x80 \<le> x" "x < 0x800" | "0x800 \<le> x" "x < 0x10000" | "0x10000 \<le> x" by linarith
  then show ?thesis
  proof cases
    case 1
    then show ?thesis by (simp add: e utf8_size_ascii)
  next
    case 2
    then have q: "2 \<le> x div 64" "x div 64 < 32" using div_le_mono [OF 2(1), of 64] by (simp_all add: less_mult_imp_div_less)
    then have c: "octet (char_of (0xC0 + x div 64)) = 0xC0 + x div 64" by (intro octet_char_of) simp
    have "utf8_size (char_of (0xC0 + x div 64) # [char_of (0x80 + x mod 64)]) = length (char_of (0xC0 + x div 64) # [char_of (0x80 + x mod 64)])"
      by (rule utf8_rune_size) (use q in \<open>simp_all add: rune_tail_def rune_accepts_def between_def c m del: of_char_of\<close>)
    with 2 show ?thesis by (simp add: e)
  next
    case 3
    then have q: "x div 4096 < 16" by (simp add: less_mult_imp_div_less)
    then have c: "octet (char_of (0xE0 + x div 4096)) = 0xE0 + x div 4096" by (intro octet_char_of) simp
    have y: "x div 64 = 64 * (x div 4096) + x div 64 mod 64" using div_mult2_eq [of x 64 64] by simp
    have lo: "x div 4096 = 0 \<Longrightarrow> 32 \<le> x div 64 mod 64"
      using y div_le_mono [OF 3(1), of 64] by simp
    have "x div 64 < 864 \<or> 896 \<le> x div 64"
    proof (cases "x < 0xD800")
      case False
      then have "0xE000 \<le> x" using x(1) by simp
      from div_le_mono [OF this, of 64] show ?thesis by simp
    qed (use less_mult_imp_div_less [of x 864 64] in simp)
    then have hi: "x div 4096 = 13 \<Longrightarrow> x div 64 mod 64 < 32"
      using y mod_less_divisor [of 64 "x div 64"] by linarith
    define c0 d0 e0 :: char where "c0 = char_of (0xE0 + x div 4096)" and "d0 = char_of (0x80 + x div 64 mod 64)"
      and "e0 = char_of (0x80 + x mod 64)"
    then have k: "octet c0 = 0xE0 + x div 4096" "octet d0 = 0x80 + x div 64 mod 64" "octet e0 = 0x80 + x mod 64"
      using c m by blast+
    have "utf8_size (c0 # [d0, e0]) = length (c0 # [d0, e0])"
      by (rule utf8_rune_size) (use q lo hi in \<open>auto simp: rune_tail_def rune_accepts_def between_def k\<close>)
    with 3 show ?thesis by (simp add: e c0_def d0_def e0_def)
  next
    case 4
    have q: "x div 262144 < 5" using x(2) less_mult_imp_div_less [of x 5 262144] by simp
    then have c: "octet (char_of (0xF0 + x div 262144)) = 0xF0 + x div 262144" by (intro octet_char_of) simp
    have y: "x div 4096 = 64 * (x div 262144) + x div 4096 mod 64" using div_mult2_eq [of x 4096 64] by simp
    have lo: "x div 262144 = 0 \<Longrightarrow> 16 \<le> x div 4096 mod 64"
      using y div_le_mono [OF 4, of 4096] by simp
    have hi: "x div 262144 = 4 \<Longrightarrow> x div 4096 mod 64 < 16"
      using y x(2) less_mult_imp_div_less [of x 272 4096] by simp
    define c0 d0 e0 f0 :: char where "c0 = char_of (0xF0 + x div 262144)" and "d0 = char_of (0x80 + x div 4096 mod 64)"
      and "e0 = char_of (0x80 + x div 64 mod 64)" and "f0 = char_of (0x80 + x mod 64)"
    then have k: "octet c0 = 0xF0 + x div 262144" "octet d0 = 0x80 + x div 4096 mod 64"
      "octet e0 = 0x80 + x div 64 mod 64" "octet f0 = 0x80 + x mod 64"
      using c m by blast+
    have "utf8_size (c0 # [d0, e0, f0]) = length (c0 # [d0, e0, f0])"
      by (rule utf8_rune_size) (use q lo hi in \<open>auto simp: rune_tail_def rune_accepts_def between_def k\<close>)
    with 4 show ?thesis by (simp add: e c0_def d0_def e0_def f0_def)
  qed
qed

text \<open>A step of the decoding: one more rune, and the rest of the string.\<close>

definition unquotes_rune :: "bytes \<Rightarrow> bytes \<Rightarrow> bytes \<Rightarrow> bool" where
  "unquotes_rune s v r \<longleftrightarrow>
     (\<exists>x s' w. length s' < length s \<and> json_unquote s' = Some (w, r) \<and> v = x @ w \<and> utf8_size x = length x)"

lemma unquotes_runeI:
  "prepend x (json_unquote s') = Some (v, r) \<Longrightarrow> length s' < length s \<Longrightarrow> utf8_size x = length x \<Longrightarrow> unquotes_rune s v r"
  by (auto simp: unquotes_rune_def prepend_Some)

lemma simple_escape_ascii: "simple_escape e = Some x \<Longrightarrow> utf8_size [x] = length [x]"
  by (auto simp: simple_escape_def utf8_size_ascii split: if_splits)

lemma unquotes_escape:
  assumes "json_unquote (backslash # cs) = Some (v, r)"
  shows "unquotes_rune (backslash # cs) v r"
proof -
  have q: "(case cs of [] \<Rightarrow> None
      | e # r \<Rightarrow>
          (case simple_escape e of
             Some x \<Rightarrow> prepend [x] (json_unquote r)
           | None \<Rightarrow>
               (if e \<noteq> CHR ''u'' then None
                else (case hex4 r of None \<Rightarrow> None
                  | Some (n, r1) \<Rightarrow>
                      (case escaped4 r1 of
                         Some (m, r2) \<Rightarrow>
                           (if 0xD800 \<le> n \<and> n < 0xDC00 \<and> 0xDC00 \<le> m \<and> m < 0xE000
                            then prepend (utf8_encode (0x10000 + (n - 0xD800) * 1024 + (m - 0xDC00))) (json_unquote r2)
                            else prepend (utf8_encode n) (json_unquote r1))
                       | None \<Rightarrow> prepend (utf8_encode n) (json_unquote r1))))))
      = Some (v, r)"
    using assms by (subst (asm) json_unquote.simps) simp
  then obtain e t where cs: "cs = e # t" by (cases cs) auto
  show ?thesis
  proof (cases "simple_escape e")
    case (Some x)
    then show ?thesis using q cs unquotes_runeI [OF _ _ simple_escape_ascii [OF Some]] by simp
  next
    case None
    then obtain n r1 where n: "hex4 t = Some (n, r1)" using q cs by (auto split: if_splits option.splits)
    have one: "prepend (utf8_encode k) (json_unquote r1) = Some (v, r) \<Longrightarrow> ?thesis" for k
      by (rule unquotes_runeI [OF _ _ utf8_encode_size]) (use cs hex4_shorter [OF n] in auto)
    show ?thesis
    proof (cases "escaped4 r1")
      case None
      with q cs n \<open>simple_escape e = None\<close> one show ?thesis by (simp split: if_splits)
    next
      case (Some mr)
      then obtain m r2 where m: "escaped4 r1 = Some (m, r2)" by (cases mr) auto
      have "prepend (utf8_encode k) (json_unquote r2) = Some (v, r) \<Longrightarrow> ?thesis" for k
        by (rule unquotes_runeI [OF _ _ utf8_encode_size]) (use cs hex4_shorter [OF n] escaped4_shorter [OF m] in auto)
      with q cs n m \<open>simple_escape e = None\<close> one show ?thesis by (simp split: if_splits)
    qed
  qed
qed

lemma unquotes_rune:
  assumes "json_unquote s = Some (v, r)"
  shows "v = [] \<or> unquotes_rune s v r"
proof (cases s)
  case Nil
  then show ?thesis using assms by (simp add: json_unquote_Nil)
next
  case (Cons c cs)
  have q: "json_unquote s =
    (if octet c < 0x20 then None
     else if octet c < 0x80 then prepend [c] (json_unquote cs)
     else if utf8_size s = 0 then prepend (utf8_encode 0xFFFD) (json_unquote cs)
     else prepend (take (utf8_size s) s) (json_unquote (drop (utf8_size s) s)))"
    if "c \<noteq> dquote" "c \<noteq> backslash"
    using that by (subst json_unquote.simps) (simp only: Cons list.case Let_def if_False)
  consider "c = dquote" | "c = backslash" | "c \<noteq> dquote" "c \<noteq> backslash" "octet c < 0x80"
    | "c \<noteq> dquote" "c \<noteq> backslash" "\<not> octet c < 0x80" "utf8_size s = 0"
    | "c \<noteq> dquote" "c \<noteq> backslash" "\<not> octet c < 0x80" "utf8_size s \<noteq> 0" by blast
  then show ?thesis
  proof cases
    case 1
    then show ?thesis using assms Cons by (subst (asm) json_unquote.simps) simp
  next
    case 2 then show ?thesis using unquotes_escape assms Cons by blast
  next
    case 3
    then have "prepend [c] (json_unquote cs) = Some (v, r)" using q assms by (simp split: if_splits)
    from unquotes_runeI [OF this] show ?thesis using 3(3) utf8_size_ascii [of c "[]"] Cons by simp
  next
    case 4
    then have "prepend (utf8_encode 0xFFFD) (json_unquote cs) = Some (v, r)" using q assms by simp
    from unquotes_runeI [OF this _ utf8_encode_size] show ?thesis using Cons by simp
  next
    case 5
    then have "prepend (take (utf8_size s) s) (json_unquote (drop (utf8_size s) s)) = Some (v, r)" using q assms by simp
    from unquotes_runeI [OF this] show ?thesis
      using 5(4) utf8_take_size [of s] utf8_size_le [of s] Cons by simp
  qed
qed

lemma json_unquote_valid: "json_unquote s = Some (v, r) \<Longrightarrow> utf8_valid v"
proof (induction s arbitrary: v rule: length_induct)
  case (1 s)
  from unquotes_rune [OF "1.prems"] show ?case
    using "1.IH" utf8_valid_rune utf8_valid_Nil unfolding unquotes_rune_def by metis
qed

definition json_valid :: "json \<Rightarrow> bool" where
  "json_valid v \<longleftrightarrow> (\<forall>t. v = JStr t \<longrightarrow> utf8_valid t)"

definition member_valid :: "bytes \<times> json \<Rightarrow> bool" where
  "member_valid p \<longleftrightarrow> utf8_valid (fst p) \<and> json_valid (snd p)"

lemma json_value_valid: "json_value n s = Some (v, r) \<Longrightarrow> json_valid v"
  by (cases n)
     (auto simp: json_valid_def dest: json_unquote_valid split: list.splits if_splits option.splits)

lemma json_members_valid: "json_members n s = Some (ps, r) \<Longrightarrow> list_all member_valid ps"
proof (induction n arbitrary: s ps)
  case (Suc n)
  obtain c cs where c: "skip_space s = c # cs" "c = dquote"
    using Suc.prems by (auto split: list.splits if_splits)
  obtain k r0 where k: "json_unquote cs = Some (k, r0)" using Suc.prems c by (cases "json_unquote cs") auto
  obtain r1 where r1: "skip_space r0 = colon # r1" using Suc.prems c k by (auto split: list.splits if_splits)
  obtain v r2 where v: "json_value n r1 = Some (v, r2)"
    using Suc.prems c k r1 by (cases "json_value n r1") auto
  have kv: "member_valid (k, v)"
    using json_unquote_valid [OF k] json_value_valid [OF v] by (simp add: member_valid_def)
  obtain e r3 where e: "skip_space r2 = e # r3" using Suc.prems c k r1 v by (auto split: list.splits)
  show ?case
  proof (cases "e = CHR ''}''")
    case True
    then have "[(k, v)] = ps" using Suc.prems c k r1 v e by simp
    then show ?thesis using kv by auto
  next
    case False
    then obtain qs where "json_members n r3 = Some (qs, r)" "ps = (k, v) # qs"
      using Suc.prems c k r1 v e by (auto split: if_splits)
    then show ?thesis using Suc.IH kv by simp
  qed
qed simp

lemma json_parse_members: "json_parse b = Some (JObj ps, r) \<Longrightarrow> list_all member_valid ps"
  unfolding json_parse_def
  by (auto dest: json_members_valid split: list.splits if_splits option.splits)

lemma json_string_valid: "json_string v = Some w \<Longrightarrow> json_valid v \<Longrightarrow> utf8_valid w"
  by (cases v) (auto simp: json_valid_def)

lemma all_some_Some: "all_some xs = Some ys \<longleftrightarrow> xs = map Some ys"
proof (induction xs arbitrary: ys)
  case (Cons x xs)
  then show ?case by (cases x; cases ys) auto
qed auto

lemma json_decode_strings_valid:
  assumes "json_decode_members json_string b = Inr ps" and "(k, w) \<in> set ps"
  shows "utf8_valid k" and "utf8_valid w"
proof -
  have n: "ps \<noteq> []" using assms(2) by auto
  obtain v r where p: "json_parse b = Some (v, r)" "json_members_of json_string v = Inr ps"
    using assms(1) by (auto simp: json_decode_members_def split: option.splits)
  then obtain qs where q: "v = JObj qs" using n by (cases v) (auto simp: json_members_of_def)
  have "map (\<lambda>(k, x). map_option (Pair k) (json_string x)) qs = map Some ps"
    using p(2) by (auto simp: q json_members_of_def all_some_Some split: option.splits)
  then have "Some (k, w) \<in> set (map (\<lambda>(k, x). map_option (Pair k) (json_string x)) qs)"
    using assms(2) by simp
  then obtain x where x: "(k, x) \<in> set qs" "json_string x = Some w"
    by (auto simp: eq_commute [of "Some (k, w)"])
  have "member_valid (k, x)" using json_parse_members p(1) x(1) by (auto simp: q list_all_iff)
  then show "utf8_valid k" "utf8_valid w" using json_string_valid [OF x(2)] by (simp_all add: member_valid_def)
qed

lemma json_decode_map_strings:
  assumes "json_decode_map json_string b = Inr m"
  shows "finite (dom m)" and "m k = Some w \<Longrightarrow> utf8_valid k" and "m k = Some w \<Longrightarrow> utf8_valid w"
proof -
  obtain ps where ps: "json_decode_members json_string b = Inr ps" "m = map_of (rev ps)"
    using assms by (auto simp: json_decode_map_def split: sum.splits)
  show "finite (dom m)" unfolding ps(2) by (rule finite_dom_map_of)
  show "m k = Some w \<Longrightarrow> utf8_valid k" "m k = Some w \<Longrightarrow> utf8_valid w"
    using json_decode_strings_valid [OF ps(1)] by (auto simp: ps(2) dest!: map_of_SomeD)
qed

end
