(* ===== verification/KV_Store.thy ===== *)
theory KV_Store
  imports Log_File Go_JSON
begin

text \<open>
  The replicated key-value store of \<open>kvstore/\<close>: the state of \<open>Store\<close>, its construction, the
  state machine that Raft drives (\<open>Apply\<close>, \<open>Snapshot\<close>, \<open>Persist\<close>, \<open>Restore\<close>,
  \<open>applySet\<close>, \<open>applyGet\<close>) with the command log it can keep, and the abstract map it
  implements. Values are \<open>[]byte\<close> slices: the bytes of their own that the default mode makes, or
  windows on the gzip buffer that the compressing mode stores.
\<close>

section \<open>State\<close>

record kv_store =
  kv_m :: "string \<rightharpoonup> slice"
  kv_heap :: heap
  kv_gzipBuffer :: buffer
  kv_compress :: bool
  kv_logging :: bool
  kv_logfile :: "go_file option"

text \<open>
  Package compress/gzip, a parameter: the writes that a gzip writer makes on its target when it is
  given a value, flushed and closed, and what a reader makes of compressed bytes (None when the
  header is refused, so that the reader is nil).
\<close>

record gz_lib =
  gz_chunks :: "bytes \<Rightarrow> bytes list"
  gunzip :: "bytes \<Rightarrow> bytes option"

text \<open>A gzip that does not compress, for the witnesses.\<close>

definition sample_gz :: gz_lib where
  "sample_gz = \<lparr>gz_chunks = (\<lambda>v. [v]), gunzip = Some\<rparr>"

text \<open>
  Package encoding/json on maps from strings to byte slices: what the store uses of it, and its value for the
  JSON of the standard library. The webkvstore has maps to strings, see \<open>Web_Store\<close>.
\<close>

record json_lib =
  json_marshal :: "(string \<rightharpoonup> bytes) \<Rightarrow> go_error + bytes"
  json_decode :: "bytes \<Rightarrow> go_error + (string \<rightharpoonup> bytes)"

definition json_law :: "json_lib \<Rightarrow> (string \<rightharpoonup> bytes) \<Rightarrow> bytes \<Rightarrow> bool" where
  "json_law J m b \<longleftrightarrow> json_marshal J m = Inr b \<and> json_decode J b = Inr m"

definition go_json_bytes :: json_lib where
  "go_json_bytes = \<lparr>json_marshal = (\<lambda>m. Inr (json_marshal_map json_base64 m)),
     json_decode = json_decode_map json_bytes\<rparr>"

lemma go_json_bytes_law:
  "finite (dom m) \<Longrightarrow> \<forall>k \<in> dom m. utf8_valid k \<Longrightarrow> json_marshal go_json_bytes m = Inr b \<Longrightarrow> json_law go_json_bytes m b"
  by (auto simp: json_law_def go_json_bytes_def json_bytes_roundtrip)

text \<open>The content of the store, as a reader of the slices sees it.\<close>

definition kv_view :: "kv_store \<Rightarrow> (string \<rightharpoonup> bytes)" where
  "kv_view s = (\<lambda>k. map_option (slice_bytes (kv_heap s)) (kv_m s k))"

definition kv_inv :: "kv_store \<Rightarrow> bool" where
  "kv_inv s \<longleftrightarrow> \<not> kv_compress s \<and> (\<forall>sl \<in> ran (kv_m s). \<exists>bs. sl = Own bs)"

section \<open>Construction\<close>

definition kv_numInitKeys :: nat where "kv_numInitKeys = 1000000"
definition kv_initValueSize :: nat where "kv_initValueSize = 1024"

text \<open>The loop that stores \<open>initValue\<close> under \<open>strconv.Itoa(i)\<close> for each \<open>i\<close>.\<close>

fun kv_preinit :: "nat \<Rightarrow> slice \<Rightarrow> (string \<rightharpoonup> slice) \<Rightarrow> (string \<rightharpoonup> slice)" where
  "kv_preinit 0 v m = m"
| "kv_preinit (Suc n) v m = (kv_preinit n v m)(itoa (int n) \<mapsto> v)"

text \<open>
  \<open>New\<close> with the constants of the source (\<open>compressValues\<close> false, \<open>preInitialize\<close> true).
  \<open>logfolder\<close> is the flag; \<open>st\<close> and \<open>openable\<close> say what the file system holds under the
  log's name. The listeners it starts are modelled with the operations they call.
\<close>

definition kv_fresh :: "bool \<Rightarrow> go_file option \<Rightarrow> kv_store" where
  "kv_fresh logging fd =
     \<lparr>kv_m = kv_preinit kv_numInitKeys (Own (replicate kv_initValueSize (CHR ''!''))) Map.empty,
      kv_heap = \<lparr>harr = \<lambda>_. [], hnext = 0\<rparr>, kv_gzipBuffer = \<lparr>barr = None, blen = 0\<rparr>,
      kv_compress = False, kv_logging = logging, kv_logfile = fd\<rparr>"

definition kv_new :: "string \<Rightarrow> string \<Rightarrow> stat_result \<Rightarrow> bool \<Rightarrow> kv_store outcome" where
  "kv_new logfolder svrID st openable =
     (if logfolder \<noteq> [] then
        outcome_bind (createFile st openable (logfolder @ ''log-file-'' @ svrID @ ''.txt''))
          (\<lambda>fd. Ret (kv_fresh True fd))
      else Ret (kv_fresh False None))"

section \<open>The state machine\<close>

definition kv_applySet :: "gz_lib \<Rightarrow> kv_store \<Rightarrow> string \<Rightarrow> string \<Rightarrow> kv_store \<times> string" where
  "kv_applySet G s key val =
     (if \<not> kv_compress s then (s\<lparr>kv_m := (kv_m s)(key \<mapsto> Own val)\<rparr>, [])
      else (let (h, b) = buf_writes (kv_heap s) (buf_reset (kv_gzipBuffer s)) (gz_chunks G val)
            in (s\<lparr>kv_heap := h, kv_gzipBuffer := b, kv_m := (kv_m s)(key \<mapsto> buf_bytes b)\<rparr>, [])))"

definition kv_applyGet :: "gz_lib \<Rightarrow> kv_store \<Rightarrow> string \<Rightarrow> kv_store \<times> string outcome" where
  "kv_applyGet G s key =
     (case kv_m s key of
        None \<Rightarrow> (s, Ret [])
      | Some val \<Rightarrow>
          (if \<not> kv_compress s then (s, Ret (slice_bytes (kv_heap s) val))
           else (s\<lparr>kv_gzipBuffer := buf_reset (kv_gzipBuffer s)\<rparr>,
                 case gunzip G (slice_bytes (kv_heap s) val) of
                   None \<Rightarrow> Panic (Lib_error ''nil pointer dereference'')
                 | Some bs \<Rightarrow> Ret bs)))"

text \<open>The switch of \<open>Apply\<close>; every other operation, \<open>Command_DELETE\<close> included, panics.\<close>

definition bad_op :: "pb_command \<Rightarrow> go_error" where
  "bad_op c = Errorf ''unrecognized command op: %v'' [cmd_ip c, cmd_key c, cmd_value c]"

definition kv_switch :: "gz_lib \<Rightarrow> kv_store \<Rightarrow> pb_command \<Rightarrow> kv_store \<times> fsm_response outcome" where
  "kv_switch G s c =
     (case cmd_op c of
        Command_SET \<Rightarrow>
          (let (s', v) = kv_applySet G s (cmd_key c) (cmd_value c)
           in (s', Ret (Resp_string (go_join [dash] [cmd_ip c, v]))))
      | Command_GET \<Rightarrow>
          (let (s', r) = kv_applyGet G s (cmd_key c)
           in (s', outcome_bind r (\<lambda>v. Ret (Resp_string (go_join [dash] [cmd_ip c, v])))))
      | _ \<Rightarrow> (s, Panic (bad_op c)))"

text \<open>
  \<open>Apply\<close>: decode, stamp the log's index on the command when the store logs, run the switch, and
  write the frame in the deferred function, which runs on a panic of the switch too.
\<close>

definition kv_apply :: "pb_codec \<Rightarrow> gz_lib \<Rightarrow> kv_store \<Rightarrow> raft_log \<Rightarrow> kv_store \<times> fsm_response outcome" where
  "kv_apply P G s l =
     (case pb_unmarshal P (log_data l) of
        Inl e \<Rightarrow> (s, Ret (Resp_error e))
      | Inr command \<Rightarrow>
          (if kv_logging s then
             (let c = command\<lparr>cmd_id := log_index l\<rparr>;
                  (s', r) = kv_switch G s c
              in (s'\<lparr>kv_logfile := write_frame (kv_logfile s') (serialize P c)\<rparr>, r))
           else kv_switch G s command))"

text \<open>
  \<open>Snapshot\<close> clones the map; the clone shares the slices, so \<open>Persist\<close> reads them in the heap
  of the moment it runs. \<open>Persist\<close> encodes, writes and closes the sink, and cancels it after any
  error.
\<close>

definition kv_snapshot :: "kv_store \<Rightarrow> (string \<rightharpoonup> slice)" where
  "kv_snapshot s = kv_m s"

record sink =
  sk_write_err :: "go_error option"
  sk_close_err :: "go_error option"

record persisted =
  ps_written :: "bytes option"
  ps_closed :: bool
  ps_cancelled :: bool
  ps_err :: "go_error option"

definition persist_bytes :: "go_error + bytes \<Rightarrow> sink \<Rightarrow> persisted" where
  "persist_bytes enc k =
     (case enc of
        Inl e \<Rightarrow> \<lparr>ps_written = None, ps_closed = False, ps_cancelled = True, ps_err = Some e\<rparr>
      | Inr b \<Rightarrow>
          (case sk_write_err k of
             Some e \<Rightarrow> \<lparr>ps_written = None, ps_closed = False, ps_cancelled = True, ps_err = Some e\<rparr>
           | None \<Rightarrow> \<lparr>ps_written = Some b, ps_closed = True,
                      ps_cancelled = (sk_close_err k \<noteq> None), ps_err = sk_close_err k\<rparr>))"

definition kv_persist :: "json_lib \<Rightarrow> heap \<Rightarrow> (string \<rightharpoonup> slice) \<Rightarrow> sink \<Rightarrow> persisted" where
  "kv_persist J h store k =
     persist_bytes (json_marshal J (\<lambda>x. map_option (slice_bytes h) (store x))) k"

definition kv_restore :: "json_lib \<Rightarrow> kv_store \<Rightarrow> bytes \<Rightarrow> kv_store \<times> go_error option" where
  "kv_restore J s rc =
     (case json_decode J rc of
        Inl e \<Rightarrow> (s, Some e)
      | Inr o' \<Rightarrow> (s\<lparr>kv_m := (\<lambda>x. map_option Own (o' x))\<rparr>, None))"

section \<open>The map it implements\<close>

text \<open>The abstract store: what a command answers (None: the replica dies) and leaves.\<close>

fun kv_spec :: "(string \<rightharpoonup> bytes) \<Rightarrow> pb_op \<Rightarrow> string \<Rightarrow> bytes \<Rightarrow> (string \<rightharpoonup> bytes) \<times> bytes option" where
  "kv_spec m Command_SET k v = (m(k \<mapsto> v), Some [])"
| "kv_spec m Command_GET k v = (m, Some (case m k of None \<Rightarrow> [] | Some x \<Rightarrow> x))"
| "kv_spec m Command_DELETE k v = (m, None)"
| "kv_spec m (Command_other w) k v = (m, None)"

text \<open>The answer of \<open>Apply\<close> to a command, from the abstract one.\<close>

definition kv_result :: "pb_command \<Rightarrow> bytes option \<Rightarrow> fsm_response outcome" where
  "kv_result c r = (case r of
       None \<Rightarrow> Panic (bad_op c)
     | Some v \<Rightarrow> Ret (Resp_string (cmd_ip c @ dash # v)))"

lemma kv_result_id [simp]: "kv_result (c\<lparr>cmd_id := i\<rparr>) r = kv_result c r"
  by (simp add: kv_result_def bad_op_def split: option.split)

lemma go_join_two [simp]: "go_join sep [x, y] = x @ sep @ y"
  by simp

lemma kv_inv_own: "kv_inv s \<Longrightarrow> kv_m s k = Some sl \<Longrightarrow> \<exists>bs. sl = Own bs"
  by (auto simp: kv_inv_def ran_def)

lemma kv_view_set: "kv_view (s\<lparr>kv_m := (kv_m s)(k \<mapsto> Own v)\<rparr>) = (kv_view s)(k \<mapsto> v)"
  by (auto simp: kv_view_def)

lemma kv_inv_set: "kv_inv s \<Longrightarrow> kv_inv (s\<lparr>kv_m := (kv_m s)(k \<mapsto> Own v)\<rparr>)"
  by (auto simp: kv_inv_def ran_def)

lemma kv_view_logfile [simp]: "kv_view (s\<lparr>kv_logfile := f\<rparr>) = kv_view s"
  by (simp add: kv_view_def)

lemma kv_inv_logfile [simp]: "kv_inv (s\<lparr>kv_logfile := f\<rparr>) = kv_inv s"
  by (simp add: kv_inv_def)

text \<open>The switch refines the abstract store, and touches neither the log nor its mode.\<close>

lemma kv_switch_refines:
  assumes "kv_inv s"
  shows "kv_inv (fst (kv_switch G s c))"
    and "kv_view (fst (kv_switch G s c)) = fst (kv_spec (kv_view s) (cmd_op c) (cmd_key c) (cmd_value c))"
    and "snd (kv_switch G s c) =
           kv_result c (snd (kv_spec (kv_view s) (cmd_op c) (cmd_key c) (cmd_value c)))"
proof -
  have nc: "\<not> kv_compress s" using assms by (simp add: kv_inv_def)
  note defs = kv_switch_def kv_applySet_def kv_applyGet_def kv_result_def nc
  show "kv_inv (fst (kv_switch G s c))"
    using assms by (cases "cmd_op c") (simp_all add: defs kv_inv_set split: option.split)
  show "kv_view (fst (kv_switch G s c)) = fst (kv_spec (kv_view s) (cmd_op c) (cmd_key c) (cmd_value c))"
    by (cases "cmd_op c") (simp_all add: defs kv_view_set split: option.split)
  show "snd (kv_switch G s c) =
      kv_result c (snd (kv_spec (kv_view s) (cmd_op c) (cmd_key c) (cmd_value c)))"
    by (cases "cmd_op c") (simp_all add: defs kv_view_def split: option.split)
qed

lemmas kv_apply_simps = kv_apply_def Let_def split_beta

lemma kv_apply_inv: "kv_inv s \<Longrightarrow> kv_inv (fst (kv_apply P G s l))"
  by (simp add: kv_apply_simps kv_switch_refines split: sum.split)

lemma kv_apply_view:
  "kv_inv s \<Longrightarrow> kv_view (fst (kv_apply P G s l)) =
     (case pb_unmarshal P (log_data l) of Inl e \<Rightarrow> kv_view s
      | Inr c \<Rightarrow> fst (kv_spec (kv_view s) (cmd_op c) (cmd_key c) (cmd_value c)))"
  by (simp add: kv_apply_simps kv_switch_refines split: sum.split)

lemma kv_apply_response:
  "kv_inv s \<Longrightarrow> snd (kv_apply P G s l) =
     (case pb_unmarshal P (log_data l) of Inl e \<Rightarrow> Ret (Resp_error e)
      | Inr c \<Rightarrow> kv_result c (snd (kv_spec (kv_view s) (cmd_op c) (cmd_key c) (cmd_value c))))"
  by (simp add: kv_apply_simps kv_switch_refines split: sum.split)

section \<open>The interfaces it provides\<close>

interpretation kv: raft_fsm "kv_apply P G" kv_view kv_inv
  for P :: pb_codec and G :: gz_lib
  by unfold_locales (simp_all add: kv_apply_inv kv_apply_view kv_apply_response split: sum.split)

text \<open>A snapshot's bytes, when its sink works.\<close>

definition kv_snapshot_bytes :: "json_lib \<Rightarrow> kv_store \<Rightarrow> bytes option" where
  "kv_snapshot_bytes J s =
     ps_written (kv_persist J (kv_heap s) (kv_snapshot s) \<lparr>sk_write_err = None, sk_close_err = None\<rparr>)"

lemma kv_snapshot_view: "(\<lambda>x. map_option (slice_bytes (kv_heap s)) (kv_snapshot s x)) = kv_view s"
  by (simp add: kv_view_def kv_snapshot_def)

lemma kv_snapshot_bytes_Some:
  "kv_snapshot_bytes J s = Some b \<longleftrightarrow> json_marshal J (kv_view s) = Inr b"
  by (auto simp: kv_snapshot_bytes_def kv_persist_def kv_snapshot_view persist_bytes_def split: sum.splits)

lemma kv_restore_decoded:
  assumes "json_decode J b = Inr m"
  shows "snd (kv_restore J t b) = None" and "kv_view (fst (kv_restore J t b)) = m"
    and "kv_inv t \<Longrightarrow> kv_inv (fst (kv_restore J t b))"
  using assms
  by (auto simp: kv_restore_def kv_view_def kv_inv_def ran_def option.map_comp comp_def
        option.map_ident)

interpretation kv_snap: raft_fsm_snapshot "kv_apply P G" kv_view kv_inv
    "kv_snapshot_bytes J" "kv_restore J" "\<lambda>s b. json_law J (kv_view s) b"
  for P :: pb_codec and G :: gz_lib and J :: json_lib
  by unfold_locales (simp_all add: kv_restore_decoded json_law_def)

text \<open>The log, for a store that logs.\<close>

definition kv_payload :: "pb_codec \<Rightarrow> raft_log \<Rightarrow> bytes option" where
  "kv_payload P l = (case pb_unmarshal P (log_data l) of
       Inl e \<Rightarrow> None
     | Inr c \<Rightarrow> Some (serialize P (c\<lparr>cmd_id := log_index l\<rparr>)))"

lemma kv_applySet_fields [simp]:
  "kv_logging (fst (kv_applySet G s k v)) = kv_logging s"
  "kv_logfile (fst (kv_applySet G s k v)) = kv_logfile s"
  by (simp_all add: kv_applySet_def split_beta)

lemma kv_applyGet_fields [simp]:
  "kv_logging (fst (kv_applyGet G s k)) = kv_logging s"
  "kv_logfile (fst (kv_applyGet G s k)) = kv_logfile s"
  by (simp_all add: kv_applyGet_def split: option.split)

lemma kv_switch_fields [simp]:
  "kv_logging (fst (kv_switch G s c)) = kv_logging s"
  "kv_logfile (fst (kv_switch G s c)) = kv_logfile s"
  by (cases "cmd_op c"; simp add: kv_switch_def split_beta)+

interpretation kv_log: logging_fsm "kv_apply P G" kv_logfile kv_logging "kv_payload P" write_frame frame
  for P :: pb_codec and G :: gz_lib
  by unfold_locales (simp_all add: kv_apply_simps kv_payload_def write_frame_Some split: sum.split)

section \<open>Properties\<close>

text \<open>The store of the witnesses: empty, logging to an empty file.\<close>

definition demo_store :: kv_store where
  "demo_store = \<lparr>kv_m = Map.empty, kv_heap = \<lparr>harr = \<lambda>_. [], hnext = 0\<rparr>,
     kv_gzipBuffer = \<lparr>barr = None, blen = 0\<rparr>, kv_compress = False, kv_logging = True,
     kv_logfile = Some \<lparr>fcontent = [], fpos = 0\<rparr>\<rparr>"

lemma demo_store_inv: "kv_inv demo_store"
  by (simp add: kv_inv_def demo_store_def)

lemma demo_store_view: "kv_view demo_store = Map.empty"
  by (simp add: kv_view_def demo_store_def)

text \<open>C4: \<open>Apply\<close> of kvstore implements the abstract map on every branch: an entry that is no
  command changes nothing and its error is the response; a command moves the map and is answered as
  the abstract store says, with a panic for every operation but SET and GET; and a store that logs
  has then written the frame of the command stamped with the index of the log, also when the command
  panicked.\<close>

theorem kv_apply_refines:
  assumes "kv_inv s"
  shows "kv_inv (fst (kv_apply P G s l)) \<and>
    (case pb_unmarshal P (log_data l) of
       Inl e \<Rightarrow> kv_apply P G s l = (s, Ret (Resp_error e))
     | Inr c \<Rightarrow>
         (let (m', ans) = kv_spec (kv_view s) (cmd_op c) (cmd_key c) (cmd_value c)
          in kv_view (fst (kv_apply P G s l)) = m' \<and>
             snd (kv_apply P G s l) = kv_result c ans \<and>
             kv_logfile (fst (kv_apply P G s l)) =
               (if kv_logging s then write_frame (kv_logfile s) (serialize P (c\<lparr>cmd_id := log_index l\<rparr>))
                else kv_logfile s)))"
proof (cases "pb_unmarshal P (log_data l)")
  case (Inl e)
  with assms show ?thesis by (simp add: kv_apply_def)
next
  case (Inr c)
  have "kv_logfile (fst (kv_apply P G s l)) =
      (if kv_logging s then write_frame (kv_logfile s) (serialize P (c\<lparr>cmd_id := log_index l\<rparr>)) else kv_logfile s)"
    using Inr by (simp add: kv_apply_simps)
  with Inr kv_apply_inv [OF assms, of P G l] kv_apply_view [OF assms, of P G l]
    kv_apply_response [OF assms, of P G l] show ?thesis
    by (simp add: split_beta Let_def)
qed

lemma kv_apply_refines_witness:
  "kv_view (fst (kv_apply sample_codec sample_gz demo_store (sample_entry Command_SET ''k'' ''v''))) = [''k'' \<mapsto> ''v'']"
  using kv_apply_refines [OF demo_store_inv, of sample_codec sample_gz "sample_entry Command_SET ''k'' ''v''"]
  by (simp add: sample_entry_decodes demo_store_view Let_def)

text \<open>The slices of a snapshot are never written again, so it reads the same at any later time.\<close>

lemma kv_snapshot_isolated:
  assumes "kv_inv s"
  shows "(\<lambda>x. map_option (slice_bytes h) (kv_snapshot s x)) = kv_view s"
proof
  fix x
  show "map_option (slice_bytes h) (kv_snapshot s x) = kv_view s x"
    using kv_inv_own [OF assms, of x] by (cases "kv_m s x") (auto simp: kv_snapshot_def kv_view_def)
qed

lemma kv_run_finite:
  "kv_inv s \<Longrightarrow> finite (dom (kv_view s)) \<Longrightarrow> finite (dom (kv_view (run_state (kv_apply P G) s es)))"
proof (induction es arbitrary: s)
  case (Cons e es)
  have f: "finite (dom (fst (kv_spec m op k v)))" if "finite (dom m)" for m op k v
    using that by (cases op) simp_all
  have "finite (dom (kv_view (fst (kv_apply P G s e))))"
    using Cons.prems f by (simp add: kv_apply_view split: sum.split)
  then have ih: "finite (dom (kv_view (run_state (kv_apply P G) (fst (kv_apply P G s e)) es)))"
    "finite (dom (kv_view (fst (kv_apply P G s e))))"
    using Cons.IH [of "fst (kv_apply P G s e)"] kv_apply_inv [OF Cons.prems(1), of P G e] by simp_all
  obtain s' r where "kv_apply P G s e = (s', r)" by fastforce
  then show ?case
    using ih by (cases r) (simp_all add: fsm_run_Cons_Ret del: fsm_run.simps, simp_all)
qed simp

text \<open>C11: a snapshot taken after the entries es and written out as JSON at any later moment, while the
  store applies further entries, still holds the state after es: a replica in any state that
  restores it and applies more entries ends with the map of one that applied es and then these. The
  values are any bytes; the keys must be UTF-8, or the JSON text does not keep them apart.\<close>

theorem kv_snapshot_catch_up:
  assumes "kv_inv s" and "finite (dom (kv_view s))" and "kv_inv t" and "\<not> run_crashed (kv_apply P G) s es"
    and "\<forall>k \<in> dom (kv_view (run_state (kv_apply P G) s es)). utf8_valid k"
    and "ps_written (kv_persist go_json_bytes (kv_heap (run_state (kv_apply P G) (run_state (kv_apply P G) s es) later))
           (kv_snapshot (run_state (kv_apply P G) s es)) k) = Some b"
  shows "snd (kv_restore go_json_bytes t b) = None \<and>
         kv_view (run_state (kv_apply P G) (fst (kv_restore go_json_bytes t b)) rest) =
         kv_view (run_state (kv_apply P G) s (es @ rest))"
proof -
  let ?m = "run_state (kv_apply P G) s es"
  have m: "kv_inv ?m" by (rule kv.run_inv [OF assms(1)])
  have "json_marshal go_json_bytes (kv_view ?m) = Inr b"
    using assms(6) kv_snapshot_isolated [OF m]
    by (auto simp: kv_persist_def persist_bytes_def split: sum.splits option.splits)
  then have "json_law go_json_bytes (kv_view ?m) b" and "kv_snapshot_bytes go_json_bytes ?m = Some b"
    using go_json_bytes_law [OF kv_run_finite [OF assms(1,2)] assms(5)] by (simp_all add: kv_snapshot_bytes_Some)
  then show ?thesis
    using kv_snap.catch_up [OF assms(1,3,4)] kv_restore_decoded(1) json_law_def by blast
qed

lemma demo_persisted:
  "ps_written (kv_persist go_json_bytes h (kv_snapshot s) \<lparr>sk_write_err = None, sk_close_err = None\<rparr>) =
     Some (json_marshal_map json_base64 (\<lambda>x. map_option (slice_bytes h) (kv_snapshot s x)))"
  by (simp add: kv_persist_def persist_bytes_def go_json_bytes_def)

lemma kv_snapshot_catch_up_witness:
  "let e = sample_entry Command_SET ''k'' ''v''; b = ''{'' @ [dquote] @ ''k'' @ [dquote, colon, dquote] @ ''dg=='' @ [dquote] @ ''}''
   in kv_view (run_state (kv_apply sample_codec sample_gz) (fst (kv_restore go_json_bytes demo_store b)) [e]) =
      kv_view (run_state (kv_apply sample_codec sample_gz) demo_store ([e] @ [e]))"
proof -
  let ?e = "sample_entry Command_SET ''k'' ''v''"
  let ?f = "kv_apply sample_codec sample_gz"
  let ?b = "''{'' @ [dquote] @ ''k'' @ [dquote, colon, dquote] @ ''dg=='' @ [dquote] @ ''}''"
  obtain s' where s': "?f demo_store ?e = (s', Ret (Resp_string ''15000-''))"
    using kv_apply_response [OF demo_store_inv, of sample_codec sample_gz ?e]
    by (cases "?f demo_store ?e") (simp add: sample_entry_decodes kv_result_def)
  have v: "kv_view s' = [''k'' \<mapsto> ''v'']"
    using kv_apply_view [OF demo_store_inv, of sample_codec sample_gz ?e] s'
    by (simp add: sample_entry_decodes demo_store_view)
  have i: "kv_inv s'" using kv_apply_inv [OF demo_store_inv, of sample_codec sample_gz ?e] s' by simp
  have r: "run_state ?f demo_store [?e] = s'" "\<not> run_crashed ?f demo_store [?e]"
    using s' by (simp_all add: fsm_run_Cons_Ret del: fsm_run.simps(2))
  have k: "utf8_valid ''k''" by (rule utf8_valid_ascii) simp
  have q: "json_quote ''k'' = ''k''" by (rule json_quote_plain) (simp add: json_escape_def)
  have b: "json_marshal_map json_base64 [''k'' \<mapsto> ''v''] = ?b"
    by (simp add: json_marshal_map_def json_object_def json_text_def q json_base64_def b64_char_def char_of_eq_iff)
  have "snd (kv_restore go_json_bytes demo_store ?b) = None \<and>
      kv_view (run_state ?f (fst (kv_restore go_json_bytes demo_store ?b)) [?e]) =
      kv_view (run_state ?f demo_store ([?e] @ [?e]))"
    by (rule kv_snapshot_catch_up [OF demo_store_inv _ demo_store_inv r(2), where later = "[?e]" and
          k = "\<lparr>sk_write_err = None, sk_close_err = None\<rparr>"])
       (simp_all only: r(1) demo_persisted kv_snapshot_isolated [OF i] v b, simp_all add: demo_store_view k)
  then show ?thesis by (simp add: Let_def)
qed

text \<open>With compressed values (\<open>compressValues\<close> true), once the gzip buffer has room for what is
  stored, every value is a window on the one buffer: after a SET of a second key whose compressed
  value has the same length, a GET of the first key returns the second value.\<close>

lemma kv_compress_aliases:
  assumes "kv_compress s" and "barr (kv_gzipBuffer s) = Some a" and "k1 \<noteq> k2"
    and "length (concat (gz_chunks G v1)) = length (concat (gz_chunks G v2))"
    and "length (concat (gz_chunks G v1)) \<le> length (harr (kv_heap s) a)"
    and "gunzip G (concat (gz_chunks G v2)) = Some v2"
  shows "snd (kv_applyGet G (fst (kv_applySet G (fst (kv_applySet G s k1 v1)) k2 v2)) k1) = Ret v2"
proof -
  let ?c1 = "concat (gz_chunks G v1)" and ?c2 = "concat (gz_chunks G v2)"
  let ?h1 = "(kv_heap s)\<lparr>harr := (harr (kv_heap s))(a := overwrite nul 0 ?c1 (harr (kv_heap s) a))\<rparr>"
  let ?b = "(kv_gzipBuffer s)\<lparr>blen := length ?c1\<rparr>"
  let ?s1 = "s\<lparr>kv_heap := ?h1, kv_gzipBuffer := ?b, kv_m := (kv_m s)(k1 \<mapsto> Window a (length ?c1))\<rparr>"
  have s1: "fst (kv_applySet G s k1 v1) = ?s1"
    using assms buf_writes_fit [of "buf_reset (kv_gzipBuffer s)" a "gz_chunks G v1" "kv_heap s"]
    by (simp add: kv_applySet_def buf_reset_def buf_bytes_def)
  let ?h2 = "?h1\<lparr>harr := (harr ?h1)(a := overwrite nul 0 ?c2 (harr ?h1 a))\<rparr>"
  have l: "length (harr ?h1 a) = length (harr (kv_heap s) a)"
    using assms(5) by (simp add: overwrite_length)
  have s2: "fst (kv_applySet G ?s1 k2 v2) =
      ?s1\<lparr>kv_heap := ?h2, kv_gzipBuffer := ?b,
          kv_m := (kv_m ?s1)(k2 \<mapsto> Window a (length ?c2))\<rparr>"
    using assms l buf_writes_fit [of "buf_reset ?b" a "gz_chunks G v2" ?h1]
    by (simp add: kv_applySet_def buf_reset_def buf_bytes_def)
  have "take (length ?c1) (harr ?h2 a) = ?c2"
    using assms(4) by (simp add: overwrite_def)
  then show ?thesis
    unfolding s1 s2 using assms by (simp add: kv_applyGet_def)
qed

end
