(* ===== verification/Recovery.thy ===== *)
theory Recovery
  imports KV_Store
begin

text \<open>
  State recovery (\<open>recovery/\<close>): the requester reads the log of a replica from a connection and
  \<open>InstallReceivedState\<close> decodes its frames and applies the commands to a map of its own. The
  lemmas say what the decoding loop makes of a whole log, of a log cut anywhere, and of a log
  written over an older one.
\<close>

section \<open>The state and its construction\<close>

type_synonym mock_state = "string \<rightharpoonup> bytes"

text \<open>\<open>NewMockState\<close> with the constant \<open>preInitialize\<close> false of \<open>recovery/requester.go\<close>.\<close>

definition newMockState :: mock_state where
  "newMockState = Map.empty"

section \<open>InstallReceivedState\<close>

text \<open>
  The decoding loop. It stops at a size that cannot be read, at a body that cannot be read (no
  byte left: \<open>Read\<close> returns \<open>io.EOF\<close>, also for an empty body) and at a message that cannot be
  decoded. A body that is only partly there is not an error of \<open>Read\<close>: the rest of the buffer
  keeps its zeros. A negative size makes \<open>make\<close> panic.
\<close>

function install_loop :: "pb_codec \<Rightarrow> bytes \<Rightarrow> pb_command list \<Rightarrow> pb_command list outcome" where
  "install_loop P r acc =
     (if length r < 4 then Ret acc
      else (let n = sint (be32_dec (take 4 r)); r1 = drop 4 r in
        if n < 0 then Panic (Lib_error ''makeslice: len out of range'')
        else if r1 = [] then Ret acc
        else (case pb_unmarshal P (take (nat n) r1 @ replicate (nat n - length r1) nul) of
                Inl e \<Rightarrow> Ret acc
              | Inr c \<Rightarrow> install_loop P (drop (nat n) r1) (acc @ [c]))))"
  by pat_completeness auto
termination
  by (relation "measure (\<lambda>(P, r, acc). length r)") auto

declare install_loop.simps [simp del]

definition install_cmd :: "pb_command \<Rightarrow> mock_state \<Rightarrow> mock_state" where
  "install_cmd c m = (case cmd_op c of Command_SET \<Rightarrow> m(cmd_key c \<mapsto> cmd_value c) | _ \<Rightarrow> m)"

text \<open>The method: the new state and the number of commands; its error is always nil.\<close>

definition installReceivedState ::
    "pb_codec \<Rightarrow> mock_state \<Rightarrow> bytes \<Rightarrow> (mock_state \<times> int \<times> go_error option) outcome" where
  "installReceivedState P m newState =
     outcome_bind (install_loop P newState [])
       (\<lambda>cmds. Ret (fold install_cmd cmds m, int (length cmds), None))"

section \<open>Whole frames\<close>

text \<open>A message that the loop decodes to \<open>c\<close>: not empty, of a length that an \<open>int32\<close> holds.\<close>

definition decodes :: "pb_codec \<Rightarrow> bytes \<Rightarrow> pb_command \<Rightarrow> bool" where
  "decodes P msg c \<longleftrightarrow> msg \<noteq> [] \<and> length msg < 2 ^ 31 \<and> pb_unmarshal P msg = Inr c"

lemma frame_length [simp]: "length (frame msg) = 4 + length msg"
  by (simp add: frame_def)

lemma frame_header:
  assumes "length msg < 2 ^ 31"
  shows "sint (be32_dec (take 4 (frame msg @ rest))) = int (length msg)"
    and "drop 4 (frame msg @ rest) = msg @ rest"
  using assms by (simp_all add: frame_def sint_int32_len)

lemma install_loop_frame:
  assumes "decodes P msg c"
  shows "install_loop P (frame msg @ rest) acc = install_loop P rest (acc @ [c])"
  using assms frame_header [of msg rest]
  by (subst install_loop.simps) (simp add: decodes_def Let_def)

lemma install_loop_frames:
  "list_all2 (decodes P) msgs cs \<Longrightarrow>
     install_loop P (frames msgs @ rest) acc = install_loop P rest (acc @ cs)"
  by (induction arbitrary: acc rule: list_all2_induct) (simp_all add: install_loop_frame)

lemma install_loop_short: "length r \<le> 4 \<Longrightarrow> (length r = 4 \<longrightarrow> 0 \<le> sint (be32_dec r)) \<Longrightarrow>
     install_loop P r acc = Ret acc"
  by (subst install_loop.simps) (auto simp: Let_def)

lemma install_loop_all:
  "list_all2 (decodes P) msgs cs \<Longrightarrow> install_loop P (frames msgs) [] = Ret cs"
  using install_loop_frames [of P msgs cs "[]" "[]"] by (simp add: install_loop_short)

section \<open>A log cut short\<close>

text \<open>The last frame cut inside its size, or right after it: it is ignored.\<close>

lemma install_loop_cut_size:
  assumes "k \<le> 4" and "length msg < 2 ^ 31"
  shows "install_loop P (take k (frame msg)) acc = Ret acc"
  using assms by (intro install_loop_short) (auto simp: frame_def sint_int32_len min_def)

text \<open>Cut inside its body: the missing bytes are read as zeros.\<close>

lemma install_loop_cut_body:
  assumes "0 < k" and "k < length msg" and "length msg < 2 ^ 31"
  shows "install_loop P (take (4 + k) (frame msg)) acc =
     (case pb_unmarshal P (take k msg @ replicate (length msg - k) nul) of
        Inl e \<Rightarrow> Ret acc | Inr c \<Rightarrow> Ret (acc @ [c]))"
proof -
  have t: "take (4 + k) (frame msg) = be32 (word_of_nat (length msg)) @ take k msg"
    by (simp add: frame_def)
  have "take k msg \<noteq> []" using assms by auto
  then show ?thesis
    unfolding t using assms
    by (subst install_loop.simps)
       (simp add: Let_def sint_int32_len install_loop_short split: sum.split)
qed

section \<open>Replaying a log\<close>

lemma install_cmd_add: "install_cmd c (m ++ m') = m ++ install_cmd c m'"
  by (cases "cmd_op c") (simp_all add: install_cmd_def map_add_upd)

lemma fold_install_add: "fold install_cmd cs (m ++ m') = m ++ fold install_cmd cs m'"
  by (induction cs arbitrary: m') (simp_all add: install_cmd_add)

lemma fold_install_empty: "fold install_cmd cs m = m ++ fold install_cmd cs Map.empty"
  using fold_install_add [of cs m Map.empty] by simp

lemma install_cmd_id [simp]: "install_cmd (c\<lparr>cmd_id := i\<rparr>) = install_cmd c"
  by (rule ext, cases "cmd_op c") (simp_all add: install_cmd_def)

lemma install_cmd_spec:
  "snd (kv_spec m (cmd_op c) (cmd_key c) (cmd_value c)) \<noteq> None \<Longrightarrow>
     fst (kv_spec m (cmd_op c) (cmd_key c) (cmd_value c)) = install_cmd c m"
  by (cases "cmd_op c") (simp_all add: install_cmd_def)

text \<open>The commands of a log's entries, stamped with their index as the log holds them.\<close>

definition stamped :: "pb_codec \<Rightarrow> raft_log list \<Rightarrow> pb_command list" where
  "stamped P es = List.map_filter (\<lambda>e. case pb_unmarshal P (log_data e) of
       Inl _ \<Rightarrow> None | Inr c \<Rightarrow> Some (c\<lparr>cmd_id := log_index e\<rparr>)) es"

text \<open>An entry that can be read back from the log: the law of the codec and a length in range.\<close>

definition loggable :: "pb_codec \<Rightarrow> raft_log \<Rightarrow> bool" where
  "loggable P e = (case pb_unmarshal P (log_data e) of
       Inl _ \<Rightarrow> True
     | Inr c \<Rightarrow> (let c' = c\<lparr>cmd_id := log_index e\<rparr>; n = length (serialize P c')
                in codec_law P c' \<and> 0 < n \<and> n < 2 ^ 31))"

lemma stamped_simps [simp]:
  "stamped P [] = []"
  "stamped P (e # es) = (case pb_unmarshal P (log_data e) of
       Inl _ \<Rightarrow> stamped P es | Inr c \<Rightarrow> c\<lparr>cmd_id := log_index e\<rparr> # stamped P es)"
  by (simp_all add: stamped_def List.map_filter_def split: sum.split)

lemma kv_payloads_simps [simp]:
  "kv_log.payloads P [] = []"
  "kv_log.payloads P (e # es) = (case pb_unmarshal P (log_data e) of
       Inl _ \<Rightarrow> kv_log.payloads P es
     | Inr c \<Rightarrow> serialize P (c\<lparr>cmd_id := log_index e\<rparr>) # kv_log.payloads P es)"
  by (simp_all add: kv_log.payloads_def kv_payload_def List.map_filter_def split: sum.split)

lemma payloads_decode:
  "\<forall>e \<in> set es. loggable P e \<Longrightarrow> list_all2 (decodes P) (kv_log.payloads P es) (stamped P es)"
  by (induction es) (auto simp: loggable_def decodes_def codec_law_def Let_def split: sum.splits)

text \<open>The store after a run that did not crash is what replaying its commands gives.\<close>

lemma kv_run_replay:
  "kv_inv s \<Longrightarrow> \<not> run_crashed (kv_apply P G) s es \<Longrightarrow>
     kv_view (run_state (kv_apply P G) s es) = fold install_cmd (stamped P es) (kv_view s)"
proof (induction es arbitrary: s)
  case Nil
  then show ?case by simp
next
  case (Cons e es)
  obtain s' p where fe: "kv_apply P G s e = (s', p)" by (cases "kv_apply P G s e") auto
  from Cons.prems(2) fe obtain r where p: "p = Ret r" by (cases p) simp_all
  have s': "kv_inv s'" using kv_apply_inv [OF Cons.prems(1), of P G e] fe by simp
  have nc: "\<not> run_crashed (kv_apply P G) s' es"
    using Cons.prems(2) fe p by (simp add: fsm_run_Cons_Ret del: fsm_run.simps)
  have step: "kv_view s' = (case pb_unmarshal P (log_data e) of Inl _ \<Rightarrow> kv_view s
      | Inr c \<Rightarrow> install_cmd c (kv_view s))"
    using kv_apply_view [OF Cons.prems(1), of P G e] kv_apply_response [OF Cons.prems(1), of P G e]
      fe p install_cmd_spec
    by (auto simp: kv_result_def split: sum.splits option.splits)
  from Cons.IH [OF s' nc] fe p step show ?case
    by (auto simp: fsm_run_Cons_Ret simp del: fsm_run.simps split: sum.splits)
qed

text \<open>The entries of the witnesses can be read back.\<close>

lemma sample_marshal_length:
  "length (cmd_ip c) < 256 \<Longrightarrow> length (cmd_key c) < 256 \<Longrightarrow> length (cmd_value c) < 256 \<Longrightarrow>
     0 < length (serialize sample_codec c) \<and> length (serialize sample_codec c) < 2 ^ 31"
  by (cases "cmd_op c") (simp_all add: sample_codec_def sample_marshal_def sample_str_def)

lemma sample_entry_loggable:
  "length k < 256 \<Longrightarrow> length v < 256 \<Longrightarrow> loggable sample_codec (sample_entry op k v)"
  using sample_cmd_law [where k = k and v = v and op = op and i = 1] sample_marshal_length [of "(sample_cmd op k v)\<lparr>cmd_id := 1\<rparr>"]
  by (simp add: loggable_def sample_entry_decodes Let_def)

section \<open>Properties\<close>

lemma kv_log_text: "kv_log.log_text P es = frames (kv_log.payloads P es)"
  by (simp add: kv_log.log_text_def frames_def)

text \<open>C31: replaying a log that ends in a frame cut at any byte. Cut inside its size or right behind
  it, the last command is lost and nothing else; cut inside its body, the missing bytes are taken as
  zeros, and if that happens to decode, a command that no client sent is installed and counted.\<close>

theorem install_torn_log:
  assumes "list_all2 (decodes P) msgs cs" and "length msg < 2 ^ 31" and "k < 4 + length msg"
  shows "installReceivedState P m (frames msgs @ take k (frame msg)) =
    (let cs' = (if k \<le> 4 then cs
                else (case pb_unmarshal P (take (k - 4) msg @ replicate (length msg - (k - 4)) nul) of
                        Inl e \<Rightarrow> cs | Inr c \<Rightarrow> cs @ [c]))
     in Ret (fold install_cmd cs' m, int (length cs'), None))"
proof (cases "k \<le> 4")
  case True
  then show ?thesis
    using install_loop_frames [OF assms(1)] install_loop_cut_size [OF True assms(2)]
    by (simp add: installReceivedState_def Let_def)
next
  case False
  then have "install_loop P (take (4 + (k - 4)) (frame msg)) cs =
      (case pb_unmarshal P (take (k - 4) msg @ replicate (length msg - (k - 4)) nul) of
         Inl e \<Rightarrow> Ret cs | Inr c \<Rightarrow> Ret (cs @ [c]))"
    using assms(2,3) by (intro install_loop_cut_body) auto
  with False show ?thesis
    using install_loop_frames [OF assms(1)]
    by (simp add: installReceivedState_def Let_def split: sum.split)
qed

text \<open>A SET of \<open>v1\<close> under \<open>k\<close>, of which the last byte is missing: \<open>v\<close> and a zero byte is set.\<close>

lemma install_torn_log_witness:
  "installReceivedState sample_codec Map.empty
     (take 23 (frame (serialize sample_codec (\<lparr>cmd_id = 0, cmd_ip = ''15000'', cmd_op = Command_SET,
        cmd_key = ''k'', cmd_value = ''v1''\<rparr>)))) = Ret ([''k'' \<mapsto> [CHR ''v'', nul]], 1, None)"
proof -
  let ?c = "\<lparr>cmd_id = 0, cmd_ip = ''15000'', cmd_op = Command_SET, cmd_key = ''k'', cmd_value = ''v1''\<rparr>"
  let ?d = "\<lparr>cmd_id = 0, cmd_ip = ''15000'', cmd_op = Command_SET, cmd_key = ''k'',
             cmd_value = [CHR ''v'', nul]\<rparr>"
  let ?m = "serialize sample_codec ?c"
  have l: "length ?m = 20" and t: "take 19 ?m @ [nul] = serialize sample_codec ?d"
    by (simp_all add: sample_codec_def sample_marshal_def sample_str_def be32_def Let_def)
  have "pb_unmarshal sample_codec (take 19 ?m @ [nul]) = Inr ?d"
    using sample_codec_law [of ?d] by (simp add: codec_law_def t)
  then show ?thesis
    using install_torn_log [of sample_codec "[]" "[]" ?m 23 Map.empty] l
    by (simp add: install_cmd_def)
qed

text \<open>C32: a store that starts over an old log file (it is opened neither truncated nor for appending)
  and stops before it has written over all of it leaves the old file's last commands behind the new
  ones: a recovery installs the commands of the new log and then, over them, the stale ones.\<close>

theorem stale_commands_recovered:
  assumes "kv_logging s" and "kv_logfile s = Some \<lparr>fcontent = first @ frames msgs, fpos = 0\<rparr>"
    and "\<not> run_crashed (kv_apply P G) s es" and "\<forall>e \<in> set es. loggable P e"
    and "length first = length (frames (kv_log.payloads P es))"
    and "list_all2 (decodes P) msgs stale"
  shows "installReceivedState P m (log_bytes (kv_logfile (run_state (kv_apply P G) s es))) =
    Ret (fold install_cmd stale (fold install_cmd (stamped P es) m),
         int (length (stamped P es)) + int (length stale), None)"
proof -
  have "log_bytes (kv_logfile (run_state (kv_apply P G) s es)) =
      frames (kv_log.payloads P es @ msgs)"
    using kv_log.run_over [OF assms(1-3)] assms(5) by (simp add: kv_log_text)
  moreover have "list_all2 (decodes P) (kv_log.payloads P es @ msgs) (stamped P es @ stale)"
    using list_all2_appendI [OF payloads_decode [OF assms(4)] assms(6)] .
  ultimately show ?thesis
    using install_loop_all [of P "kv_log.payloads P es @ msgs" "stamped P es @ stale"]
    by (simp add: installReceivedState_def)
qed

lemma demo_run:
  "\<not> run_crashed (kv_apply sample_codec sample_gz) (demo_store\<lparr>kv_logfile := f\<rparr>) [sample_entry Command_SET ''k'' ''v'']"
proof -
  let ?e = "sample_entry Command_SET ''k'' ''v''" and ?f = "kv_apply sample_codec sample_gz"
  let ?s = "demo_store\<lparr>kv_logfile := f\<rparr>"
  have "kv_inv ?s" using demo_store_inv by simp
  then obtain s' where "?f ?s ?e = (s', Ret (Resp_string ''15000-''))"
    using kv_apply_response [of ?s sample_codec sample_gz ?e]
    by (cases "?f ?s ?e") (simp add: sample_entry_decodes kv_result_def)
  then show ?thesis by (simp add: fsm_run_Cons_Ret del: fsm_run.simps(2))
qed

text \<open>The new log sets \<open>k\<close> to \<open>v\<close>; the recovery ends with the old value.\<close>

lemma stale_commands_recovered_witness:
  "let e = sample_entry Command_SET ''k'' ''v'';
       old = serialize sample_codec ((sample_cmd Command_SET ''k'' ''old'')\<lparr>cmd_id := 2\<rparr>);
       s = demo_store\<lparr>kv_logfile := Some \<lparr>fcontent = frames (kv_log.payloads sample_codec [e]) @ frames [old], fpos = 0\<rparr>\<rparr>
   in installReceivedState sample_codec Map.empty
        (log_bytes (kv_logfile (run_state (kv_apply sample_codec sample_gz) s [e]))) = Ret ([''k'' \<mapsto> ''old''], 2, None)"
proof -
  let ?e = "sample_entry Command_SET ''k'' ''v''"
  let ?c = "(sample_cmd Command_SET ''k'' ''old'')\<lparr>cmd_id := 2\<rparr>"
  let ?s = "demo_store\<lparr>kv_logfile := Some \<lparr>fcontent = frames (kv_log.payloads sample_codec [?e]) @
      frames [serialize sample_codec ?c], fpos = 0\<rparr>\<rparr>"
  have c: "codec_law sample_codec ?c" by (rule sample_cmd_law) simp_all
  have d: "list_all2 (decodes sample_codec) [serialize sample_codec ?c] [?c]"
    using c sample_marshal_length [of ?c] by (simp add: decodes_def codec_law_def)
  have "installReceivedState sample_codec Map.empty
      (log_bytes (kv_logfile (run_state (kv_apply sample_codec sample_gz) ?s [?e]))) =
      Ret (fold install_cmd [?c] (fold install_cmd (stamped sample_codec [?e]) Map.empty),
           int (length (stamped sample_codec [?e])) + int (length [?c]), None)"
    by (rule stale_commands_recovered [OF _ _ demo_run _ refl d])
       (simp_all add: demo_store_def sample_entry_loggable)
  also have "\<dots> = Ret ([''k'' \<mapsto> ''old''], 2, None)"
    by (simp add: sample_entry_decodes install_cmd_def)
  finally show ?thesis by (simp only: Let_def)
qed

end
