(* ===== verification/Logger_Process.thy ===== *)
theory Logger_Process
  imports Recovery
begin

text \<open>
  The logger process (\<open>logger/\<close>): a non-voting replica whose state machine only logs. Its
  state, \<open>Apply\<close>, the throughput monitor, the command line, and the names it takes in the
  cluster.
\<close>

section \<open>State and construction\<close>

record logger =
  lg_logfile :: "go_file option"
  lg_req :: "64 word"
  lg_throughput :: "go_file option"

text \<open>
  \<open>NewLogger\<close>: the log and, since \<open>monitoringThroughtput\<close> is true, the throughput file;
  \<open>st\<close>/\<open>ok\<close> and \<open>st'\<close>/\<open>ok'\<close> say what the file system holds under the two names.
\<close>

definition newLogger :: "string \<Rightarrow> string \<Rightarrow> stat_result \<Rightarrow> bool \<Rightarrow> stat_result \<Rightarrow> bool \<Rightarrow> logger outcome" where
  "newLogger logfolder id' st ok st' ok' =
     outcome_bind (createFile st ok (logfolder @ ''log-file-'' @ id' @ ''.log'')) (\<lambda>fd.
     outcome_bind (createFile st' ok' (id' @ ''-throughput.out'')) (\<lambda>fd'.
       Ret \<lparr>lg_logfile = fd, lg_req = 0, lg_throughput = fd'\<rparr>))"

section \<open>The state machine and the monitor\<close>

definition logger_apply :: "pb_codec \<Rightarrow> logger \<Rightarrow> raft_log \<Rightarrow> logger \<times> fsm_response outcome" where
  "logger_apply P lg l =
     (case pb_unmarshal P (log_data l) of
        Inl e \<Rightarrow> (lg, Ret (Resp_error e))
      | Inr command \<Rightarrow>
          (let msg = serialize P (command\<lparr>cmd_id := log_index l\<rparr>);
               fd = fst (fd_write (lg_logfile lg) (be32 (word_of_nat (length msg))));
               (fd', err) = fd_write fd msg
           in (lg\<lparr>lg_logfile := fd', lg_req := lg_req lg + 1\<rparr>,
               Ret (case err of None \<Rightarrow> Resp_nil | Some e \<Rightarrow> Resp_error e))))"

text \<open>\<open>Restore\<close> does nothing; \<open>Snapshot\<close> returns a nil snapshot and no error.\<close>

definition logger_restore :: "logger \<Rightarrow> bytes \<Rightarrow> logger \<times> go_error option" where
  "logger_restore lg rc = (lg, None)"

text \<open>One tick of \<open>monitor\<close>: the counter is swapped with 0 and written as a line.\<close>

definition logger_tick :: "logger \<Rightarrow> logger" where
  "logger_tick lg = lg\<lparr>lg_req := 0,
     lg_throughput := fst (fd_write (lg_throughput lg) (format_uint (lg_req lg) @ [newline]))\<rparr>"

lemma logger_apply_logfile:
  "lg_logfile (fst (logger_apply P lg l)) =
     (case kv_payload P l of None \<Rightarrow> lg_logfile lg | Some msg \<Rightarrow> write_frame (lg_logfile lg) msg)"
  by (simp add: logger_apply_def kv_payload_def Let_def split_beta write_frame_def split: sum.split)

lemma logger_apply_ret: "\<exists>r. snd (logger_apply P lg l) = Ret r"
  by (simp add: logger_apply_def Let_def split_beta split: sum.split)

lemma logger_never_crashes: "\<not> run_crashed (logger_apply P) lg es"
proof (induction es arbitrary: lg)
  case Nil
  then show ?case by simp
next
  case (Cons e es)
  obtain lg' p where "logger_apply P lg e = (lg', p)" by (cases "logger_apply P lg e") auto
  moreover from this obtain r where "p = Ret r" using logger_apply_ret [of P lg e] by auto
  ultimately show ?case using Cons.IH [of lg'] by (simp add: fsm_run_Cons_Ret del: fsm_run.simps)
qed

text \<open>The contract of a replica that logs, with kvstore's messages and kvstore's frames.\<close>

definition logger_on :: "logger \<Rightarrow> bool" where "logger_on lg = True"

interpretation lgr: logging_fsm "logger_apply P" lg_logfile logger_on "kv_payload P" write_frame frame
  for P :: pb_codec
  by unfold_locales (simp_all add: logger_on_def logger_apply_logfile write_frame_Some)

section \<open>The command line\<close>

text \<open>\<open>countDiffStrInSlice\<close>: the loop, with its map of the strings found so far.\<close>

fun count_diff :: "string list \<Rightarrow> (string \<Rightarrow> bool) \<Rightarrow> nat \<Rightarrow> nat" where
  "count_diff [] found n = n"
| "count_diff (s # ss) found n =
     (if \<not> found s then count_diff ss (found(s := True)) (Suc n) else count_diff ss found n)"

definition countDiffStrInSlice :: "string list \<Rightarrow> nat" where
  "countDiffStrInSlice elements = count_diff elements (\<lambda>_. False) 0"

record logger_config =
  lc_logIDs :: "string list"
  lc_raftAddrs :: "string list"
  lc_joinAddrs :: "string list"
  lc_numApps :: nat

text \<open>\<open>parseIPsFromArgsConfig\<close>, given the values of the three flags.\<close>

definition parseIPsFromArgs :: "string \<Rightarrow> string \<Rightarrow> string \<Rightarrow> go_error + logger_config" where
  "parseIPsFromArgs logs raft joins =
     (if logs = [] then Inl (Errorf ''must set a logger ID, run with: ./logger -id'' [])
      else (let logIDs = go_split (CHR '','') logs; numDiffIds = countDiffStrInSlice logIDs;
                raftAddrs = go_split (CHR '','') raft; numDiffRaft = countDiffStrInSlice raftAddrs;
                joinAddrs = go_split (CHR '','') joins; numDiffServices = countDiffStrInSlice joinAddrs
            in if numDiffServices \<noteq> numDiffIds \<or> numDiffIds \<noteq> numDiffRaft \<or> numDiffRaft \<noteq> numDiffServices
               then Inl (Errorf ''must run with the same number of unique IDs, raft and join addrs'' [])
               else Inr \<lparr>lc_logIDs = logIDs, lc_raftAddrs = raftAddrs, lc_joinAddrs = joinAddrs,
                         lc_numApps = numDiffIds\<rparr>))"

lemma count_diff_card:
  "count_diff ss found n = n + card (set ss - {x. found x})"
proof (induction ss found n rule: count_diff.induct)
  case (1 found n)
  then show ?case by simp
next
  case (2 s ss found n)
  show ?case
  proof (cases "found s")
    case True
    then have "set (s # ss) - {x. found x} = set ss - {x. found x}" by auto
    with 2 True show ?thesis by simp
  next
    case False
    have f: "{x. (found(s := True)) x} = insert s {x. found x}" by auto
    have "set (s # ss) - {x. found x} = insert s (set ss - insert s {x. found x})"
      using False by auto
    then have c: "card (set (s # ss) - {x. found x}) = Suc (card (set ss - insert s {x. found x}))"
      by simp
    have "count_diff (s # ss) found n = count_diff ss (found(s := True)) (Suc n)"
      using False by simp
    also have "\<dots> = Suc n + card (set ss - insert s {x. found x})"
      using "2.IH"(1) False unfolding f by blast
    finally show ?thesis unfolding c by simp
  qed
qed

lemma countDiff_card: "countDiffStrInSlice ss = card (set ss)"
  by (simp add: countDiffStrInSlice_def count_diff_card)

section \<open>Names in the cluster\<close>

text \<open>
  \<open>init\<close> on Kubernetes: per join address an identifier and a Raft address, from a base drawn by
  \<open>rand.Intn(10000)\<close> (the argument \<open>baseRand\<close>) and from port 12000 on.
\<close>

definition logger_ids :: "nat \<Rightarrow> string list \<Rightarrow> string list" where
  "logger_ids baseRand joinAddrs =
     map (\<lambda>i. ''log'' @ itoa (int baseRand + int i)) [0..<length joinAddrs]"

definition logger_raft_addrs :: "string \<Rightarrow> string list \<Rightarrow> string list" where
  "logger_raft_addrs envPodIP joinAddrs =
     map (\<lambda>i. envPodIP @ [colon] @ itoa (12000 + int i)) [0..<length joinAddrs]"

lemma itoa_inject:
  assumes "itoa m = itoa n" and "- (2 ^ 63) \<le> m" "m < 2 ^ 63" "- (2 ^ 63) \<le> n" "n < 2 ^ 63"
  shows "m = n"
proof -
  have "fst (atoi (itoa m)) = fst (atoi (itoa n))" unfolding assms(1) by (rule refl)
  then show ?thesis
    unfolding atoi_itoa [OF assms(2,3)] atoi_itoa [OF assms(4,5)] fst_conv .
qed

lemma log_id_inject:
  "m < 2 ^ 62 \<Longrightarrow> n < 2 ^ 62 \<Longrightarrow> ''log'' @ itoa (int m) = ''log'' @ itoa (int n) \<longleftrightarrow> m = n"
proof
  assume b: "m < 2 ^ 62" "n < 2 ^ 62" and "''log'' @ itoa (int m) = ''log'' @ itoa (int n)"
  then have e: "itoa (int m) = itoa (int n)" by simp
  have "int m < 2 ^ 63" "int n < 2 ^ 63" "- (2 ^ 63) \<le> int m" "- (2 ^ 63) \<le> int n"
    using b by simp_all
  then have "int m = int n" using itoa_inject [OF e] by blast
  then show "m = n" by simp
qed simp

section \<open>Legacy serializers\<close>

text \<open>
  \<open>serializeCommandInJSON\<close> and \<open>serializeCommandInProtobuf\<close> of the ad-hoc text requests, which
  nothing calls any more: the whole request is put in lower case and split at dashes. The JSON
  encoder of \<open>journey.Command\<close> is a parameter.
\<close>

datatype legacy_op = Legacy_set | Legacy_get | Legacy_delete

record legacy_command =
  lg_id :: "64 word"
  lg_ip :: string
  lg_op :: legacy_op
  lg_comment :: string

definition legacy_content :: "(string \<Rightarrow> string) \<Rightarrow> string \<Rightarrow> string list" where
  "legacy_content u requistion = go_split dash (trim_suffix [newline] (to_lower u requistion))"

definition legacy_bad :: "string \<Rightarrow> go_error" where
  "legacy_bad op = Errorf ''Failed to serialize command, operation %q not recognized'' [op]"

definition serializeCommandInJSON :: "(string \<Rightarrow> string) \<Rightarrow> (legacy_command \<Rightarrow> go_error + bytes)
    \<Rightarrow> string \<Rightarrow> 64 word \<Rightarrow> (go_error + bytes) outcome" where
  "serializeCommandInJSON u marshal requistion index =
     (let content = legacy_content u requistion;
          enc = (\<lambda>op cmt. Ret (marshal \<lparr>lg_id = index, lg_ip = content ! 0, lg_op = op, lg_comment = cmt\<rparr>))
      in outcome_bind (go_index content 2) (\<lambda>cmt.
         outcome_bind (go_index content 1) (\<lambda>op.
           if op = ''set'' then
             (if length content < 4 then Panic (Lib_error ''slice bounds out of range'')
              else enc Legacy_set (go_join [dash] (take 2 (drop 2 content))))
           else if op = ''get'' then enc Legacy_get cmt
           else if op = ''delete'' then enc Legacy_delete cmt
           else Ret (Inl (legacy_bad op)))))"

definition serializeCommandInProtobuf :: "(string \<Rightarrow> string) \<Rightarrow> pb_codec \<Rightarrow> string \<Rightarrow> 64 word
    \<Rightarrow> (go_error + bytes) outcome" where
  "serializeCommandInProtobuf u P requistion index =
     (let content = legacy_content u requistion;
          enc = (\<lambda>op key v.
            (case pb_marshal P \<lparr>cmd_id = index, cmd_ip = content ! 0, cmd_op = op, cmd_key = key, cmd_value = v\<rparr> of
               (b, Some e) \<Rightarrow> Ret (Inl e)
             | (b, None) \<Rightarrow> Ret (Inr b)))
      in outcome_bind (go_index content 2) (\<lambda>key.
         outcome_bind (go_index content 1) (\<lambda>op.
           if op = ''set'' then outcome_bind (go_index content 3) (\<lambda>v. enc Command_SET key v)
           else if op = ''get'' then enc Command_GET key []
           else if op = ''delete'' then enc Command_DELETE key []
           else Ret (Inl (legacy_bad op)))))"

text \<open>A SET request in lower case without further dashes is serialised to the command it says.\<close>

lemma legacy_content_set:
  assumes "\<forall>c \<in> set (ip @ k @ v). (of_char c :: nat) < 128 \<and> ascii_lower c = c \<and> c \<noteq> dash \<and> c \<noteq> newline"
  shows "legacy_content u (ip @ dash # ''set'' @ dash # k @ dash # v @ [newline]) = [ip, ''set'', k, v]"
proof -
  let ?r = "ip @ dash # ''set'' @ dash # k @ dash # v @ [newline]"
  have "\<forall>c \<in> set ?r. (of_char c :: nat) < 128 \<and> ascii_lower c = c"
    using assms by (auto simp: ascii_lower_def)
  then have "to_lower u ?r = ?r" by (simp add: to_lower_def map_idI)
  moreover have "trim_suffix [newline] ?r = ip @ dash # ''set'' @ dash # k @ dash # v"
    using trim_suffix_append [of "[newline]" "ip @ dash # ''set'' @ dash # k @ dash # v"] by simp
  moreover have "go_split dash (ip @ dash # ''set'' @ dash # k @ dash # v) = [ip, ''set'', k, v]"
  proof -
    have "go_split dash (ip @ dash # (''set'' @ dash # (k @ dash # v))) =
        ip # go_split dash (''set'' @ dash # (k @ dash # v))" using assms by (intro go_split_append) auto
    also have "go_split dash (''set'' @ dash # (k @ dash # v)) = ''set'' # go_split dash (k @ dash # v)"
      by (rule go_split_append) simp
    also have "go_split dash (k @ dash # v) = k # go_split dash v" using assms by (intro go_split_append) auto
    also have "go_split dash v = [v]" using assms by (intro go_split_no_sep) auto
    finally show ?thesis .
  qed
  ultimately show ?thesis by (simp add: legacy_content_def)
qed

lemma legacy_protobuf_set:
  assumes "\<forall>c \<in> set (ip @ k @ v). (of_char c :: nat) < 128 \<and> ascii_lower c = c \<and> c \<noteq> dash \<and> c \<noteq> newline"
    and "codec_law P \<lparr>cmd_id = index, cmd_ip = ip, cmd_op = Command_SET, cmd_key = k, cmd_value = v\<rparr>"
  shows "\<exists>b. serializeCommandInProtobuf u P (ip @ dash # ''set'' @ dash # k @ dash # v @ [newline]) index = Ret (Inr b) \<and>
    pb_unmarshal P b = Inr \<lparr>cmd_id = index, cmd_ip = ip, cmd_op = Command_SET, cmd_key = k, cmd_value = v\<rparr>"
  using assms(2) unfolding serializeCommandInProtobuf_def legacy_content_set [OF assms(1)]
  by (auto simp: codec_law_def Let_def numeral_2_eq_2 numeral_3_eq_3 split: prod.split option.split)

section \<open>Properties\<close>

text \<open>\<open>main\<close> starts an instance per index below the number of applications.\<close>

definition logger_instances :: "logger_config \<Rightarrow> (string \<times> string \<times> string) outcome list" where
  "logger_instances c =
     map (\<lambda>j. outcome_bind (go_index (lc_logIDs c) j) (\<lambda>i.
              outcome_bind (go_index (lc_raftAddrs c) j) (\<lambda>a.
              outcome_bind (go_index (lc_joinAddrs c) j) (\<lambda>z. Ret (i, a, z))))) [0..<lc_numApps c]"

text \<open>The three flags are accepted exactly when the identifiers are given and the three lists have
  the same number of different entries; that number of instances is started, and none of them
  indexes a list out of range.\<close>

lemma parse_ips_lengths:
  assumes "parseIPsFromArgs logs raft joins = Inr c"
  shows "lc_numApps c \<le> length (lc_logIDs c)" and "lc_numApps c \<le> length (lc_raftAddrs c)"
    and "lc_numApps c \<le> length (lc_joinAddrs c)"
proof -
  have "card (set (lc_logIDs c)) = lc_numApps c" "card (set (lc_raftAddrs c)) = lc_numApps c"
    "card (set (lc_joinAddrs c)) = lc_numApps c"
    using assms by (auto simp: parseIPsFromArgs_def countDiff_card Let_def split: if_splits)
  then show "lc_numApps c \<le> length (lc_logIDs c)" and "lc_numApps c \<le> length (lc_raftAddrs c)"
    and "lc_numApps c \<le> length (lc_joinAddrs c)" using card_length by metis+
qed

lemma parse_ips_instances:
  assumes "parseIPsFromArgs logs raft joins = Inr c"
  shows "card (set (go_split (CHR '','') logs)) = lc_numApps c \<and>
    card (set (go_split (CHR '','') raft)) = lc_numApps c \<and>
    card (set (go_split (CHR '','') joins)) = lc_numApps c \<and>
    logger_instances c = map (\<lambda>j. Ret (go_split (CHR '','') logs ! j, go_split (CHR '','') raft ! j,
      go_split (CHR '','') joins ! j)) [0..<lc_numApps c]"
proof -
  have c: "lc_logIDs c = go_split (CHR '','') logs" "lc_raftAddrs c = go_split (CHR '','') raft"
    "lc_joinAddrs c = go_split (CHR '','') joins" "card (set (lc_logIDs c)) = lc_numApps c"
    "card (set (lc_raftAddrs c)) = lc_numApps c" "card (set (lc_joinAddrs c)) = lc_numApps c"
    using assms by (auto simp: parseIPsFromArgs_def countDiff_card Let_def split: if_splits)
  show ?thesis using parse_ips_lengths [OF assms] c by (auto simp: logger_instances_def)
qed

text \<open>The identifiers that a logger process draws for its instances are different from each other,
  and those of two processes are disjoint exactly when the ranges that start at the numbers they drew
  do not meet.\<close>

lemma logger_ids_disjoint:
  assumes "a + length xs < 2 ^ 62" and "b + length ys < 2 ^ 62" and "xs \<noteq> []" "ys \<noteq> []"
  shows "distinct (logger_ids a xs) \<and>
    (set (logger_ids a xs) \<inter> set (logger_ids b ys) = {} \<longleftrightarrow> a + length xs \<le> b \<or> b + length ys \<le> a)"
proof -
  define name where "name n = ''log'' @ itoa (int n)" for n
  have inj: "name m = name n \<longleftrightarrow> m = n" if "m < 2 ^ 62" "n < 2 ^ 62" for m n
    unfolding name_def using log_id_inject that by blast
  have ids: "logger_ids c zs = map (\<lambda>i. name (c + i)) [0..<length zs]" for c zs
    by (simp add: logger_ids_def name_def)
  have "distinct (logger_ids a xs)"
    unfolding ids using inj assms(1) by (auto simp: distinct_map inj_on_def)
  moreover have "set (logger_ids a xs) \<inter> set (logger_ids b ys) = {} \<longleftrightarrow>
      (\<forall>i < length xs. \<forall>j < length ys. a + i \<noteq> b + j)"
    unfolding ids using inj assms(1,2) by fastforce
  moreover have "(\<forall>i < length xs. \<forall>j < length ys. a + i \<noteq> b + j) \<longleftrightarrow> a + length xs \<le> b \<or> b + length ys \<le> a"
  proof
    assume n: "\<forall>i < length xs. \<forall>j < length ys. a + i \<noteq> b + j"
    show "a + length xs \<le> b \<or> b + length ys \<le> a"
    proof (cases "a \<le> b")
      case True
      have "0 < length ys" using assms(4) by simp
      with n have "b - a < length xs \<longrightarrow> a + (b - a) \<noteq> b + 0" by blast
      with True show ?thesis by auto
    next
      case False
      have "0 < length xs" using assms(3) by simp
      with n have "a - b < length ys \<longrightarrow> a + 0 \<noteq> b + (a - b)" by blast
      with False show ?thesis by auto
    qed
  qed auto
  ultimately show ?thesis by blast
qed

end
