(* ===== verification/Read_All.thy ===== *)
theory Read_All
  imports Go_IO
begin

text \<open>
  \<open>readAll\<close> of kvstore and logger (\<open>store.go\<close>, \<open>logger.go\<close>): a buffer grown from what \<open>Stat\<close>
  says of the file, filled by as many reads as it takes, and the recovery from a buffer that cannot
  grow. The result is shown to be the content of the file, whatever \<open>Stat\<close> reported and however the
  reads are cut.
\<close>

section \<open>The buffer's capacity\<close>

definition maxInt :: nat where "maxInt = 2 ^ 63 - 1"
definition minRead :: nat where "minRead = 512"

text \<open>
  \<open>bytes.Buffer.grow\<close> for \<open>n\<close> more bytes of a buffer that is only written (so its read offset is
  0): the capacity afterwards, None when it panics with \<open>ErrTooLarge\<close>.
\<close>

definition grow_cap :: "nat \<Rightarrow> nat \<Rightarrow> nat \<Rightarrow> nat option" where
  "grow_cap c len n =
     (if len + n \<le> c then Some c
      else if maxInt < 2 * c + n then None
      else Some (2 * c + n))"

definition errTooLarge :: go_error where
  "errTooLarge = Lib_error ''bytes.Buffer: too large''"

section \<open>Reading\<close>

text \<open>
  A descriptor opened for reading: the content, what \<open>Stat\<close> says of its size, and how the operating
  system answers each \<open>Read\<close>: an error, or a number of bytes of which at least one and at most what
  the buffer has room for and the file still holds are delivered.
\<close>

record read_fd =
  rd_content :: bytes
  rd_stat :: "go_error + 64 word"
  rd_read :: "nat \<Rightarrow> go_error + nat"

text \<open>\<open>Buffer.ReadFrom\<close>: \<open>t\<close> counts the calls of \<open>Read\<close>, \<open>acc\<close> is what the buffer holds.\<close>

function read_from :: "(nat \<Rightarrow> go_error + nat) \<Rightarrow> nat \<Rightarrow> bytes \<Rightarrow> nat \<Rightarrow> bytes \<Rightarrow> bytes \<times> go_error option" where
  "read_from rd t rest c acc =
     (case grow_cap c (length acc) minRead of
        None \<Rightarrow> ([], Some errTooLarge)
      | Some c' \<Rightarrow>
          (case rd t of
             Inl e \<Rightarrow> (acc, Some e)
           | Inr k \<Rightarrow>
               (if rest = [] then (acc, None)
                else let m = max 1 (min k (min (c' - length acc) (length rest)))
                     in read_from rd (Suc t) (drop m rest) c' (acc @ take m rest))))"
  by pat_completeness auto
termination
proof (relation "measure (\<lambda>(rd, t, rest, c, acc). length rest)", goal_cases)
  case (2 rd t rest c acc c' k m)
  have "0 < length rest" "0 < m" using 2(3,4) by simp_all
  then show ?case by (simp only: in_measure prod.case length_drop diff_less)
qed simp

declare read_from.simps [simp del]

text \<open>The first capacity: \<open>Size() + MinRead\<close> in 64 bits when that is more than \<open>MinRead\<close>.\<close>

definition initial_cap :: "go_error + 64 word \<Rightarrow> nat" where
  "initial_cap st =
     (case st of
        Inl e \<Rightarrow> minRead
      | Inr fsize \<Rightarrow> (let n = sint (fsize + word_of_nat minRead) in if int minRead < n then nat n else minRead))"

text \<open>
  The method on a nil descriptor returns the error of its \<open>Read\<close>. A panic with \<open>ErrTooLarge\<close> is
  recovered: the result is then nil and that error.
\<close>

definition read_all :: "read_fd option \<Rightarrow> bytes \<times> go_error option" where
  "read_all fd =
     (let (st, rd, content) = (case fd of
            None \<Rightarrow> (Inl (Lib_error ''invalid argument''), \<lambda>_. Inl (Lib_error ''invalid argument''), [])
          | Some d \<Rightarrow> (rd_stat d, rd_read d, rd_content d))
      in (case grow_cap 0 0 (initial_cap st) of
            None \<Rightarrow> ([], Some errTooLarge)
          | Some c \<Rightarrow> read_from rd 0 content c []))"

section \<open>The loop returns the content\<close>

text \<open>While fewer than \<open>2 ^ 61\<close> bytes are read the buffer can always grow.\<close>

lemma grow_cap_room:
  assumes "len < 2 ^ 61" and "len \<le> c"
  shows "\<exists>c'. grow_cap c len minRead = Some c' \<and> len + minRead \<le> c'"
proof (cases "len + minRead \<le> c")
  case False
  then have "2 * c + minRead \<le> maxInt" using assms by (simp add: maxInt_def minRead_def)
  with False assms(2) show ?thesis by (simp add: grow_cap_def)
qed (simp add: grow_cap_def)

lemma read_from_content:
  "\<forall>t. \<exists>k. rd t = Inr k \<Longrightarrow> length acc \<le> c \<Longrightarrow> length acc + length rest < 2 ^ 61 \<Longrightarrow>
     read_from rd t rest c acc = (acc @ rest, None)"
proof (induction rd t rest c acc rule: read_from.induct)
  case (1 rd t rest c acc)
  obtain k where k: "rd t = Inr k" using "1.prems"(1) by blast
  have "length acc < 2 ^ 61" using "1.prems"(3) by simp
  then obtain c' where c': "grow_cap c (length acc) minRead = Some c'" "length acc + minRead \<le> c'"
    using grow_cap_room "1.prems"(2) by blast
  show ?case
  proof (cases "rest = []")
    case True
    then show ?thesis by (subst read_from.simps) (simp add: k c'(1))
  next
    case False
    define m where m: "m = max 1 (min k (min (c' - length acc) (length rest)))"
    have one: "1 \<le> length rest" "1 \<le> c' - length acc" "length acc \<le> c'"
      using False c'(2) by (simp_all add: minRead_def Suc_le_eq)
    then have "m \<le> length rest" "m \<le> c' - length acc"
      by (simp_all only: m max.bounded_iff min.coboundedI2 min.coboundedI1 order_refl simp_thms)
    then have le: "m \<le> length rest" "length acc + m \<le> c'" using one(3) by simp_all
    have "read_from rd t rest c acc = read_from rd (Suc t) (drop m rest) c' (acc @ take m rest)"
      using False by (simp add: read_from.simps [of rd t rest c acc] k c'(1) Let_def m)
    also have "\<dots> = ((acc @ take m rest) @ drop m rest, None)"
      by (rule "1.IH" [OF c'(1) k False m "1.prems"(1)]) (use le "1.prems"(3) in simp_all)
    finally show ?thesis by simp
  qed
qed

lemma initial_cap_bounds: "initial_cap st \<le> maxInt"
proof (cases st)
  case (Inr w)
  have "sint (w + word_of_nat minRead) < 2 ^ (LENGTH(64) - 1)" by (rule sint_lt)
  then have "nat (sint (w + word_of_nat minRead)) \<le> maxInt"
    by (auto simp: maxInt_def nat_le_iff)
  with Inr show ?thesis by (simp add: initial_cap_def Let_def) (simp add: minRead_def maxInt_def)
qed (simp add: initial_cap_def minRead_def maxInt_def)

text \<open>What a caller relies on: a descriptor whose reads do not fail.\<close>

definition readable :: "read_fd \<Rightarrow> bool" where
  "readable d \<longleftrightarrow> (\<forall>t. \<exists>k. rd_read d t = Inr k)"

lemma read_all_content:
  assumes "readable d" and "length (rd_content d) < 2 ^ 61"
  shows "read_all (Some d) = (rd_content d, None)"
  using assms initial_cap_bounds [of "rd_stat d"] read_from_content [of "rd_read d" "[]" _ "rd_content d" 0]
  by (simp add: read_all_def readable_def grow_cap_def)

lemma read_all_nil: "read_all None = ([], Some (Lib_error ''invalid argument''))"
  by (simp add: read_all_def grow_cap_def initial_cap_def minRead_def maxInt_def read_from.simps)

text \<open>A read that fails: what was read before it comes with the error.\<close>

lemma read_from_prefix: "prefix (fst (read_from rd t rest c acc)) (acc @ rest)"
proof (induction rd t rest c acc rule: read_from.induct)
  case (1 rd t rest c acc)
  show ?case
  proof (cases "grow_cap c (length acc) minRead")
    case None
    then show ?thesis by (simp add: read_from.simps)
  next
    case (Some c')
    show ?thesis
    proof (cases "rd t")
      case (Inl e)
      with Some show ?thesis by (simp add: read_from.simps)
    next
      case (Inr k)
      let ?m = "max 1 (min k (min (c' - length acc) (length rest)))"
      show ?thesis
      proof (cases "rest = []")
        case False
        then have "read_from rd t rest c acc = read_from rd (Suc t) (drop ?m rest) c' (acc @ take ?m rest)"
          by (simp add: read_from.simps [of rd t rest c acc] Some Inr Let_def)
        with "1.IH" [OF Some Inr False refl] show ?thesis by (simp add: append.assoc [symmetric] del: append.assoc)
      qed (simp add: read_from.simps Some Inr)
    qed
  qed
qed

section \<open>Properties\<close>



end
