(* ===== verification/State_Transfer.thy ===== *)
theory State_Transfer
  imports Logger_Process Read_All
begin

text \<open>
  State transfer: the request of \<open>recovery/requester.go\<close>, the listener that kvstore and the
  logger run (the same code), and \<open>UnsafeStateRecover\<close> of each, which sends the whole log file.
\<close>

section \<open>Requests\<close>

text \<open>The message of \<open>sendStateRequest\<close>: the connection's local address and the index.\<close>

definition state_request :: "string \<Rightarrow> int \<Rightarrow> string" where
  "state_request localAddr index = localAddr @ ''-'' @ itoa index @ [newline]"

text \<open>
  \<open>ListenStateTransfer\<close> on one connection, up to the call: exactly two parts, or the process
  ends; the index as \<open>uint64\<close> of what \<open>Atoi\<close> returned, its error dropped.
\<close>

definition parse_state_request :: "string \<Rightarrow> (string \<times> 64 word) outcome" where
  "parse_state_request request =
     (let data = go_split dash request
      in if length data \<noteq> 2 then Fatal (Errorf ''incorrect state request, got: %s'' data)
         else Ret (data ! 0, word_of_int (fst (atoi (trim_suffix [newline] (data ! 1))))))"

section \<open>UnsafeStateRecover\<close>

text \<open>
  The log is opened for reading by its name, nil when that fails, and goes through \<open>readAll\<close>. The
  bytes go to the connection; \<open>pipe_err\<close> is what \<open>Write\<close> returned. Neither version looks at the
  requested index.
\<close>

definition send_file :: "read_fd option \<Rightarrow> go_error option \<Rightarrow> bytes \<times> go_error option" where
  "send_file fd pipe_err =
     (case read_all fd of (b, Some e) \<Rightarrow> ([], Some e) | (logFileContent, None) \<Rightarrow> (logFileContent, pipe_err))"

definition kv_unsafeStateRecover ::
    "kv_store \<Rightarrow> 64 word \<Rightarrow> read_fd option \<Rightarrow> go_error option \<Rightarrow> (bytes \<times> go_error option) outcome" where
  "kv_unsafeStateRecover s logIndex fd pipe_err =
     (if \<not> kv_logging s then
        Ret ([], Some (Errorf ''Cannot force application-level recover from a non-logged application'' []))
      else Ret (send_file fd pipe_err))"

definition logger_unsafeStateRecover ::
    "logger \<Rightarrow> 64 word \<Rightarrow> read_fd option \<Rightarrow> go_error option \<Rightarrow> (bytes \<times> go_error option) outcome" where
  "logger_unsafeStateRecover lg logIndex fd pipe_err =
     (case lg_logfile lg of
        None \<Rightarrow> Panic (Lib_error ''nil pointer dereference'')
      | Some f \<Rightarrow> Ret (send_file fd pipe_err))"

section \<open>The listener\<close>

text \<open>
  One accepted connection: the bytes sent on it, or the end of the process. \<open>recover\<close> is the
  replica's \<open>UnsafeStateRecover\<close>, \<open>close_err\<close> what \<open>Close\<close> returned.
\<close>

definition serve_state_transfer ::
    "(64 word \<Rightarrow> (bytes \<times> go_error option) outcome) \<Rightarrow> go_error option \<Rightarrow> string \<Rightarrow> bytes outcome" where
  "serve_state_transfer recover close_err request =
     outcome_bind (parse_state_request request) (\<lambda>(node, index).
     outcome_bind (recover index) (\<lambda>(sent, err).
       (case err of
          Some e \<Rightarrow> Fatal (Errorf ''failed to transfer log to node located at %s: %s'' [node])
        | None \<Rightarrow>
            (case close_err of
               Some e \<Rightarrow> Fatal (Errorf ''Error encountered on connection close: %s'' [])
             | None \<Rightarrow> Ret sent))))"

section \<open>The requester\<close>

text \<open>
  The requester's connection: the error of each call on it, its local address, and what is read from
  it until the other side closes, given the request.
\<close>

record state_conn =
  sc_dial :: "go_error option"
  sc_local :: string
  sc_write :: "go_error option"
  sc_reply :: "string \<Rightarrow> go_error + bytes"
  sc_close :: "go_error option"

definition sendStateRequest :: "string \<Rightarrow> state_conn \<Rightarrow> int \<Rightarrow> (go_error + bytes) outcome" where
  "sendStateRequest recovAddr N index =
     (case sc_dial N of
        Some e \<Rightarrow> Ret (Inl (Errorf ''Failed to connect to node at %s: %s'' [recovAddr]))
      | None \<Rightarrow>
     (case sc_write N of
        Some e \<Rightarrow> Ret (Inl (Errorf ''Failed sending state request to node at %s: %s'' [recovAddr]))
      | None \<Rightarrow>
     (case sc_reply N (state_request (sc_local N) index) of
        Inl e \<Rightarrow> Fatal (Errorf ''Could not read state response:'' [])
      | Inr receivedData \<Rightarrow>
     (case sc_close N of
        Some e \<Rightarrow> Ret (Inl e)
      | None \<Rightarrow> Ret (Inr receivedData)))))"

definition askForStateTransfer :: "string \<Rightarrow> state_conn \<Rightarrow> int \<Rightarrow> bytes outcome" where
  "askForStateTransfer recovAddr N firstIndex =
     outcome_bind (sendStateRequest recovAddr N firstIndex) (\<lambda>r.
       (case r of
          Inl e \<Rightarrow> Fatal (Errorf ''Failed to receive a new state from node %s: %s'' [recovAddr])
        | Inr receivedState \<Rightarrow> Ret receivedState))"

definition startStateInstallation :: "pb_codec \<Rightarrow> mock_state \<Rightarrow> bytes \<Rightarrow> (mock_state \<times> int) outcome" where
  "startStateInstallation P replica receivedState =
     outcome_bind (installReceivedState P replica receivedState) (\<lambda>(m, cmds, err).
       (case err of
          Some e \<Rightarrow> Fatal (Errorf ''Failed to install the received state: %s'' [])
        | None \<Rightarrow> Ret (m, cmds)))"

text \<open>\<open>main\<close> after its wait: the state, the number of commands and the size that it prints.\<close>

definition recovery_main :: "pb_codec \<Rightarrow> string \<Rightarrow> state_conn \<Rightarrow> (mock_state \<times> int \<times> nat) outcome" where
  "recovery_main P recovAddr N =
     (if recovAddr = [] then Fatal (Errorf ''Must set a valid IP address to request state'' [])
      else outcome_bind (askForStateTransfer recovAddr N 0) (\<lambda>receivedState.
           outcome_bind (startStateInstallation P newMockState receivedState) (\<lambda>(m, numCommands).
             Ret (m, numCommands, length receivedState))))"

lemma parse_state_request_ok:
  assumes "dash \<notin> set localAddr" and "0 \<le> index" and "index < 2 ^ 63"
  shows "parse_state_request (state_request localAddr index) = Ret (localAddr, word_of_int index)"
proof -
  have "go_split dash (state_request localAddr index) = [localAddr, itoa index @ [newline]]"
    using assms itoa_no_dash [of index]
    by (simp add: state_request_def go_string)
  then show ?thesis
    using assms by (simp add: parse_state_request_def atoi_itoa)
qed

section \<open>Properties\<close>

text \<open>
  A connection without errors of its own to a listener: it yields what the listener sends, or an
  error when that process ended.
\<close>

definition connection_reply :: "bytes outcome \<Rightarrow> go_error + bytes" where
  "connection_reply r = (case r of Ret b \<Rightarrow> Inr b | _ \<Rightarrow> Inl (Lib_error ''connection reset by peer''))"

definition connection_to :: "(string \<Rightarrow> bytes outcome) \<Rightarrow> string \<Rightarrow> state_conn" where
  "connection_to listener localAddr =
     \<lparr>sc_dial = None, sc_local = localAddr, sc_write = None,
      sc_reply = (\<lambda>req. connection_reply (listener req)), sc_close = None\<rparr>"

text \<open>
  The listener of a replica; \<open>opens\<close> is what opening a file of some content for reading gives, and
  \<open>opens_ok\<close> that it is this content, and that the reads do not fail.
\<close>

definition kv_state_listener :: "(bytes \<Rightarrow> read_fd) \<Rightarrow> kv_store \<Rightarrow> string \<Rightarrow> bytes outcome" where
  "kv_state_listener opens s =
     serve_state_transfer
       (\<lambda>i. kv_unsafeStateRecover s i (map_option (\<lambda>f. opens (fcontent f)) (kv_logfile s)) None) None"

definition opens_ok :: "(bytes \<Rightarrow> read_fd) \<Rightarrow> bool" where
  "opens_ok opens \<longleftrightarrow> (\<forall>c. readable (opens c) \<and> rd_content (opens c) = c)"

lemma send_file_content:
  "opens_ok opens \<Longrightarrow> length c < 2 ^ 61 \<Longrightarrow> send_file (Some (opens c)) err = (c, err)"
  using read_all_content [of "opens c"] by (simp add: send_file_def opens_ok_def)

text \<open>A system that reads a file in pieces of 4096 bytes.\<close>

definition demo_opens :: "bytes \<Rightarrow> read_fd" where
  "demo_opens c = \<lparr>rd_content = c, rd_stat = Inr (word_of_nat (length c)), rd_read = (\<lambda>_. Inr 4096)\<rparr>"

lemma demo_opens_ok: "opens_ok demo_opens"
  by (simp add: opens_ok_def demo_opens_def readable_def)

lemma log_of_run:
  assumes "kv_logging s" and "log_ready (kv_logfile s)" "log_bytes (kv_logfile s) = []"
    and "\<not> run_crashed (kv_apply P G) s es"
  shows "log_bytes (kv_logfile (run_state (kv_apply P G) s es)) = frames (kv_log.payloads P es)"
  using kv_log.run_log [OF assms(1,2,4)] assms(3) by (simp add: kv_log_text)

text \<open>C9: state transfer end to end. A requester that connects to a replica which logs, from an
  address without a dash, gets through the listener the whole log, and installs a state that, over
  the replica's initial map, is the replica's map; it reports the number of commands logged.\<close>

theorem state_transfer_installs:
  assumes "kv_inv s" "kv_logging s" and "log_ready (kv_logfile s)" "log_bytes (kv_logfile s) = []"
    and "\<not> run_crashed (kv_apply P G) s es" and "\<forall>e \<in> set es. loggable P e"
    and "dash \<notin> set localAddr" and "recovAddr \<noteq> []"
    and "opens_ok opens" and "length (log_bytes (kv_logfile (run_state (kv_apply P G) s es))) < 2 ^ 61"
  shows "\<exists>m len. recovery_main P recovAddr
       (connection_to (kv_state_listener opens (run_state (kv_apply P G) s es)) localAddr) =
         Ret (m, int (length (stamped P es)), len) \<and>
       kv_view (run_state (kv_apply P G) s es) = kv_view s ++ m"
proof -
  let ?s = "run_state (kv_apply P G) s es"
  obtain f where f: "kv_logfile s = Some f" "at_end f" using assms(3) by (auto simp: log_ready_def split: option.splits)
  have on: "kv_logging ?s"
  proof -
    have "kv_logging (run_state (kv_apply P G) s es)" if "kv_logging s" for s
      using that
    proof (induction es arbitrary: s)
      case (Cons e es)
      obtain s' p where fe: "kv_apply P G s e = (s', p)" by (cases "kv_apply P G s e") auto
      with kv_log.apply_enabled [OF Cons.prems, of P G e] Cons.IH [of s'] show ?case
        by (cases p) (simp_all add: fsm_run_Cons_Ret fsm_run_Cons_crash del: fsm_run.simps)
    qed simp
    then show ?thesis using assms(2) .
  qed
  obtain f' where f': "kv_logfile ?s = Some f'" using kv_log.run_file [OF assms(2) f(1) assms(5)] by blast
  have c: "fcontent f' = frames (kv_log.payloads P es)"
    using log_of_run [OF assms(2,3,4,5)] f' by (simp add: log_bytes_def)
  moreover have "length (fcontent f') < 2 ^ 61" using assms(10) f' by (simp add: log_bytes_def)
  ultimately have sent: "send_file (Some (opens (fcontent f'))) None = (frames (kv_log.payloads P es), None)"
    using send_file_content [OF assms(9)] by simp
  have "parse_state_request (state_request localAddr 0) = Ret (localAddr, word_of_int 0)"
    by (rule parse_state_request_ok [OF assms(7)]) simp_all
  then have "kv_state_listener opens ?s (state_request localAddr 0) = Ret (frames (kv_log.payloads P es))"
    using on f' sent by (simp add: kv_state_listener_def serve_state_transfer_def kv_unsafeStateRecover_def)
  moreover have "installReceivedState P newMockState (frames (kv_log.payloads P es)) =
      Ret (fold install_cmd (stamped P es) Map.empty, int (length (stamped P es)), None)"
    by (simp add: installReceivedState_def install_loop_all [OF payloads_decode [OF assms(6)]] newMockState_def)
  moreover have "kv_view ?s = kv_view s ++ fold install_cmd (stamped P es) Map.empty"
    using kv_run_replay [OF assms(1,5)] fold_install_empty by metis
  ultimately show ?thesis using assms(8)
    by (simp add: recovery_main_def askForStateTransfer_def startStateInstallation_def sendStateRequest_def
        connection_to_def connection_reply_def)
qed

lemma state_transfer_installs_witness:
  "\<exists>len m. recovery_main sample_codec ''10.0.0.1:14000''
     (connection_to (kv_state_listener demo_opens (run_state (kv_apply sample_codec sample_gz)
        (demo_store\<lparr>kv_logfile := Some \<lparr>fcontent = [], fpos = 0\<rparr>\<rparr>) [sample_entry Command_SET ''k'' ''v''])) ''10.0.0.2:40000'') =
     Ret (m, 1, len)"
proof -
  let ?s = "demo_store\<lparr>kv_logfile := Some \<lparr>fcontent = [], fpos = 0\<rparr>\<rparr>"
  let ?e = "sample_entry Command_SET ''k'' ''v''"
  have "length (frames (kv_log.payloads sample_codec [?e])) < 2 ^ 61"
    by (simp add: sample_entry_decodes) (simp add: sample_codec_def sample_marshal_def sample_str_def frame_def)
  moreover have l: "log_bytes (kv_logfile (run_state (kv_apply sample_codec sample_gz) ?s [?e])) =
      frames (kv_log.payloads sample_codec [?e])"
    by (rule log_of_run [OF _ _ _ demo_run]) (simp_all add: demo_store_def log_ready_def at_end_def log_bytes_def)
  ultimately show ?thesis
    using state_transfer_installs [OF _ _ _ _ demo_run _ _ _ demo_opens_ok, of "Some \<lparr>fcontent = [], fpos = 0\<rparr>" "''10.0.0.2:40000''" "''10.0.0.1:14000''"]
      demo_store_inv
    by (auto simp: demo_store_def log_ready_def at_end_def log_bytes_def sample_entry_loggable sample_entry_decodes)
qed

text \<open>A state request can end the process of the replica it asks: every request to a kvstore that
  does not log, and, even when it logs, every request for a negative index or from an address with a
  dash, has the listener call \<open>log.Fatal\<close>.\<close>

lemma state_request_kills:
  assumes "\<not> kv_logging s \<or> dash \<in> set localAddr \<or> index < 0"
  shows "\<exists>e. kv_state_listener opens s (state_request localAddr index) = Fatal e"
proof (cases "parse_state_request (state_request localAddr index)")
  case (Ret r)
  have "length (go_split dash (state_request localAddr index)) = 2"
    using Ret by (simp add: parse_state_request_def Let_def split: if_splits)
  then have n: "count_list (state_request localAddr index) dash = 1"
    by (simp add: go_split_length)
  have "\<not> (dash \<in> set localAddr \<or> index < 0)"
  proof
    assume "dash \<in> set localAddr \<or> index < 0"
    then have "count_list localAddr dash \<noteq> 0 \<or> count_list (itoa index) dash \<noteq> 0"
      by (auto simp: count_list_0_iff itoa_def)
    then have "1 \<le> count_list localAddr dash + count_list (itoa index) dash" by arith
    then have "2 \<le> count_list (state_request localAddr index) dash"
      by (simp add: state_request_def)
    with n show False by simp
  qed
  with assms have "\<not> kv_logging s" by blast
  with Ret show ?thesis
    by (cases r) (simp add: kv_state_listener_def serve_state_transfer_def kv_unsafeStateRecover_def)
next
  case (Fatal e)
  then show ?thesis by (simp add: kv_state_listener_def serve_state_transfer_def)
qed (simp_all add: parse_state_request_def Let_def split: if_splits)

end
