(* ===== verification/Disk_Store.thy ===== *)
theory Disk_Store
  imports Recovery
begin

text \<open>
  The replicated disk store of \<open>diskstorage/\<close>: one file of equal slots, where a key is the
  decimal number of its slot. The offset of a slot is computed with Go's 64-bit \<open>int\<close>, so it
  wraps. \<open>Set\<close> writes the constant \<open>storeValue\<close>, a failed read or write panics, and the
  command log has no length prefixes.
\<close>

section \<open>State\<close>

record disk_store =
  ds_local :: bytes
  ds_valueSize :: "64 word"
  ds_storeValue :: bytes
  ds_logging :: bool
  ds_logfile :: "go_file option"

definition storeValuesOffset :: nat where "storeValuesOffset = 1024"

text \<open>
  \<open>New\<close>: \<open>opened\<close> is the result of opening the store's file (its content, or the error that
  \<open>New\<close> returns); the log is opened as in kvstore.
\<close>

definition disk_new :: "string \<Rightarrow> string \<Rightarrow> go_error + bytes \<Rightarrow> stat_result \<Rightarrow> bool
    \<Rightarrow> (go_error + disk_store) outcome" where
  "disk_new logfolder svrID opened st openable =
     (case opened of
        Inl e \<Rightarrow> Ret (Inl e)
      | Inr content \<Rightarrow>
          (let s = \<lparr>ds_local = content, ds_valueSize = word_of_nat storeValuesOffset,
                    ds_storeValue = replicate storeValuesOffset (CHR ''@''),
                    ds_logging = False, ds_logfile = None\<rparr>
           in if logfolder \<noteq> [] then
                outcome_bind (createFile st openable (logfolder @ ''log-file-'' @ svrID @ ''.txt''))
                  (\<lambda>fd. Ret (Inr (s\<lparr>ds_logging := True, ds_logfile := fd\<rparr>)))
              else Ret (Inr s)))"

section \<open>The state machine\<close>

text \<open>\<open>int64(f.valueSize * pos)\<close>, with the wrap-around of the multiplication.\<close>

definition disk_stride :: "disk_store \<Rightarrow> int \<Rightarrow> int" where
  "disk_stride s pos = sint (ds_valueSize s * word_of_int pos)"

definition bad_key :: "string \<Rightarrow> go_error" where
  "bad_key key = Errorf ''Could not interpret specified key value %q'' [key]"

text \<open>The common start of the three operations: the slot's number, or the panic.\<close>

definition disk_pos :: "string \<Rightarrow> int outcome" where
  "disk_pos key = (case atoi key of (pos, None) \<Rightarrow> Ret pos | (_, Some _) \<Rightarrow> Panic (bad_key key))"

definition disk_write :: "nat \<Rightarrow> disk_store \<Rightarrow> bytes \<Rightarrow> int \<Rightarrow> disk_store \<times> string outcome" where
  "disk_write limit s bs pos =
     (let (content, err) = write_at limit (ds_local s) bs (disk_stride s pos)
      in (s\<lparr>ds_local := content\<rparr>, case err of None \<Rightarrow> Ret [] | Some e \<Rightarrow> Panic e))"

definition disk_applySet :: "nat \<Rightarrow> disk_store \<Rightarrow> string \<Rightarrow> string \<Rightarrow> disk_store \<times> string outcome" where
  "disk_applySet limit s key val =
     (case disk_pos key of
        Ret pos \<Rightarrow> disk_write limit s (ds_storeValue s) pos
      | Panic e \<Rightarrow> (s, Panic e) | Fatal e \<Rightarrow> (s, Fatal e) | Blocked \<Rightarrow> (s, Blocked))"

definition disk_applyDelete :: "nat \<Rightarrow> disk_store \<Rightarrow> string \<Rightarrow> disk_store \<times> string outcome" where
  "disk_applyDelete limit s key =
     (case disk_pos key of
        Ret pos \<Rightarrow> disk_write limit s (replicate (unat (ds_valueSize s)) (CHR '' '')) pos
      | Panic e \<Rightarrow> (s, Panic e) | Fatal e \<Rightarrow> (s, Fatal e) | Blocked \<Rightarrow> (s, Blocked))"

definition disk_applyGet :: "disk_store \<Rightarrow> string \<Rightarrow> string outcome" where
  "disk_applyGet s key =
     outcome_bind (disk_pos key)
       (\<lambda>pos. let (bs, err) = read_at (ds_local s) (unat (ds_valueSize s)) (disk_stride s pos)
              in (case err of None \<Rightarrow> Ret bs | Some e \<Rightarrow> Panic e))"

definition disk_answer :: "string \<Rightarrow> string outcome \<Rightarrow> fsm_response outcome" where
  "disk_answer ip r = outcome_bind r (\<lambda>v. Ret (Resp_string (go_join [dash] [ip, v])))"

definition disk_switch :: "nat \<Rightarrow> disk_store \<Rightarrow> pb_command \<Rightarrow> disk_store \<times> fsm_response outcome" where
  "disk_switch limit s c =
     (case cmd_op c of
        Command_SET \<Rightarrow>
          (let (s', r) = disk_applySet limit s (cmd_key c) (cmd_value c) in (s', disk_answer (cmd_ip c) r))
      | Command_GET \<Rightarrow> (s, disk_answer (cmd_ip c) (disk_applyGet s (cmd_key c)))
      | _ \<Rightarrow> (s, Panic (bad_op c)))"

text \<open>\<open>Apply\<close>: the deferred write puts the bare message into the log, without a size.\<close>

definition disk_log_write :: "go_file option \<Rightarrow> bytes \<Rightarrow> go_file option" where
  "disk_log_write fd msg = fst (fd_write fd msg)"

definition disk_apply :: "pb_codec \<Rightarrow> nat \<Rightarrow> disk_store \<Rightarrow> raft_log \<Rightarrow> disk_store \<times> fsm_response outcome" where
  "disk_apply P limit s l =
     (case pb_unmarshal P (log_data l) of
        Inl e \<Rightarrow> (s, Ret (Resp_error e))
      | Inr command \<Rightarrow>
          (if ds_logging s then
             (let c = command\<lparr>cmd_id := log_index l\<rparr>;
                  (s', r) = disk_switch limit s c
              in (s'\<lparr>ds_logfile := disk_log_write (ds_logfile s') (serialize P c)\<rparr>, r))
           else disk_switch limit s command))"

text \<open>\<open>Snapshot\<close>, \<open>Persist\<close> and \<open>Restore\<close>: nothing is written, nothing is restored.\<close>

definition disk_persist :: "sink \<Rightarrow> persisted" where
  "disk_persist k = \<lparr>ps_written = None, ps_closed = False, ps_cancelled = False, ps_err = None\<rparr>"

definition disk_restore :: "disk_store \<Rightarrow> bytes \<Rightarrow> disk_store \<times> go_error option" where
  "disk_restore s rc = (s, None)"

section \<open>Slots\<close>

text \<open>The bytes of the file, zero past its end, and the slots they make.\<close>

definition byte_at :: "bytes \<Rightarrow> nat \<Rightarrow> char" where
  "byte_at c i = (if i < length c then c ! i else nul)"

definition slot :: "bytes \<Rightarrow> nat \<Rightarrow> bytes" where
  "slot c p = map (\<lambda>j. byte_at c (1024 * p + j)) [0..<1024]"

text \<open>The store as \<open>New\<close> makes it.\<close>

definition disk_inv :: "disk_store \<Rightarrow> bool" where
  "disk_inv s \<longleftrightarrow> ds_valueSize s = 1024 \<and> ds_storeValue s = replicate 1024 (CHR ''@'')"

lemma byte_at_overwrite:
  "byte_at (overwrite nul off new c) i =
     (if off \<le> i \<and> i < off + length new then new ! (i - off) else byte_at c i)"
  by (auto simp: byte_at_def overwrite_nth overwrite_length less_max_iff_disj)

lemma slot_length [simp]: "length (slot c p) = 1024"
  by (simp add: slot_def)

lemma slot_overwrite:
  assumes "length new = 1024"
  shows "slot (overwrite nul (1024 * p) new c) q = (if q = p then new else slot c q)"
proof (rule nth_equalityI)
  show "length (slot (overwrite nul (1024 * p) new c) q) = length (if q = p then new else slot c q)"
    using assms by simp
next
  fix i
  assume "i < length (slot (overwrite nul (1024 * p) new c) q)"
  then have i: "i < 1024" by simp
  have "1024 * p \<le> 1024 * q + i \<and> 1024 * q + i < 1024 * p + 1024 \<longleftrightarrow> q = p"
    using i by linarith
  then show "slot (overwrite nul (1024 * p) new c) q ! i = (if q = p then new else slot c q) ! i"
    using i assms by (auto simp: slot_def byte_at_overwrite)
qed

lemma slot_read: "1024 * p + 1024 \<le> length c \<Longrightarrow> take 1024 (drop (1024 * p) c) = slot c p"
  by (rule nth_equalityI) (simp_all add: slot_def byte_at_def)

lemma disk_stride_int:
  assumes "disk_inv s" and "0 \<le> pos" and "1024 * pos < 2 ^ 63"
  shows "disk_stride s pos = 1024 * pos"
proof -
  have vs: "ds_valueSize s = 1024" using assms(1) by (simp add: disk_inv_def)
  have m: "1024 * word_of_int pos = (word_of_int (1024 * pos) :: 64 word)" by simp
  show ?thesis
    unfolding disk_stride_def vs m signed_of_int
    using assms(2,3) by (simp add: signed_take_bit_int_eq_self)
qed

lemma disk_pos_itoa:
  "0 \<le> pos \<Longrightarrow> pos < 2 ^ 63 \<Longrightarrow> disk_pos (itoa pos) = Ret pos"
  by (simp add: disk_pos_def atoi_itoa)

section \<open>The interfaces it provides\<close>

definition disk_view :: "disk_store \<Rightarrow> bytes \<times> 64 word \<times> bytes" where
  "disk_view s = (ds_local s, ds_valueSize s, ds_storeValue s)"

definition disk_any :: "disk_store \<Rightarrow> bool" where "disk_any s = True"

lemma disk_view_iff:
  "disk_view s = disk_view t \<longleftrightarrow>
     ds_local s = ds_local t \<and> ds_valueSize s = ds_valueSize t \<and> ds_storeValue s = ds_storeValue t"
  by (auto simp: disk_view_def)

lemma disk_view_logfile [simp]: "disk_view (s\<lparr>ds_logfile := f\<rparr>) = disk_view s"
  by (simp add: disk_view_def)

lemma disk_answer_id [simp]: "disk_answer (cmd_ip (c\<lparr>cmd_id := i\<rparr>)) r = disk_answer (cmd_ip c) r"
  by simp

lemma bad_op_id [simp]: "bad_op (c\<lparr>cmd_id := i\<rparr>) = bad_op c"
  by (simp add: bad_op_def)

lemma disk_write_view:
  assumes "disk_view s = disk_view t"
  shows "disk_view (fst (disk_write limit s bs pos)) = disk_view (fst (disk_write limit t bs pos))"
    and "snd (disk_write limit s bs pos) = snd (disk_write limit t bs pos)"
  using assms by (simp_all add: disk_view_iff disk_write_def disk_stride_def split_beta Let_def)

lemma disk_set_view:
  assumes "disk_view s = disk_view t"
  shows "disk_view (fst (disk_applySet limit s k v)) = disk_view (fst (disk_applySet limit t k v))"
    and "snd (disk_applySet limit s k v) = snd (disk_applySet limit t k v)"
proof -
  have sv: "ds_storeValue s = ds_storeValue t" using assms by (simp add: disk_view_iff)
  show "disk_view (fst (disk_applySet limit s k v)) = disk_view (fst (disk_applySet limit t k v))"
    and "snd (disk_applySet limit s k v) = snd (disk_applySet limit t k v)"
    using assms disk_write_view [OF assms]
    by (simp_all add: disk_applySet_def sv split: outcome.split)
qed

lemma disk_get_view:
  "disk_view s = disk_view t \<Longrightarrow> disk_applyGet s k = disk_applyGet t k"
  by (simp add: disk_view_iff disk_applyGet_def disk_stride_def)

lemma disk_switch_view:
  assumes "disk_view s = disk_view t"
  shows "disk_view (fst (disk_switch limit s c)) = disk_view (fst (disk_switch limit t c))"
    and "snd (disk_switch limit s c) = snd (disk_switch limit t c)"
  using assms disk_set_view [OF assms] disk_get_view [OF assms]
  by (simp_all add: disk_switch_def split_beta Let_def split: pb_op.split)

lemma disk_switch_id:
  "disk_switch limit s (c\<lparr>cmd_id := i\<rparr>) = disk_switch limit s c"
  by (cases "cmd_op c") (simp_all add: disk_switch_def)

lemmas disk_apply_simps = disk_apply_def Let_def split_beta disk_switch_id

interpretation disk: raft_fsm "disk_apply P limit" disk_view disk_any
  for P :: pb_codec and limit :: nat
proof unfold_locales
  fix s t e
  assume v: "disk_view s = disk_view t"
  show "disk_view (fst (disk_apply P limit s e)) = disk_view (fst (disk_apply P limit t e))"
    using v disk_switch_view(1) [OF v, of limit]
    by (simp add: disk_apply_simps split: sum.split)
  show "snd (disk_apply P limit s e) = snd (disk_apply P limit t e)"
    using disk_switch_view(2) [OF v, of limit]
    by (simp add: disk_apply_simps split: sum.split)
qed (simp add: disk_any_def)

definition disk_payload :: "pb_codec \<Rightarrow> raft_log \<Rightarrow> bytes option" where
  "disk_payload P l = (case pb_unmarshal P (log_data l) of
       Inl e \<Rightarrow> None
     | Inr c \<Rightarrow> Some (serialize P (c\<lparr>cmd_id := log_index l\<rparr>)))"

lemma disk_switch_fields [simp]:
  "ds_logging (fst (disk_switch limit s c)) = ds_logging s"
  "ds_logfile (fst (disk_switch limit s c)) = ds_logfile s"
  by (simp_all add: disk_switch_def disk_applySet_def disk_write_def split_beta Let_def
      split: pb_op.split outcome.split)

lemma disk_log_write_Some: "disk_log_write (Some fl) msg = Some (file_write fl (id msg))"
  by (simp add: disk_log_write_def fd_write_def)

interpretation disk_log: logging_fsm "disk_apply P limit" ds_logfile ds_logging "disk_payload P"
    disk_log_write id
  for P :: pb_codec and limit :: nat
  by unfold_locales
     (simp_all add: disk_apply_simps disk_payload_def disk_log_write_Some split: sum.split)

section \<open>Properties\<close>

text \<open>The offset of a slot whose end a file may reach.\<close>

lemma slot_bounds:
  assumes "0 \<le> pos" and "1024 * nat pos + 1024 \<le> n" and "n < 2 ^ 63"
  shows "pos < 2 ^ 63" and "1024 * pos < 2 ^ 63" and "nat (1024 * pos) = 1024 * nat pos"
proof -
  have "1024 * nat pos + 1024 < 2 ^ 63" using assms(2,3) by (rule le_less_trans)
  then have "int (1024 * nat pos + 1024) < int (2 ^ 63)" by (simp only: of_nat_less_iff)
  moreover have "int (1024 * nat pos + 1024) = 1024 * pos + 1024" using assms(1) by simp
  moreover have "int (2 ^ 63) = 2 ^ 63" by simp
  ultimately have b: "1024 * pos + 1024 < 2 ^ 63" by (simp only:)
  then show "pos < 2 ^ 63" "1024 * pos < 2 ^ 63" using assms(1) by linarith+
  show "nat (1024 * pos) = 1024 * nat pos" by (simp add: nat_mult_distrib)
qed

lemma disk_set_pos:
  assumes "disk_inv s" and "0 \<le> pos" and "1024 * nat pos + 1024 \<le> limit" and "limit < 2 ^ 63"
    and "disk_pos key = Ret pos"
  shows "\<exists>s'. disk_applySet limit s key v = (s', Ret []) \<and> disk_inv s' \<and>
    (\<forall>q. slot (ds_local s') q = (if q = nat pos then replicate 1024 (CHR ''@'') else slot (ds_local s) q))"
proof -
  note b = slot_bounds [OF assms(2-4)]
  have st: "disk_stride s pos = 1024 * pos" by (rule disk_stride_int [OF assms(1,2) b(2)])
  have sv: "ds_storeValue s = replicate 1024 (CHR ''@'')" using assms(1) by (simp add: disk_inv_def)
  have "disk_applySet limit s key v =
      (s\<lparr>ds_local := overwrite nul (1024 * nat pos) (replicate 1024 (CHR ''@'')) (ds_local s)\<rparr>, Ret [])"
    using assms(2,3) b(3)
    by (simp add: disk_applySet_def assms(5) disk_write_def st sv write_at_def)
  moreover have "slot (overwrite nul (1024 * nat pos) (replicate 1024 (CHR ''@'')) (ds_local s)) q =
      (if q = nat pos then replicate 1024 (CHR ''@'') else slot (ds_local s) q)" for q
    by (rule slot_overwrite) simp
  moreover have "disk_inv (s\<lparr>ds_local := c\<rparr>)" for c using assms(1) by (simp add: disk_inv_def)
  ultimately show ?thesis by (intro exI conjI allI) (assumption | simp)+
qed

text \<open>SET of a slot's number, within what the file system allows, fills the whole slot with the
  store's constant, whatever value the command has, and leaves every other slot as it was.\<close>

lemma disk_set_fills_slot:
  assumes "disk_inv s" and "0 \<le> pos" and "1024 * nat pos + 1024 \<le> limit" and "limit < 2 ^ 63"
  shows "\<exists>s'. disk_applySet limit s (itoa pos) v = (s', Ret []) \<and> disk_inv s' \<and>
    (\<forall>q. slot (ds_local s') q = (if q = nat pos then replicate 1024 (CHR ''@'') else slot (ds_local s) q))"
  using disk_set_pos [OF assms disk_pos_itoa [OF assms(2) slot_bounds(1) [OF assms(2-4)]]] .

definition demo_disk :: disk_store where
  "demo_disk = \<lparr>ds_local = [], ds_valueSize = 1024, ds_storeValue = replicate 1024 (CHR ''@''),
                ds_logging = True, ds_logfile = Some \<lparr>fcontent = [], fpos = 0\<rparr>\<rparr>"

lemma demo_disk_inv: "disk_inv demo_disk"
  by (simp add: disk_inv_def demo_disk_def)

text \<open>GET of a slot's number returns the slot when the file reaches to its end, and panics (so
  crashes every replica) when it does not.\<close>

lemma disk_get_slot:
  assumes "disk_inv s" and "0 \<le> pos" and "1024 * nat pos + 1024 \<le> n" "n < 2 ^ 63"
  shows "disk_applyGet s (itoa pos) =
    (if 1024 * nat pos + 1024 \<le> length (ds_local s) then Ret (slot (ds_local s) (nat pos))
     else Panic (Lib_error ''EOF''))"
proof -
  note b = slot_bounds [OF assms(2-4)]
  have st: "disk_stride s pos = 1024 * pos" by (rule disk_stride_int [OF assms(1,2) b(2)])
  have vs: "unat (ds_valueSize s) = 1024" using assms(1) by (simp add: disk_inv_def)
  have r: "disk_applyGet s (itoa pos) =
      (if length (take 1024 (drop (1024 * nat pos) (ds_local s))) < 1024 then Panic (Lib_error ''EOF'')
       else Ret (take 1024 (drop (1024 * nat pos) (ds_local s))))"
    using assms(2) b(3)
    by (simp add: disk_applyGet_def disk_pos_itoa [OF assms(2) b(1)] st vs read_at_def Let_def)
  show ?thesis
  proof (cases "1024 * nat pos + 1024 \<le> length (ds_local s)")
    case True
    with r slot_read [OF True] show ?thesis by simp
  qed (use r in auto)
qed

text \<open>The offset is computed in 64 bits, so slots alias: the numbers pos and pos + 2^54 name the
  same bytes for SET and for GET.\<close>

lemma disk_slots_alias:
  assumes "disk_inv s" and "0 \<le> pos" and "pos < 2 ^ 62"
  shows "disk_applySet limit s (itoa (pos + 2 ^ 54)) v = disk_applySet limit s (itoa pos) v \<and>
    disk_applyGet s (itoa (pos + 2 ^ 54)) = disk_applyGet s (itoa pos)"
proof -
  have vs: "ds_valueSize s = 1024" using assms(1) by (simp add: disk_inv_def)
  have "(1024 :: 64 word) * word_of_int (pos + 2 ^ 54) = 1024 * word_of_int pos + 1024 * 2 ^ 54"
    by (simp only: of_int_add of_int_power of_int_numeral distrib_left)
  also have "(1024 :: 64 word) * 2 ^ 54 = 0" by simp
  finally have w: "(1024 :: 64 word) * word_of_int (pos + 2 ^ 54) = 1024 * word_of_int pos"
    by (simp only: add_0_right)
  have st: "disk_stride s (pos + 2 ^ 54) = disk_stride s pos"
    unfolding disk_stride_def vs by (simp only: w)
  have b: "pos < 2 ^ 63" "0 \<le> pos + 2 ^ 54" "pos + 2 ^ 54 < 2 ^ 63" using assms(2,3) by simp_all
  show ?thesis
    unfolding disk_applySet_def disk_applyGet_def disk_pos_itoa [OF assms(2) b(1)]
      disk_pos_itoa [OF b(2,3)]
    by (simp only: outcome.case outcome_bind.simps disk_write_def st simp_thms)
qed

text \<open>A committed SET or GET whose key is no decimal number, or a negative one, panics on every
  replica of the disk store.\<close>

lemma disk_bad_key_panics:
  assumes "disk_inv s" and "pb_unmarshal P (log_data l) = Inr c"
    and "cmd_op c \<in> {Command_SET, Command_GET}"
    and "snd (atoi (cmd_key c)) \<noteq> None \<or> - (2 ^ 53) \<le> fst (atoi (cmd_key c)) \<and> fst (atoi (cmd_key c)) < 0"
  shows "\<exists>e. snd (disk_apply P limit s l) = Panic e"
proof -
  have vs: "ds_valueSize s = 1024" using assms(1) by (simp add: disk_inv_def)
  have neg: "disk_stride s pos < 0" if "- (2 ^ 53) \<le> pos" "pos < 0" for pos
  proof -
    have "1024 * word_of_int pos = (word_of_int (1024 * pos) :: 64 word)" by simp
    moreover have "signed_take_bit 63 (1024 * pos) = 1024 * pos"
      using that by (intro signed_take_bit_int_eq_self) simp_all
    ultimately show ?thesis
      unfolding disk_stride_def vs using that(2) by (simp only: signed_of_int) simp
  qed
  obtain n err where a: "atoi (cmd_key c) = (n, err)" by (cases "atoi (cmd_key c)") auto
  have "\<exists>e. snd (disk_switch limit s c) = Panic e"
  proof (cases err)
    case (Some e)
    with a assms(3) show ?thesis
      by (auto simp: disk_switch_def disk_applySet_def disk_applyGet_def disk_pos_def disk_answer_def)
  next
    case None
    with a assms(4) have "disk_stride s n < 0" by (intro neg) simp_all
    with None a assms(3) show ?thesis
      by (auto simp: disk_switch_def disk_applySet_def disk_applyGet_def disk_pos_def disk_answer_def
          disk_write_def write_at_def read_at_def)
  qed
  then show ?thesis using assms(2) by (simp add: disk_apply_simps)
qed

text \<open>The log of a disk store is the bare concatenation of the stamped messages of the entries it
  applied: nothing says where one ends.\<close>

lemma disk_log_unframed:
  assumes "ds_logging s" and "log_ready (ds_logfile s)" and "\<not> run_crashed (disk_apply P limit) s es"
  shows "log_bytes (ds_logfile (run_state (disk_apply P limit) s es)) =
    log_bytes (ds_logfile s) @ concat (kv_log.payloads P es)"
proof -
  have "disk_log.log_text P es = concat (List.map_filter (disk_payload P) es)"
    by (simp add: disk_log.log_text_def disk_log.payloads_def)
  moreover have "disk_payload P = kv_payload P" by (rule ext) (simp add: disk_payload_def kv_payload_def)
  ultimately have "disk_log.log_text P es = concat (kv_log.payloads P es)"
    by (simp only: kv_log.payloads_def)
  with disk_log.run_log [OF assms] show ?thesis by simp
qed

end
