(* ===== verification/KV_Server.thy ===== *)
theory KV_Server
  imports State_Transfer Disk_Store
begin

text \<open>
  The server in front of a replicated store, the same code in kvstore and diskstorage
  (\<open>server.go\<close>, \<open>sessions.go\<close>, \<open>Propose\<close> of the store): sessions that read requests from
  connections, the loop that hands them one at a time to the store's \<open>Propose\<close>, the reply by
  UDP, and the throughput monitor. The store is behind the interface \<open>proposer\<close>, which both
  stores provide.
\<close>

section \<open>Sessions\<close>

record request =
  rq_command :: bytes
  rq_ip :: string

text \<open>
  \<open>Session.Read\<close> on the bytes that a connection carries until it is closed: each line longer
  than its newline becomes a request; bytes after the last newline are dropped at the end.
\<close>

function session_read :: "string \<Rightarrow> bytes \<Rightarrow> request list" where
  "session_read remote s =
     (case read_line s of
        (line, ok, rest) \<Rightarrow>
          (if ok then
             (if 1 < length line
              then \<lparr>rq_command = line, rq_ip = go_split colon remote ! 0\<rparr> # session_read remote rest
              else session_read remote rest)
           else []))"
  by pat_completeness auto
termination
  by (relation "measure (\<lambda>(remote, s). length s)") (auto dest: read_line_shorter [OF sym])

declare session_read.simps [simp del]

lemma session_read_line:
  assumes "newline \<notin> set l"
  shows "session_read remote (l @ newline # rest) =
     (if l = [] then session_read remote rest
      else \<lparr>rq_command = l @ [newline], rq_ip = takeWhile (\<lambda>c. c \<noteq> colon) remote\<rparr>
             # session_read remote rest)"
  using assms by (subst session_read.simps) (simp add: read_line_newline go_split_nth_0)

lemma session_read_tail: "newline \<notin> set l \<Longrightarrow> session_read remote l = []"
  by (subst session_read.simps) (simp add: read_line_eof)

text \<open>
  \<open>bufio.Writer.WriteString\<close> with the default buffer of 4096 bytes: what does not fit is sent in
  whole buffers. \<open>Session.Write\<close> of kvstore and diskstorage never flushes.
\<close>

record bufwriter =
  bw_buf :: bytes
  bw_out :: bytes

function bw_writeString :: "bufwriter \<Rightarrow> bytes \<Rightarrow> bufwriter" where
  "bw_writeString b s =
     (let avail = 4096 - length (bw_buf b)
      in if avail < length s
         then bw_writeString \<lparr>bw_buf = [], bw_out = bw_out b @ bw_buf b @ take avail s\<rparr> (drop avail s)
         else b\<lparr>bw_buf := bw_buf b @ s\<rparr>)"
  by pat_completeness auto
termination
proof (relation "measure (\<lambda>(b, s). length s + length (bw_buf b))")
  fix b :: bufwriter and s :: bytes and x
  assume "x = 4096 - length (bw_buf b)" and "x < length s"
  then show "((\<lparr>bw_buf = [], bw_out = bw_out b @ bw_buf b @ take x s\<rparr>, drop x s), b, s)
      \<in> measure (\<lambda>(b, s). length s + length (bw_buf b))"
    by (cases "bw_buf b = []") auto
qed simp

declare bw_writeString.simps [simp del]

definition bw_flush :: "bufwriter \<Rightarrow> bufwriter" where
  "bw_flush b = \<lparr>bw_buf = [], bw_out = bw_out b @ bw_buf b\<rparr>"

definition session_write :: "bufwriter \<Rightarrow> string list \<Rightarrow> bufwriter" where
  "session_write b msgs = fold (\<lambda>data w. bw_writeString w data) msgs b"

lemma bw_writeString_keeps:
  "bw_out (bw_writeString b s) @ bw_buf (bw_writeString b s) = bw_out b @ bw_buf b @ s"
proof (induction b s rule: bw_writeString.induct)
  case (1 b s)
  show ?case
  proof (cases "4096 - length (bw_buf b) < length s")
    case True
    with "1.IH" [OF refl True] show ?thesis
      by (simp add: bw_writeString.simps [of b s] Let_def)
  next
    case False
    then show ?thesis by (simp add: bw_writeString.simps [of b s] Let_def)
  qed
qed

lemma bw_writeString_fits:
  "length (bw_buf b) + length s \<le> 4096 \<Longrightarrow> bw_writeString b s = b\<lparr>bw_buf := bw_buf b @ s\<rparr>"
  by (subst bw_writeString.simps) (simp add: Let_def)

section \<open>Propose\<close>

datatype raft_role = Follower | Candidate | Leader | Shutdown

text \<open>
  What \<open>raft.Apply\<close> makes of a message on the leader: an error of the future, or the entry
  committed at an index, whose response the state machine gives.
\<close>

datatype apply_future = Future_error go_error | Future_index "64 word"

text \<open>The surroundings of one call: Raft's state, the future, and the addresses \<open>net.Dial\<close> takes.\<close>

record propose_env =
  pe_role :: raft_role
  pe_future :: apply_future
  pe_dial :: "string \<Rightarrow> bool"

type_synonym datagram = "string \<times> string"

text \<open>
  \<open>SendUDP\<close>: the error of \<open>net.Dial\<close> is dropped, so after a failed one the connection is nil
  and the deferred \<open>Close\<close> panics.
\<close>

definition sendUDP :: "(string \<Rightarrow> bool) \<Rightarrow> string \<Rightarrow> string \<Rightarrow> datagram list outcome" where
  "sendUDP dial addr message =
     (if dial addr then Ret [(addr, message)] else Panic (Lib_error ''nil pointer dereference''))"

definition propose_reply :: "(string \<Rightarrow> bool) \<Rightarrow> string \<Rightarrow> string \<Rightarrow> datagram list outcome" where
  "propose_reply dial clientIP resp =
     (let response = go_split dash resp in
      outcome_bind (go_index response 0) (\<lambda>port.
      outcome_bind (go_index response 1) (\<lambda>v.
        sendUDP dial (go_join [] [clientIP, [colon], port]) (go_join [] [''OK: '', v, [newline]]))))"

text \<open>The type switch on the response of the state machine.\<close>

fun respond :: "(string \<Rightarrow> bool) \<Rightarrow> string \<Rightarrow> fsm_response \<Rightarrow> (datagram list \<times> go_error option) outcome" where
  "respond dial clientIP (Resp_string str) =
     outcome_bind (propose_reply dial clientIP str) (\<lambda>sent. Ret (sent, None))"
| "respond dial clientIP (Resp_error e) = Ret ([], Some (Errorf ''Unrecognized data response %q'' []))"
| "respond dial clientIP Resp_nil = Ret ([], Some (Errorf ''Unrecognized data response %q'' []))"

definition propose_with :: "('st \<Rightarrow> raft_log \<Rightarrow> 'st \<times> fsm_response outcome) \<Rightarrow> propose_env \<Rightarrow> 'st
    \<Rightarrow> bytes \<Rightarrow> string \<Rightarrow> 'st \<times> (datagram list \<times> go_error option) outcome" where
  "propose_with apply_entry E s msg clientIP =
     (if pe_role E \<noteq> Leader then (s, Ret ([], None))
      else (case pe_future E of
          Future_error e \<Rightarrow> (s, Ret ([], Some e))
        | Future_index i \<Rightarrow>
            (let (s', r) = apply_entry s \<lparr>log_index = i, log_data = msg\<rparr>
             in (s', outcome_bind r (respond (pe_dial E) clientIP)))))"

definition kv_propose :: "pb_codec \<Rightarrow> gz_lib \<Rightarrow> propose_env \<Rightarrow> kv_store \<Rightarrow> bytes \<Rightarrow> string
    \<Rightarrow> kv_store \<times> (datagram list \<times> go_error option) outcome" where
  "kv_propose P G = propose_with (kv_apply P G)"

definition disk_propose :: "pb_codec \<Rightarrow> nat \<Rightarrow> propose_env \<Rightarrow> disk_store \<Rightarrow> bytes \<Rightarrow> string
    \<Rightarrow> disk_store \<times> (datagram list \<times> go_error option) outcome" where
  "disk_propose P limit = propose_with (disk_apply P limit)"

section \<open>The server\<close>

text \<open>
  The channels are unbuffered and each session has its own reader, so what a session still has to
  hand over is a queue of its own; the writers of the sessions, the counter of the monitor, the
  store, and the datagrams and the error lines that left the process.
\<close>

record 'st server =
  sv_queues :: "request list list"
  sv_writers :: "bufwriter list"
  sv_req :: "64 word"
  sv_throughput :: "go_file option"
  sv_store :: 'st
  sv_sent :: "datagram list"
  sv_errors :: "bytes list"

text \<open>\<open>NewServer\<close>, on the throughput file that \<open>createFile\<close> gave.\<close>

definition newServer :: "'st \<Rightarrow> go_file option \<Rightarrow> 'st server" where
  "newServer st fd = \<lparr>sv_queues = [], sv_writers = [], sv_req = 0, sv_throughput = fd, sv_store = st,
                      sv_sent = [], sv_errors = []\<rparr>"

text \<open>\<open>HandleRequest\<close>: trim, propose, log an error, count.\<close>

definition handleRequest ::
  "(propose_env \<Rightarrow> 'st \<Rightarrow> bytes \<Rightarrow> string \<Rightarrow> 'st \<times> (datagram list \<times> go_error option) outcome)
    \<Rightarrow> propose_env \<Rightarrow> 'st server \<Rightarrow> request \<Rightarrow> 'st server \<times> unit outcome" where
  "handleRequest propose E sv cmd =
     (let data = trim_suffix [newline] (rq_command cmd);
          (st, r) = propose E (sv_store sv) data (rq_ip cmd);
          sv' = sv\<lparr>sv_store := st\<rparr>
      in (case r of
            Ret (sent, err) \<Rightarrow>
              (sv'\<lparr>sv_sent := sv_sent sv @ sent,
                   sv_errors := sv_errors sv @ (case err of None \<Rightarrow> [] | Some e \<Rightarrow> [data]),
                   sv_req := sv_req sv + 1\<rparr>, Ret ())
          | Panic e \<Rightarrow> (sv', Panic e) | Fatal e \<Rightarrow> (sv', Fatal e) | Blocked \<Rightarrow> (sv', Blocked)))"

text \<open>\<open>Join\<close> with the session it makes, \<open>Broadcast\<close>, and one tick of \<open>monitor\<close>.\<close>

definition server_join :: "'st server \<Rightarrow> string \<Rightarrow> bytes \<Rightarrow> 'st server" where
  "server_join sv remote stream =
     sv\<lparr>sv_queues := sv_queues sv @ [session_read remote stream],
        sv_writers := sv_writers sv @ [\<lparr>bw_buf = [], bw_out = []\<rparr>]\<rparr>"

definition server_broadcast :: "'st server \<Rightarrow> string \<Rightarrow> 'st server" where
  "server_broadcast sv data = sv\<lparr>sv_writers := map (\<lambda>w. session_write w [data]) (sv_writers sv)\<rparr>"

definition server_tick :: "'st server \<Rightarrow> 'st server" where
  "server_tick sv = sv\<lparr>sv_req := 0,
     sv_throughput := fst (fd_write (sv_throughput sv) (format_uint (sv_req sv) @ [newline]))\<rparr>"

text \<open>
  The select of \<open>Listen\<close> and the monitor's, as events: a connection joins, the first request of
  a session's queue is handled, the monitor ticks. An event carries what a reader outside sees.
\<close>

datatype sv_event =
    Ev_join string bytes
  | Ev_request nat request propose_env
  | Ev_tick "64 word"

inductive server_step ::
  "(propose_env \<Rightarrow> 'st \<Rightarrow> bytes \<Rightarrow> string \<Rightarrow> 'st \<times> (datagram list \<times> go_error option) outcome)
    \<Rightarrow> 'st server \<Rightarrow> sv_event \<Rightarrow> 'st server \<Rightarrow> bool"
  for propose where
  step_join: "server_step propose sv (Ev_join remote stream) (server_join sv remote stream)"
| step_request:
    "i < length (sv_queues sv) \<Longrightarrow> sv_queues sv ! i = rq # rqs \<Longrightarrow>
     handleRequest propose E (sv\<lparr>sv_queues := (sv_queues sv)[i := rqs]\<rparr>) rq = (sv', Ret ()) \<Longrightarrow>
     server_step propose sv (Ev_request i rq E) sv'"
| step_tick: "server_step propose sv (Ev_tick (sv_req sv)) (server_tick sv)"

inductive server_run ::
  "(propose_env \<Rightarrow> 'st \<Rightarrow> bytes \<Rightarrow> string \<Rightarrow> 'st \<times> (datagram list \<times> go_error option) outcome)
    \<Rightarrow> 'st server \<Rightarrow> sv_event list \<Rightarrow> 'st server \<Rightarrow> bool"
  for propose where
  run_nil: "server_run propose sv [] sv"
| run_snoc: "server_run propose sv evs sv' \<Longrightarrow> server_step propose sv' ev sv'' \<Longrightarrow>
     server_run propose sv (evs @ [ev]) sv''"

inductive_cases server_step_cases [elim]: "server_step propose sv ev sv'"
inductive_simps server_step_join: "server_step propose sv (Ev_join remote stream) sv'"
inductive_simps server_step_tick: "server_step propose sv (Ev_tick n) sv'"

text \<open>What a trace shows: the requests handled, those of one session, and the counts written.\<close>

definition requests :: "sv_event list \<Rightarrow> request list" where
  "requests evs = concat (map (\<lambda>ev. case ev of Ev_request i rq E \<Rightarrow> [rq] | _ \<Rightarrow> []) evs)"

definition handled_by :: "nat \<Rightarrow> sv_event list \<Rightarrow> request list" where
  "handled_by i evs =
     concat (map (\<lambda>ev. case ev of Ev_request j rq E \<Rightarrow> if j = i then [rq] else [] | _ \<Rightarrow> []) evs)"

definition ticks :: "sv_event list \<Rightarrow> 64 word list" where
  "ticks evs = concat (map (\<lambda>ev. case ev of Ev_tick n \<Rightarrow> [n] | _ \<Rightarrow> []) evs)"

section \<open>The interface to the store\<close>

text \<open>
  What a server relies on: a replica that does not lead, or whose future fails, leaves its store
  alone; one that leads does what its state machine does with the entry; and what is sent goes to
  the host the request came from.
\<close>

locale proposer =
  fixes propose :: "propose_env \<Rightarrow> 'st \<Rightarrow> bytes \<Rightarrow> string
          \<Rightarrow> 'st \<times> (datagram list \<times> go_error option) outcome"
    and apply_entry :: "'st \<Rightarrow> raft_log \<Rightarrow> 'st \<times> fsm_response outcome"
  assumes not_leader: "pe_role E \<noteq> Leader \<Longrightarrow> propose E s msg ip = (s, Ret ([], None))"
    and future_error: "pe_role E = Leader \<Longrightarrow> pe_future E = Future_error e \<Longrightarrow>
          propose E s msg ip = (s, Ret ([], Some e))"
    and committed: "pe_role E = Leader \<Longrightarrow> pe_future E = Future_index i \<Longrightarrow>
          fst (propose E s msg ip) = fst (apply_entry s \<lparr>log_index = i, log_data = msg\<rparr>)"
    and committed_ret: "pe_role E = Leader \<Longrightarrow> pe_future E = Future_index i \<Longrightarrow>
          snd (propose E s msg ip) = Ret x \<Longrightarrow>
          \<exists>r. snd (apply_entry s \<lparr>log_index = i, log_data = msg\<rparr>) = Ret r"
    and sent_host: "snd (propose E s msg ip) = Ret (sent, err) \<Longrightarrow> (addr, m) \<in> set sent \<Longrightarrow>
          \<exists>port. addr = ip @ colon # port"
begin

lemma handle_follower:
  "pe_role E \<noteq> Leader \<Longrightarrow>
     handleRequest propose E sv rq = (sv\<lparr>sv_req := sv_req sv + 1\<rparr>, Ret ())"
  by (simp add: handleRequest_def not_leader)

lemma handle_fields:
  assumes "handleRequest propose E sv rq = (sv', Ret ())"
  shows "sv_queues sv' = sv_queues sv" and "sv_req sv' = sv_req sv + 1"
    and "sv_throughput sv' = sv_throughput sv"
  using assms by (auto simp: handleRequest_def Let_def split: prod.splits outcome.splits)

text \<open>The entries that a trace committed, in the order of the requests.\<close>

definition committed_of :: "sv_event \<Rightarrow> raft_log list" where
  "committed_of ev = (case ev of
       Ev_request i rq E \<Rightarrow>
         (if pe_role E = Leader then
            (case pe_future E of Future_error e \<Rightarrow> []
             | Future_index n \<Rightarrow> [\<lparr>log_index = n, log_data = trim_suffix [newline] (rq_command rq)\<rparr>])
          else [])
     | _ \<Rightarrow> [])"

lemma handle_store:
  assumes "handleRequest propose E sv rq = (sv', Ret u)"
  shows "sv_store sv' = fst (propose E (sv_store sv) (trim_suffix [newline] (rq_command rq)) (rq_ip rq))"
    and "\<exists>x. snd (propose E (sv_store sv) (trim_suffix [newline] (rq_command rq)) (rq_ip rq)) = Ret x"
  using assms by (auto simp: handleRequest_def Let_def split: prod.splits outcome.splits)

lemma step_store:
  "server_step propose sv ev sv' \<Longrightarrow>
     sv_store sv' = run_state apply_entry (sv_store sv) (committed_of ev) \<and>
     \<not> run_crashed apply_entry (sv_store sv) (committed_of ev)"
proof (induction rule: server_step.induct)
  case (step_request i sv rq rqs E sv')
  note h = handle_store [OF step_request.hyps(3)]
  show ?case
  proof (cases "pe_role E = Leader")
    case False
    with h(1) show ?thesis by (simp add: not_leader committed_of_def)
  next
    case True
    show ?thesis
    proof (cases "pe_future E")
      case (Future_error e)
      with True h(1) show ?thesis by (simp add: committed_of_def future_error)
    next
      case (Future_index n)
      let ?e = "\<lparr>log_index = n, log_data = trim_suffix [newline] (rq_command rq)\<rparr>"
      obtain r where "snd (apply_entry (sv_store sv) ?e) = Ret r"
        using committed_ret [OF True Future_index] h(2) by fastforce
      with True Future_index h(1) show ?thesis
        using fsm_run_Cons_Ret [of apply_entry "sv_store sv" ?e "sv_store sv'" r "[]"]
          committed [OF True Future_index, of "sv_store sv"]
        by (cases "apply_entry (sv_store sv) ?e") (simp add: committed_of_def)
    qed
  qed
qed (simp_all add: server_join_def server_tick_def committed_of_def)

text \<open>The store of a server is its state machine run over the entries it committed.\<close>

lemma run_store:
  "server_run propose sv evs sv' \<Longrightarrow>
     sv_store sv' = run_state apply_entry (sv_store sv) (concat (map committed_of evs)) \<and>
     \<not> run_crashed apply_entry (sv_store sv) (concat (map committed_of evs))"
proof (induction rule: server_run.induct)
  case (run_nil sv)
  then show ?case by simp
next
  case (run_snoc sv evs sv' ev sv'')
  with step_store [OF run_snoc.hyps(2)] show ?case
    by (simp add: fsm_run_append split_beta Let_def)
qed

text \<open>The requests handled for a session, in order, and the counts the monitor wrote.\<close>

lemma step_queue:
  "server_step propose sv ev sv' \<Longrightarrow> i < length (sv_queues sv) \<Longrightarrow>
     i < length (sv_queues sv') \<and>
     sv_queues sv ! i = (case ev of Ev_request j rq E \<Rightarrow> if j = i then [rq] else [] | _ \<Rightarrow> [])
                          @ sv_queues sv' ! i"
proof (induction rule: server_step.induct)
  case (step_request j sv rq rqs E sv')
  then show ?case using handle_fields [OF step_request.hyps(3)] by (auto simp: nth_list_update)
qed (simp_all add: server_join_def server_tick_def nth_append)

lemma run_queue:
  "server_run propose sv evs sv' \<Longrightarrow> i < length (sv_queues sv) \<Longrightarrow>
     i < length (sv_queues sv') \<and> sv_queues sv ! i = handled_by i evs @ sv_queues sv' ! i"
proof (induction rule: server_run.induct)
  case (run_snoc sv evs sv' ev sv'')
  with step_queue [OF run_snoc.hyps(2), of i] show ?case
    by (auto simp: handled_by_def split: sv_event.splits if_splits)
qed (simp add: handled_by_def)

lemma step_req:
  "server_step propose sv ev sv' \<Longrightarrow>
     sv_req sv' + (case ev of Ev_tick n \<Rightarrow> n | _ \<Rightarrow> 0) =
       sv_req sv + (case ev of Ev_request j rq E \<Rightarrow> 1 | _ \<Rightarrow> 0)"
proof (induction rule: server_step.induct)
  case (step_request j sv rq rqs E sv')
  then show ?case using handle_fields [OF step_request.hyps(3)] by simp
qed (simp_all add: server_join_def server_tick_def)

lemma run_req:
  "server_run propose sv evs sv' \<Longrightarrow>
     sv_req sv' + sum_list (ticks evs) = sv_req sv + word_of_nat (length (requests evs))"
proof (induction rule: server_run.induct)
  case (run_snoc sv evs sv' ev sv'')
  note st = step_req [OF run_snoc.hyps(2)]
  show ?case
  proof (cases ev)
    case (Ev_tick n)
    with st have "sv_req sv' = sv_req sv'' + n" by simp
    with run_snoc.IH Ev_tick show ?thesis by (simp add: ticks_def requests_def algebra_simps)
  next
    case (Ev_request j rq E)
    with st run_snoc.IH show ?thesis by (simp add: ticks_def requests_def algebra_simps)
  qed (use st run_snoc.IH in \<open>simp add: ticks_def requests_def\<close>)
qed (simp add: ticks_def requests_def)

end

lemma propose_reply_host:
  "propose_reply dial ip resp = Ret sent \<Longrightarrow> (addr, m) \<in> set sent \<Longrightarrow> \<exists>port. addr = ip @ colon # port"
  by (auto simp: propose_reply_def sendUDP_def Let_def split: if_splits)

lemma respond_host:
  "respond dial ip resp = Ret (sent, err) \<Longrightarrow> (addr, m) \<in> set sent \<Longrightarrow> \<exists>port. addr = ip @ colon # port"
  by (cases resp) (auto dest: propose_reply_host)

lemma propose_with_proposer: "proposer (propose_with f) f"
proof unfold_locales
  fix E s msg ip sent err addr m
  assume "snd (propose_with f E s msg ip) = Ret (sent, err)" and "(addr, m) \<in> set sent"
  then show "\<exists>port. addr = ip @ colon # port"
    by (auto simp: propose_with_def split_beta dest: respond_host
        split: if_splits apply_future.splits)
next
  fix E :: propose_env and i s msg ip x
  assume "pe_role E = Leader" "pe_future E = Future_index i" "snd (propose_with f E s msg ip) = Ret x"
  then show "\<exists>r. snd (f s \<lparr>log_index = i, log_data = msg\<rparr>) = Ret r"
    by (auto simp: propose_with_def split_beta)
qed (simp_all add: propose_with_def split_beta)

interpretation kv_server: proposer "kv_propose P G" "kv_apply P G"
  for P :: pb_codec and G :: gz_lib
  unfolding kv_propose_def by (rule propose_with_proposer)

interpretation disk_server: proposer "disk_propose P limit" "disk_apply P limit"
  for P :: pb_codec and limit :: nat
  unfolding disk_propose_def by (rule propose_with_proposer)

section \<open>Legacy text requests\<close>

definition validateReq :: "(string \<Rightarrow> string) \<Rightarrow> string \<Rightarrow> bool outcome" where
  "validateReq u requisition =
     (let splited = go_split dash (to_lower u requisition) in
      outcome_bind (go_index splited 1) (\<lambda>w.
        if w = ''set'' then Ret (3 \<le> length splited)
        else if w = ''get'' \<or> w = ''delete'' then Ret (2 \<le> length splited)
        else Ret False))"

section \<open>Properties\<close>

lemma propose_reply_value:
  assumes "dash \<notin> set ip" and "dial (clientIP @ colon # ip)"
  shows "propose_reply dial clientIP (ip @ dash # v) =
    Ret [(clientIP @ colon # ip, ''OK: '' @ takeWhile (\<lambda>c. c \<noteq> dash) v @ [newline])]"
proof -
  have s: "go_split dash (ip @ dash # v) = ip # go_split dash v" using assms(1) by (rule go_split_append)
  show ?thesis
    using assms(2) by (simp add: propose_reply_def s go_split_nth_0 sendUDP_def)
qed

lemma kv_propose_reply:
  assumes "kv_inv s" and "pe_role E = Leader" and "pe_future E = Future_index i"
    and "pb_unmarshal P msg = Inr c"
    and "kv_spec (kv_view s) (cmd_op c) (cmd_key c) (cmd_value c) = (m', Some v)"
    and "dash \<notin> set (cmd_ip c)" and "pe_dial E (clientIP @ colon # cmd_ip c)"
  shows "snd (kv_propose P G E s msg clientIP) =
    Ret ([(clientIP @ colon # cmd_ip c, ''OK: '' @ takeWhile (\<lambda>ch. ch \<noteq> dash) v @ [newline])], None)"
proof -
  have "snd (kv_apply P G s \<lparr>log_index = i, log_data = msg\<rparr>) = Ret (Resp_string (cmd_ip c @ dash # v))"
    using kv_apply_response [OF assms(1), of P G] assms(4,5) by (simp add: kv_result_def)
  moreover have "respond (pe_dial E) clientIP (Resp_string (cmd_ip c @ dash # v)) =
      Ret ([(clientIP @ colon # cmd_ip c, ''OK: '' @ takeWhile (\<lambda>ch. ch \<noteq> dash) v @ [newline])], None)"
    using propose_reply_value [of "cmd_ip c" "pe_dial E" clientIP v] assms(6,7) by (simp del: append.simps)
  ultimately show ?thesis
    using assms(2,3) by (simp add: kv_propose_def propose_with_def split_beta del: respond.simps)
qed

text \<open>C19: what a client is told. When the leader commits a SET or a GET at some index, it sends one
  datagram, to the port that the command carries on the host the request came from, with the answer
  of the abstract store cut at the first dash it contains; nothing else is reported.\<close>

theorem propose_replies:
  assumes "kv_inv s" and "pe_role E = Leader" and "pe_future E = Future_index i"
    and "pb_unmarshal P msg = Inr c"
    and "kv_spec (kv_view s) (cmd_op c) (cmd_key c) (cmd_value c) = (m', Some v)"
    and "dash \<notin> set (cmd_ip c)" and "pe_dial E (clientIP @ colon # cmd_ip c)"
  shows "snd (kv_propose P G E s msg clientIP) =
    Ret ([(clientIP @ colon # cmd_ip c, ''OK: '' @ takeWhile (\<lambda>ch. ch \<noteq> dash) v @ [newline])], None)"
  using assms by (rule kv_propose_reply)

text \<open>The value \<open>2024-05-01\<close> is stored and read back as \<open>2024\<close>.\<close>

lemma propose_replies_witness:
  "snd (kv_propose sample_codec sample_gz \<lparr>pe_role = Leader, pe_future = Future_index 5, pe_dial = \<lambda>_. True\<rparr>
      (demo_store\<lparr>kv_m := [''k'' \<mapsto> Own ''2024-05-01'']\<rparr>) (log_data (sample_entry Command_GET ''k'' [])) ''10.0.0.7'') =
   Ret ([(''10.0.0.7:15000'', ''OK: 2024'' @ [newline])], None)"
proof -
  let ?s = "demo_store\<lparr>kv_m := [''k'' \<mapsto> Own ''2024-05-01'']\<rparr>"
  have i: "kv_inv ?s" by (auto simp: kv_inv_def demo_store_def)
  have v: "kv_spec (kv_view ?s) Command_GET ''k'' [] = (kv_view ?s, Some ''2024-05-01'')"
    by (simp add: kv_view_def)
  show ?thesis
    using propose_replies [OF i _ _ sample_entry_decodes [of "''k''" "[]" Command_GET], where i = 5 and E = "\<lparr>pe_role = Leader, pe_future = Future_index 5, pe_dial = \<lambda>_. True\<rparr>"] v
    by simp
qed

text \<open>Whatever sessions join and in whatever order their requests are taken, the map of a kvstore
  server that is still running is its map at the start with the SET commands among the requests it
  committed as a leader applied in the order they were handled; a replica that does not lead, or
  whose proposals fail, changes nothing.\<close>

lemma server_map:
  assumes "server_run (kv_propose P G) (newServer st fd) evs sv" and "kv_inv st"
  shows "kv_view (sv_store sv) =
    fold install_cmd (stamped P (concat (map kv_server.committed_of evs))) (kv_view st)"
  using kv_server.run_store [OF assms(1)] kv_run_replay [OF assms(2)] by (simp add: newServer_def)

definition demo_env :: propose_env where
  "demo_env = \<lparr>pe_role = Leader, pe_future = Future_index 1, pe_dial = \<lambda>_. True\<rparr>"

definition demo_request :: request where
  "demo_request = \<lparr>rq_command = log_data (sample_entry Command_SET ''k'' ''v'') @ [newline], rq_ip = ''10.0.0.7''\<rparr>"

definition demo_events :: "sv_event list" where
  "demo_events = [Ev_join ''10.0.0.7:4000'' (rq_command demo_request), Ev_request 0 demo_request demo_env, Ev_tick 1]"

lemma demo_session: "session_read ''10.0.0.7:4000'' (rq_command demo_request) = [demo_request]"
proof -
  have nn: "newline \<notin> set (log_data (sample_entry Command_SET ''k'' ''v''))"
    "log_data (sample_entry Command_SET ''k'' ''v'') \<noteq> []"
    by (simp_all add: sample_entry_def sample_codec_def sample_marshal_def sample_str_def be32_def Let_def)
  show ?thesis
    using session_read_line [OF nn(1), of "''10.0.0.7:4000''" "[]"] nn(2) session_read_tail [of "[]"]
    by (simp add: demo_request_def)
qed

lemma demo_step:
  "\<exists>sv. server_step (kv_propose sample_codec sample_gz)
     (server_join (newServer demo_store None) ''10.0.0.7:4000'' (rq_command demo_request))
     (Ev_request 0 demo_request demo_env) sv \<and> sv_req sv = 1"
proof -
  let ?p = "kv_propose sample_codec sample_gz"
  let ?sv1 = "server_join (newServer demo_store None) ''10.0.0.7:4000'' (rq_command demo_request)"
  let ?sv2 = "?sv1\<lparr>sv_queues := (sv_queues ?sv1)[0 := []]\<rparr>"
  have q: "sv_queues ?sv1 = [[demo_request]]" by (simp add: server_join_def newServer_def demo_session)
  have "snd (?p demo_env demo_store (log_data (sample_entry Command_SET ''k'' ''v'')) ''10.0.0.7'') =
      Ret ([(''10.0.0.7'' @ colon # ''15000'', ''OK: '' @ takeWhile (\<lambda>ch. ch \<noteq> dash) [] @ [newline])], None)"
    using kv_propose_reply [OF demo_store_inv _ _ sample_entry_decodes [of "''k''" "''v''" Command_SET],
        where i = 1 and E = demo_env] by (simp add: demo_env_def)
  then obtain sv3 where h: "handleRequest ?p demo_env ?sv2 demo_request = (sv3, Ret ())"
    by (cases "?p demo_env demo_store (log_data (sample_entry Command_SET ''k'' ''v'')) ''10.0.0.7''")
       (simp add: handleRequest_def demo_request_def server_join_def newServer_def)
  have "server_step ?p ?sv1 (Ev_request 0 demo_request demo_env) sv3"
    by (rule step_request [where rqs = "[]", OF _ _ h]) (simp_all add: q)
  moreover have "sv_req sv3 = 1"
    using kv_server.handle_fields(2) [OF h] by (simp add: server_join_def newServer_def)
  ultimately show ?thesis by blast
qed

lemma demo_server_run:
  "\<exists>sv. server_run (kv_propose sample_codec sample_gz) (newServer demo_store None) demo_events sv"
proof -
  let ?p = "kv_propose sample_codec sample_gz" and ?stream = "rq_command demo_request"
  obtain sv where s: "server_step ?p (server_join (newServer demo_store None) ''10.0.0.7:4000'' ?stream)
      (Ev_request 0 demo_request demo_env) sv" and n: "sv_req sv = 1" using demo_step by blast
  have "server_step ?p sv (Ev_tick 1) (server_tick sv)" using step_tick [of ?p sv] n by simp
  from run_snoc [OF run_snoc [OF run_snoc [OF run_nil step_join] s] this] show ?thesis
    by (auto simp: demo_events_def)
qed

text \<open>Requests of one connection are handled in the order they were sent, none twice and none
  skipped: in every run after a client joins, the requests handled for its session are a prefix of
  the requests that its bytes hold.\<close>

lemma session_order:
  assumes "server_run (kv_propose P G) (server_join sv remote stream) evs sv'"
  shows "prefix (handled_by (length (sv_queues sv)) evs) (session_read remote stream)"
  using kv_server.run_queue [OF assms, of "length (sv_queues sv)"]
  by (simp add: server_join_def prefix_def)

text \<open>The throughput monitor loses no request: at any moment the counts written so far and the
  counter add up, in 64 bits, to the number of requests handled.\<close>

lemma throughput_accounts:
  assumes "server_run (kv_propose P G) (newServer st fd) evs sv"
  shows "sum_list (ticks evs) + sv_req sv = word_of_nat (length (requests evs))"
  using kv_server.run_req [OF assms] by (simp add: newServer_def add.commute)

text \<open>\<open>Session.Write\<close> never flushes its writer: as long as the messages broadcast to a client make
  up no more than 4096 bytes together, not one byte of them is sent.\<close>

lemma session_write_buffers:
  assumes "length (concat msgs) \<le> 4096"
  shows "bw_out (session_write \<lparr>bw_buf = [], bw_out = []\<rparr> msgs) = []"
proof -
  have "length (bw_buf b) + length (concat msgs) \<le> 4096 \<Longrightarrow> bw_out (session_write b msgs) = bw_out b" for b
    unfolding session_write_def
    by (induction msgs arbitrary: b) (simp_all add: bw_writeString_fits)
  from this [of "\<lparr>bw_buf = [], bw_out = []\<rparr>"] assms show ?thesis by simp
qed

end
