(* ===== verification/Membership.thy ===== *)
theory Membership
  imports Go_IO
begin

text \<open>
  Cluster membership, the same code in kvstore, diskstorage and chatRoom: \<open>JoinRaft\<close> over the
  membership calls of Raft, the join listener that parses a request and calls it, and the requests
  that a new replica or logger sends. Raft itself is the parameter \<open>raft_api\<close>.
\<close>

section \<open>Raft's membership calls\<close>

text \<open>\<open>raft.Server\<close>: identifier, address, and whether it votes.\<close>

record raft_server =
  srv_id :: string
  srv_addr :: string
  srv_voter :: bool

record 'r raft_api =
  api_getConfiguration :: "'r \<Rightarrow> go_error + raft_server list"
  api_removeServer :: "string \<Rightarrow> 'r \<Rightarrow> 'r \<times> go_error option"
  api_addVoter :: "string \<Rightarrow> string \<Rightarrow> 'r \<Rightarrow> 'r \<times> go_error option"
  api_addNonvoter :: "string \<Rightarrow> string \<Rightarrow> 'r \<Rightarrow> 'r \<times> go_error option"

text \<open>
  What Raft documents of the calls that succeed, for a configuration \<open>cfg r\<close>: removing takes out
  the servers with the identifier, adding a server whose identifier is not there appends it.
\<close>

definition api_laws :: "'r raft_api \<Rightarrow> ('r \<Rightarrow> raft_server list) \<Rightarrow> bool" where
  "api_laws A cfg \<longleftrightarrow>
     (\<forall>r ss. api_getConfiguration A r = Inr ss \<longrightarrow> ss = cfg r)
     \<and> (\<forall>r r' i. api_removeServer A i r = (r', None) \<longrightarrow>
          cfg r' = filter (\<lambda>s. srv_id s \<noteq> i) (cfg r))
     \<and> (\<forall>r r' i a. api_addVoter A i a r = (r', None) \<longrightarrow> i \<notin> srv_id ` set (cfg r) \<longrightarrow>
          cfg r' = cfg r @ [\<lparr>srv_id = i, srv_addr = a, srv_voter = True\<rparr>])
     \<and> (\<forall>r r' i a. api_addNonvoter A i a r = (r', None) \<longrightarrow> i \<notin> srv_id ` set (cfg r) \<longrightarrow>
          cfg r' = cfg r @ [\<lparr>srv_id = i, srv_addr = a, srv_voter = False\<rparr>])"

section \<open>JoinRaft\<close>

text \<open>The loop over the servers: whether it ran to its end, or what it returned.\<close>

datatype join_step = Join_continue | Join_return "go_error option"

fun join_loop :: "'r raft_api \<Rightarrow> string \<Rightarrow> string \<Rightarrow> raft_server list \<Rightarrow> 'r \<Rightarrow> 'r \<times> join_step" where
  "join_loop A nodeID addr [] r = (r, Join_continue)"
| "join_loop A nodeID addr (rep # reps) r =
     (if srv_id rep = nodeID \<or> srv_addr rep = addr then
        (if srv_addr rep = addr \<and> srv_id rep = nodeID then (r, Join_return None)
         else (case api_removeServer A (srv_id rep) r of
                 (r', Some e) \<Rightarrow> (r', Join_return (Some
                    (Errorf ''error removing existing node %s at %s: %s'' [nodeID, addr])))
               | (r', None) \<Rightarrow> join_loop A nodeID addr reps r'))
      else join_loop A nodeID addr reps r)"

definition joinRaft :: "'r raft_api \<Rightarrow> string \<Rightarrow> string \<Rightarrow> bool \<Rightarrow> 'r \<Rightarrow> 'r \<times> go_error option" where
  "joinRaft A nodeID addr voter r =
     (case api_getConfiguration A r of
        Inl e \<Rightarrow> (r, Some e)
      | Inr servers \<Rightarrow>
          (case join_loop A nodeID addr servers r of
             (r', Join_return e) \<Rightarrow> (r', e)
           | (r', Join_continue) \<Rightarrow>
               (if voter then api_addVoter A nodeID addr r' else api_addNonvoter A nodeID addr r')))"

text \<open>A configuration as Raft keeps it: no identifier and no address twice.\<close>

definition cfg_wf :: "raft_server list \<Rightarrow> bool" where
  "cfg_wf ss \<longleftrightarrow> distinct (map srv_id ss) \<and> distinct (map srv_addr ss)"

definition others :: "string \<Rightarrow> string \<Rightarrow> raft_server list \<Rightarrow> raft_server list" where
  "others nodeID addr ss = filter (\<lambda>s. srv_id s \<noteq> nodeID \<and> srv_addr s \<noteq> addr) ss"

definition member_of :: "string \<Rightarrow> string \<Rightarrow> raft_server list \<Rightarrow> bool" where
  "member_of nodeID addr ss \<longleftrightarrow> (\<exists>s \<in> set ss. srv_id s = nodeID \<and> srv_addr s = addr)"

lemma cfg_wf_id: "cfg_wf ss \<Longrightarrow> s \<in> set ss \<Longrightarrow> t \<in> set ss \<Longrightarrow> srv_id s = srv_id t \<Longrightarrow> s = t"
  by (auto simp: cfg_wf_def distinct_map inj_on_def)

lemma cfg_wf_addr: "cfg_wf ss \<Longrightarrow> s \<in> set ss \<Longrightarrow> t \<in> set ss \<Longrightarrow> srv_addr s = srv_addr t \<Longrightarrow> s = t"
  by (auto simp: cfg_wf_def distinct_map inj_on_def)

lemma cfg_wf_filter: "cfg_wf ss \<Longrightarrow> cfg_wf (filter p ss)"
  by (auto simp: cfg_wf_def distinct_map_filter)

lemma cfg_wf_others_snoc:
  "cfg_wf ss \<Longrightarrow> cfg_wf (others nodeID addr ss @ [\<lparr>srv_id = nodeID, srv_addr = addr, srv_voter = v\<rparr>])"
  using cfg_wf_filter [of ss] by (auto simp: cfg_wf_def others_def)

text \<open>
  The loop on a configuration that has no server with both: when it runs to its end, the servers
  it saw that share the identifier or the address are gone and no other is.
\<close>

lemma join_loop_removes:
  assumes laws: "api_laws A cfg" and wf: "cfg_wf (cfg r0)"
  shows "join_loop A nodeID addr reps r = (r', Join_continue) \<Longrightarrow> set reps \<subseteq> set (cfg r0) \<Longrightarrow>
     cfg r = filter p (cfg r0) \<Longrightarrow>
     cfg r' = filter (\<lambda>s. p s \<and> (s \<in> set reps \<longrightarrow> srv_id s \<noteq> nodeID \<and> srv_addr s \<noteq> addr)) (cfg r0)"
proof (induction reps arbitrary: r p)
  case Nil
  then show ?case by simp
next
  case (Cons rep reps)
  show ?case
  proof (cases "srv_id rep = nodeID \<or> srv_addr rep = addr")
    case False
    with Cons.prems Cons.IH [of r p] show ?thesis
      by (auto intro!: filter_cong)
  next
    case True
    with Cons.prems(1) have nb: "\<not> (srv_addr rep = addr \<and> srv_id rep = nodeID)"
      by (auto split: if_splits)
    obtain r1 where rm: "api_removeServer A (srv_id rep) r = (r1, None)"
      and rest: "join_loop A nodeID addr reps r1 = (r', Join_continue)"
      using Cons.prems(1) True nb by (auto split: if_splits prod.splits option.splits)
    have c1: "cfg r1 = filter (\<lambda>s. p s \<and> srv_id s \<noteq> srv_id rep) (cfg r0)"
      using laws rm Cons.prems(3) by (simp add: api_laws_def conj_commute)
    have "srv_id s \<noteq> srv_id rep \<longleftrightarrow> s \<noteq> rep" if "s \<in> set (cfg r0)" for s
      using cfg_wf_id [OF wf that, of rep] Cons.prems(2) by auto
    with Cons.IH [OF rest _ c1] Cons.prems(2) True show ?thesis
      by (auto intro!: filter_cong)
  qed
qed

lemma join_loop_return_None:
  "join_loop A nodeID addr reps r = (r', Join_return None) \<Longrightarrow> member_of nodeID addr reps"
proof (induction reps arbitrary: r)
  case Nil
  then show ?case by simp
next
  case (Cons rep reps)
  then show ?case
    by (auto simp: member_of_def split: if_splits prod.splits option.splits)
qed

text \<open>A server with the identifier and the address is the only one that shares either.\<close>

lemma join_loop_member:
  assumes "cfg_wf ss" and "member_of nodeID addr ss" and "set reps \<subseteq> set ss"
  shows "join_loop A nodeID addr reps r =
           (r, if member_of nodeID addr reps then Join_return None else Join_continue)"
  using assms(3)
proof (induction reps)
  case Nil
  then show ?case by (simp add: member_of_def)
next
  case (Cons rep reps)
  obtain m where m: "m \<in> set ss" "srv_id m = nodeID" "srv_addr m = addr"
    using assms(2) by (auto simp: member_of_def)
  have "srv_id rep = nodeID \<or> srv_addr rep = addr \<longleftrightarrow> srv_addr rep = addr \<and> srv_id rep = nodeID"
    using cfg_wf_id [OF assms(1) _ m(1), of rep] cfg_wf_addr [OF assms(1) _ m(1), of rep] m(2,3)
      Cons.prems by auto
  with Cons show ?case by (auto simp: member_of_def)
qed

section \<open>Join requests\<close>

text \<open>
  \<open>ListenRaftJoins\<close> on one connection: the line is split, fewer than three parts end the
  process, the third part without its newline is the voter flag (false when it is no boolean).
\<close>

definition parse_join_request :: "string \<Rightarrow> (string \<times> string \<times> bool) outcome" where
  "parse_join_request request =
     (let data = go_split dash request
      in if length data < 3 then Fatal (Errorf ''incorrect join request, got: %s'' data)
         else Ret (data ! 0, data ! 1, parse_bool (trim_suffix [newline] (data ! 2))))"

definition handle_join :: "'r raft_api \<Rightarrow> string \<Rightarrow> 'r \<Rightarrow> 'r \<times> unit outcome" where
  "handle_join A request r =
     (case parse_join_request request of
        Ret (nodeID, addr, voter) \<Rightarrow>
          (case joinRaft A nodeID addr voter r of
             (r', None) \<Rightarrow> (r', Ret ())
           | (r', Some e) \<Rightarrow> (r', Fatal (Errorf ''failed to join node at %s: %s'' [addr])))
      | Panic e \<Rightarrow> (r, Panic e) | Fatal e \<Rightarrow> (r, Fatal e) | Blocked \<Rightarrow> (r, Blocked))"

text \<open>The accept loop: one request after the other.\<close>

fun listen_joins :: "'r raft_api \<Rightarrow> string list \<Rightarrow> 'r \<Rightarrow> 'r \<times> unit outcome" where
  "listen_joins A [] r = (r, Ret ())"
| "listen_joins A (req # reqs) r =
     (case handle_join A req r of
        (r', Ret u) \<Rightarrow> listen_joins A reqs r'
      | (r', p) \<Rightarrow> (r', p))"

text \<open>The request of a replica (\<open>kvstore/main.go\<close>) and of a logger (\<open>logger/main.go\<close>).\<close>

definition join_request :: "string \<Rightarrow> string \<Rightarrow> string" where
  "join_request svrID raftAddr = svrID @ ''-'' @ raftAddr @ ''-'' @ ''true'' @ [newline]"

definition logger_join_request :: "string \<Rightarrow> string \<Rightarrow> string" where
  "logger_join_request logID raftAddr = logID @ ''-'' @ raftAddr @ ''-'' @ ''false'' @ [newline]"

lemma parse_join_line:
  assumes "dash \<notin> set i" and "dash \<notin> set a" and "dash \<notin> set v"
  shows "parse_join_request (i @ dash # a @ dash # v @ [newline]) = Ret (i, a, parse_bool v)"
proof -
  have "go_split dash (i @ dash # a @ dash # v @ [newline]) = [i, a, v @ [newline]]"
    using assms by (simp add: go_string)
  then show ?thesis by (simp add: parse_join_request_def)
qed

section \<open>A concrete cluster\<close>

text \<open>The state is the configuration itself; every call succeeds.\<close>

definition list_api :: "raft_server list raft_api" where
  "list_api = \<lparr>api_getConfiguration = Inr,
     api_removeServer = (\<lambda>i ss. (filter (\<lambda>s. srv_id s \<noteq> i) ss, None)),
     api_addVoter = (\<lambda>i a ss. (ss @ [\<lparr>srv_id = i, srv_addr = a, srv_voter = True\<rparr>], None)),
     api_addNonvoter = (\<lambda>i a ss. (ss @ [\<lparr>srv_id = i, srv_addr = a, srv_voter = False\<rparr>], None))\<rparr>"

lemma list_api_laws: "api_laws list_api id"
  by (auto simp: api_laws_def list_api_def)

section \<open>Starting a node\<close>

text \<open>
  \<open>StartRaft\<close>: the library calls it makes in turn, each of which may fail, and the configuration
  that the first node bootstraps the cluster with.
\<close>

record raft_lib =
  rl_resolve :: "string \<Rightarrow> go_error option"
  rl_transport :: "string \<Rightarrow> go_error + string"
  rl_snapshots :: "string \<Rightarrow> go_error option"
  rl_newRaft :: "string \<Rightarrow> go_error option"

definition startRaft :: "raft_lib \<Rightarrow> bool \<Rightarrow> string \<Rightarrow> string \<Rightarrow> go_error + raft_server list" where
  "startRaft L enableSingle localID localRaftAddr =
     (case rl_resolve L localRaftAddr of
        Some e \<Rightarrow> Inl e
      | None \<Rightarrow>
     (case rl_transport L localRaftAddr of
        Inl e \<Rightarrow> Inl e
      | Inr localAddr \<Rightarrow>
     (case rl_snapshots L (''checkpoints/'' @ localID) of
        Some e \<Rightarrow> Inl (Errorf ''file snapshot store: %s'' [])
      | None \<Rightarrow>
     (case rl_newRaft L localID of
        Some e \<Rightarrow> Inl (Errorf ''new raft: %s'' [])
      | None \<Rightarrow>
          Inr (if enableSingle then [\<lparr>srv_id = localID, srv_addr = localAddr, srv_voter = True\<rparr>]
               else [])))))"

section \<open>Properties\<close>

definition api_readable :: "'r raft_api \<Rightarrow> ('r \<Rightarrow> raft_server list) \<Rightarrow> bool" where
  "api_readable A cfg \<longleftrightarrow> (\<forall>r. api_getConfiguration A r = Inr (cfg r))"

lemma list_api_readable: "api_readable list_api id"
  by (simp add: api_readable_def list_api_def)

lemma member_of_snoc: "member_of i a (ss @ [\<lparr>srv_id = i, srv_addr = a, srv_voter = v\<rparr>])"
  by (simp add: member_of_def)

lemma member_of_append: "member_of i a (xs @ ys) \<longleftrightarrow> member_of i a xs \<or> member_of i a ys"
  by (auto simp: member_of_def)

lemma member_of_others:
  "i \<noteq> i' \<Longrightarrow> a \<noteq> a' \<Longrightarrow> member_of i a (others i' a' ss) \<longleftrightarrow> member_of i a ss"
  by (auto simp: member_of_def others_def)

lemma joinRaft_result:
  assumes "api_laws A cfg" and "api_readable A cfg" and "cfg_wf (cfg r)"
    and "joinRaft A nodeID addr voter r = (r', None)"
  shows "cfg_wf (cfg r') \<and> member_of nodeID addr (cfg r') \<and>
    cfg r' = (if member_of nodeID addr (cfg r) then cfg r
              else others nodeID addr (cfg r) @ [\<lparr>srv_id = nodeID, srv_addr = addr, srv_voter = voter\<rparr>])"
proof (cases "member_of nodeID addr (cfg r)")
  case True
  have "join_loop A nodeID addr (cfg r) r = (r, Join_return None)"
    using join_loop_member [OF assms(3) True subset_refl] True by simp
  then show ?thesis using assms True by (simp add: joinRaft_def api_readable_def)
next
  case False
  have g: "api_getConfiguration A r = Inr (cfg r)" using assms(2) by (simp add: api_readable_def)
  obtain r1 st where l: "join_loop A nodeID addr (cfg r) r = (r1, st)"
    by (cases "join_loop A nodeID addr (cfg r) r") auto
  have "st = Join_continue"
  proof (cases st)
    case (Join_return e)
    with assms(4) g l have "e = None" by (simp add: joinRaft_def)
    with Join_return l have "join_loop A nodeID addr (cfg r) r = (r1, Join_return None)" by simp
    from join_loop_return_None [OF this] have "member_of nodeID addr (cfg r)" .
    with False show ?thesis by contradiction
  qed
  with l have l': "join_loop A nodeID addr (cfg r) r = (r1, Join_continue)" by simp
  have c1: "cfg r1 = others nodeID addr (cfg r)"
    using join_loop_removes [OF assms(1,3) l' subset_refl, of "\<lambda>_. True"]
    by (simp add: others_def cong: filter_cong)
  have n: "nodeID \<notin> srv_id ` set (cfg r1)" by (auto simp: c1 others_def)
  have "(if voter then api_addVoter A nodeID addr r1 else api_addNonvoter A nodeID addr r1) = (r', None)"
    using assms(4) g l' by (simp add: joinRaft_def)
  then have "cfg r' = cfg r1 @ [\<lparr>srv_id = nodeID, srv_addr = addr, srv_voter = voter\<rparr>]"
    using assms(1) n unfolding api_laws_def by (cases voter) auto
  then show ?thesis
    using False cfg_wf_others_snoc [OF assms(3)] member_of_snoc by (simp add: c1)
qed

text \<open>C20: \<open>JoinRaft\<close> without an error leaves the configuration well formed (no identifier and no
  address twice) with the joining node as a member; when the node was a member already nothing has
  changed, else every server that had its identifier or its address is gone, every other one is
  kept in its place, and the node comes last with the vote it asked for.\<close>

theorem joinRaft_configuration:
  assumes "api_laws A cfg" and "api_readable A cfg" and "cfg_wf (cfg r)"
    and "joinRaft A nodeID addr voter r = (r', None)"
  shows "cfg_wf (cfg r') \<and> member_of nodeID addr (cfg r') \<and>
    cfg r' = (if member_of nodeID addr (cfg r) then cfg r
              else others nodeID addr (cfg r) @ [\<lparr>srv_id = nodeID, srv_addr = addr, srv_voter = voter\<rparr>])"
  using assms by (rule joinRaft_result)

lemma joinRaft_configuration_witness:
  "let ss = [\<lparr>srv_id = ''node1'', srv_addr = ''a'', srv_voter = True\<rparr>, \<lparr>srv_id = ''node2'', srv_addr = ''b'', srv_voter = True\<rparr>]
   in fst (joinRaft list_api ''node2'' ''c'' True ss) =
        [\<lparr>srv_id = ''node1'', srv_addr = ''a'', srv_voter = True\<rparr>, \<lparr>srv_id = ''node2'', srv_addr = ''c'', srv_voter = True\<rparr>]"
proof -
  let ?ss = "[\<lparr>srv_id = ''node1'', srv_addr = ''a'', srv_voter = True\<rparr>, \<lparr>srv_id = ''node2'', srv_addr = ''b'', srv_voter = True\<rparr>]"
  obtain r' where r: "joinRaft list_api ''node2'' ''c'' True ?ss = (r', None)"
    by (simp add: joinRaft_def list_api_def)
  show ?thesis
    using joinRaft_configuration [OF list_api_laws list_api_readable _ r] r
    by (simp add: cfg_wf_def member_of_def others_def)
qed

text \<open>The request of a member, voting or not.\<close>

definition request_of :: "raft_server \<Rightarrow> string" where
  "request_of s = (if srv_voter s then join_request (srv_id s) (srv_addr s)
                   else logger_join_request (srv_id s) (srv_addr s))"

lemma parse_request_of:
  assumes "dash \<notin> set (srv_id s)" and "dash \<notin> set (srv_addr s)"
  shows "parse_join_request (request_of s) = Ret (srv_id s, srv_addr s, srv_voter s)"
  using parse_join_line [OF assms, of "''true''"] parse_join_line [OF assms, of "''false''"]
  by (simp add: request_of_def join_request_def logger_join_request_def parse_bool_def)

text \<open>C21: how a cluster forms: replicas and loggers that send their requests to a node one after the
  other, with names and addresses that have no dash, all different and different from those that
  are there, are all in the configuration afterwards, in the order of the requests, with the vote
  each request asks for; the members from before are untouched.\<close>

theorem cluster_forms:
  assumes "api_laws A cfg" and "api_readable A cfg" and "cfg_wf (cfg r @ js)"
    and "\<forall>s \<in> set js. dash \<notin> set (srv_id s) \<and> dash \<notin> set (srv_addr s)"
    and "listen_joins A (map request_of js) r = (r', Ret ())"
  shows "cfg r' = cfg r @ js"
  using assms(3-)
proof (induction js arbitrary: r)
  case Nil
  then show ?case by simp
next
  case (Cons s js)
  have p: "parse_join_request (request_of s) = Ret (srv_id s, srv_addr s, srv_voter s)"
    using parse_request_of Cons.prems(2) by simp
  obtain r1 where j: "joinRaft A (srv_id s) (srv_addr s) (srv_voter s) r = (r1, None)"
    and rest: "listen_joins A (map request_of js) r1 = (r', Ret ())"
    using Cons.prems(3) p by (auto simp: handle_join_def split: prod.splits option.splits)
  have wf: "cfg_wf (cfg r)" using Cons.prems(1) by (simp add: cfg_wf_def)
  have d: "srv_id t \<noteq> srv_id s" "srv_addr t \<noteq> srv_addr s" if "t \<in> set (cfg r)" for t
  proof -
    have "srv_id t \<in> srv_id ` set (cfg r)" "srv_addr t \<in> srv_addr ` set (cfg r)" using that by simp_all
    moreover have "srv_id s \<notin> srv_id ` set (cfg r)" "srv_addr s \<notin> srv_addr ` set (cfg r)"
      using Cons.prems(1) by (simp_all add: cfg_wf_def)
    ultimately show "srv_id t \<noteq> srv_id s" "srv_addr t \<noteq> srv_addr s" by metis+
  qed
  have nm: "\<not> member_of (srv_id s) (srv_addr s) (cfg r)" using d by (auto simp: member_of_def)
  have ot: "others (srv_id s) (srv_addr s) (cfg r) = cfg r" using d by (auto simp: others_def)
  have "cfg r1 = cfg r @ [s]"
    using joinRaft_result [OF assms(1,2) wf j] nm ot by simp
  with Cons.IH [of r1] Cons.prems(1,2) rest show ?case by simp
qed

lemma cluster_forms_witness:
  "let js = [\<lparr>srv_id = ''node2'', srv_addr = ''10.0.0.2:12000'', srv_voter = True\<rparr>,
             \<lparr>srv_id = ''log7'', srv_addr = ''10.0.0.3:12000'', srv_voter = False\<rparr>]
   in fst (listen_joins list_api (map request_of js) [\<lparr>srv_id = ''node1'', srv_addr = ''10.0.0.1:12000'', srv_voter = True\<rparr>]) =
      \<lparr>srv_id = ''node1'', srv_addr = ''10.0.0.1:12000'', srv_voter = True\<rparr> # js"
proof -
  let ?js = "[\<lparr>srv_id = ''node2'', srv_addr = ''10.0.0.2:12000'', srv_voter = True\<rparr>,
             \<lparr>srv_id = ''log7'', srv_addr = ''10.0.0.3:12000'', srv_voter = False\<rparr>]"
  let ?r = "[\<lparr>srv_id = ''node1'', srv_addr = ''10.0.0.1:12000'', srv_voter = True\<rparr>]"
  note h = handle_join_def parse_request_of joinRaft_def list_api_def
  have s1: "handle_join list_api (request_of (?js ! 0)) ?r = (?r @ [?js ! 0], Ret ())"
    by (simp add: h)
  have s2: "handle_join list_api (request_of (?js ! 1)) (?r @ [?js ! 0]) = (?r @ [?js ! 0, ?js ! 1], Ret ())"
    by (simp add: h)
  have r: "listen_joins list_api (map request_of ?js) ?r = (?r @ [?js ! 0, ?js ! 1], Ret ())"
    using s1 s2 by simp
  show ?thesis
    using cluster_forms [OF list_api_laws list_api_readable _ _ r] r by (simp add: cfg_wf_def)
qed

lemma handle_join_short:
  "length (go_split dash request) < 3 \<Longrightarrow> \<exists>e. handle_join A request r = (r, Fatal e)"
  by (simp add: handle_join_def parse_join_request_def Let_def)

lemma handle_join_failed:
  assumes "\<not> length (go_split dash request) < 3"
    and "joinRaft A (go_split dash request ! 0) (go_split dash request ! 1)
           (parse_bool (trim_suffix [newline] (go_split dash request ! 2))) r = (r', Some e)"
  shows "\<exists>e'. handle_join A request r = (r', Fatal e')"
  using assms by (simp add: handle_join_def parse_join_request_def Let_def)

lemma listen_joins_append:
  "listen_joins A good r = (r1, Ret u) \<Longrightarrow> listen_joins A (good @ reqs) r = listen_joins A reqs r1"
  by (induction good arbitrary: r) (auto split: prod.splits outcome.splits)

text \<open>One bad request stops a node: after any requests that were served, one that has fewer than
  three parts, or whose \<open>JoinRaft\<close> returns an error, ends the process of the node that was asked,
  whatever requests wait behind it; a short one has not changed the configuration.\<close>

lemma handle_join_fatal:
  assumes "listen_joins A served r = (r1, Ret ())"
    and "let data = go_split dash request
         in length data < 3 \<or> snd (joinRaft A (data ! 0) (data ! 1) (parse_bool (trim_suffix [newline] (data ! 2))) r1) \<noteq> None"
  shows "\<exists>r2 e. (\<forall>waiting. listen_joins A (served @ request # waiting) r = (r2, Fatal e)) \<and>
    (length (go_split dash request) < 3 \<longrightarrow> r2 = r1)"
proof -
  have "\<exists>r2 e. handle_join A request r1 = (r2, Fatal e) \<and> (length (go_split dash request) < 3 \<longrightarrow> r2 = r1)"
    using assms(2) handle_join_short [of request A r1] handle_join_failed [of request A r1]
    by (cases "length (go_split dash request) < 3") (auto simp: Let_def prod_eq_iff)
  then show ?thesis by (force simp: listen_joins_append [OF assms(1)])
qed

text \<open>A node that one replica has joined gets a line that is no request.\<close>

end
