(* ===== verification/Kube.thy ===== *)
theory Kube
  imports Membership
begin

text \<open>
  Start-up on Kubernetes: the environment a process reads, the names it derives from it, and the
  search for a leader (kvstore and diskstorage, the same code), for every leader (logger) and for
  the replicas of an application (client). The pods of the namespace are given by the API, a
  parameter.
\<close>

section \<open>Pods\<close>

text \<open>The container names of a pod's status, and its address ("" until it has one).\<close>

record pod =
  pod_containers :: "string list"
  pod_ip :: string

text \<open>\<open>pod.Status.ContainerStatuses[0].Name\<close> of a pod that has no status yet panics.\<close>

definition container_name :: "pod \<Rightarrow> string outcome" where
  "container_name p = go_index (pod_containers p) 0"

section \<open>The environment of a replica\<close>

text \<open>The index in a pod's name, -1 when there is none (kvstore, diskstorage and client).\<close>

definition pod_index :: "string \<Rightarrow> int" where
  "pod_index envPodName =
     (let nameTags = go_split dash envPodName
      in if 3 \<le> length nameTags
         then (case atoi (nameTags ! 2) of (i, None) \<Rightarrow> i | (_, Some _) \<Rightarrow> -1)
         else -1)"

record kube_env =
  envPodIP :: string
  envPodName :: string
  envPodNamespace :: string
  envPodIndex :: int

definition loadEnvVariables :: "(string \<rightharpoonup> string) \<Rightarrow> kube_env outcome" where
  "loadEnvVariables env =
     (case env ''MY_POD_IP'' of
        None \<Rightarrow> Fatal (Errorf ''could not load environment variable MY_POD_IP'' [])
      | Some ip \<Rightarrow>
     (case env ''MY_POD_NAMESPACE'' of
        None \<Rightarrow> Fatal (Errorf ''could not load environment variable MY_POD_NAMESPACE'' [])
      | Some ns \<Rightarrow>
     (case env ''MY_POD_NAME'' of
        None \<Rightarrow> Fatal (Errorf ''could not load environment variable MY_POD_NAME'' [])
      | Some name \<Rightarrow> Ret \<lparr>envPodIP = ip, envPodName = name, envPodNamespace = ns,
                          envPodIndex = pod_index name\<rparr>)))"

definition is_leader :: "kube_env \<Rightarrow> bool" where
  "is_leader e = contains_str (envPodName e) ''leader''"

text \<open>The server's identifier: the fourth part of the pod's address.\<close>

definition server_id :: "string \<Rightarrow> string outcome" where
  "server_id podIP = outcome_bind (go_index (go_split (CHR ''.'') podIP) 3) (\<lambda>x. Ret (''node'' @ x))"

section \<open>The search of a follower\<close>

definition leader_tag :: "int \<Rightarrow> string" where
  "leader_tag podIndex = (if podIndex > -1 then ''leader-'' @ itoa podIndex else ''leader'')"

text \<open>The loop over the pods: each match overwrites the address found before.\<close>

fun find_leader :: "string \<Rightarrow> pod list \<Rightarrow> string \<Rightarrow> string outcome" where
  "find_leader tag [] joinAddr = Ret joinAddr"
| "find_leader tag (p # ps) joinAddr =
     outcome_bind (container_name p) (\<lambda>name.
       if contains_str name tag then
         (if pod_ip p = [] then Fatal (Errorf ''leader has no IP, forcing a container restart...'' [])
          else find_leader tag ps (pod_ip p @ '':13000''))
       else find_leader tag ps joinAddr)"

record kube_config =
  kc_joinHandlerAddr :: string
  kc_joinAddr :: string

text \<open>\<open>requestKubeConfig\<close>; \<open>pods\<close> is what the API answers (an error is returned).\<close>

definition requestKubeConfig :: "kube_env \<Rightarrow> go_error + pod list \<Rightarrow> (go_error + kube_config) outcome" where
  "requestKubeConfig e pods =
     (if is_leader e then Ret (Inr \<lparr>kc_joinHandlerAddr = '':13000'', kc_joinAddr = []\<rparr>)
      else (case pods of
          Inl err \<Rightarrow> Ret (Inl err)
        | Inr ps \<Rightarrow>
            outcome_bind (find_leader (leader_tag (envPodIndex e)) ps []) (\<lambda>joinAddr.
              if joinAddr = [] then
                Fatal (Errorf ''could not retrieve any leader address, restarting...'' [])
              else Ret (Inr \<lparr>kc_joinHandlerAddr = [], kc_joinAddr = joinAddr\<rparr>))))"

record replica_config =
  rc_svrID :: string
  rc_svrPort :: string
  rc_raftAddr :: string
  rc_kube :: kube_config

text \<open>\<open>init\<close> with \<open>staticIPs\<close> false; an error of the configuration ends the process.\<close>

definition replica_init :: "(string \<rightharpoonup> string) \<Rightarrow> go_error + pod list \<Rightarrow> replica_config outcome" where
  "replica_init env pods =
     outcome_bind (loadEnvVariables env) (\<lambda>e.
     outcome_bind (server_id (envPodIP e)) (\<lambda>svrID.
     outcome_bind (requestKubeConfig e pods) (\<lambda>r.
       (case r of
          Inl err \<Rightarrow> Fatal (Errorf ''Failed to retrieve Kubernetes config, err:'' [])
        | Inr kc \<Rightarrow>
            (if svrID = [] then Fatal (Errorf ''Must set a server ID, run with: ./server -id'' [])
             else Ret \<lparr>rc_svrID = svrID, rc_svrPort = '':11000'',
                       rc_raftAddr = envPodIP e @ '':12000'', rc_kube = kc\<rparr>)))))"

text \<open>
  \<open>sendJoinRequest\<close>: the bytes that go to the join address, and the error; the record says which
  call on the connection fails.
\<close>

record join_conn =
  jc_dial :: "go_error option"
  jc_write :: "go_error option"
  jc_close :: "go_error option"

definition sendJoinRequest :: "join_conn \<Rightarrow> string \<Rightarrow> string \<Rightarrow> string \<Rightarrow> string \<times> go_error option" where
  "sendJoinRequest N svrID raftAddr joinAddr =
     (case jc_dial N of
        Some e \<Rightarrow> ([], Some (Errorf ''failed to connect to leader node at %s: %s'' [joinAddr]))
      | None \<Rightarrow>
     (case jc_write N of
        Some e \<Rightarrow> ([], Some (Errorf ''failed to send join request to node at %s: %s'' [joinAddr]))
      | None \<Rightarrow> (join_request svrID raftAddr, jc_close N)))"

text \<open>
  The start of \<open>main\<close> (profiling aside): listen, start Raft (bootstrapping when there is no join
  address), and send the join request if there is one. What comes out: the configuration it
  bootstraps and the request it sends.
\<close>

definition replica_main :: "raft_lib \<Rightarrow> (string \<Rightarrow> go_error option) \<Rightarrow> join_conn \<Rightarrow> replica_config
    \<Rightarrow> (raft_server list \<times> string) outcome" where
  "replica_main L listen N c =
     (let joinAddr = kc_joinAddr (rc_kube c) in
      case listen (rc_svrPort c) of
        Some e \<Rightarrow> Fatal (Errorf ''failed to start connection: %s'' [])
      | None \<Rightarrow>
     (case startRaft L (joinAddr = []) (rc_svrID c) (rc_raftAddr c) of
        Inl e \<Rightarrow> Fatal (Errorf ''failed to start raft cluster: %s'' [])
      | Inr bootstrapped \<Rightarrow>
          (if joinAddr \<noteq> [] then
             (case sendJoinRequest N (rc_svrID c) (rc_raftAddr c) joinAddr of
                (sent, Some e) \<Rightarrow> Fatal (Errorf ''failed to send join request to node at %s: %s'' [joinAddr])
              | (sent, None) \<Rightarrow> Ret (bootstrapped, sent))
           else Ret (bootstrapped, []))))"

section \<open>The search of a logger\<close>

fun find_leaders :: "pod list \<Rightarrow> string list \<Rightarrow> string list outcome" where
  "find_leaders [] joinAddrs = Ret joinAddrs"
| "find_leaders (p # ps) joinAddrs =
     outcome_bind (container_name p) (\<lambda>name.
       if contains_str name ''leader'' then
         (if pod_ip p = [] then Fatal (Errorf ''forcing a container restart...'' [])
          else find_leaders ps (joinAddrs @ [pod_ip p @ '':13000'']))
       else find_leaders ps joinAddrs)"

definition logger_requestKubeConfig :: "go_error + pod list \<Rightarrow> (go_error + string list) outcome" where
  "logger_requestKubeConfig pods =
     (case pods of
        Inl err \<Rightarrow> Ret (Inl err)
      | Inr ps \<Rightarrow>
          outcome_bind (find_leaders ps []) (\<lambda>joinAddrs.
            if length joinAddrs = 0 then
              Fatal (Errorf ''could not retrieve any leader address, restarting...'' [])
            else Ret (Inr joinAddrs)))"

section \<open>The search of a client\<close>

definition pod_filter :: "int \<Rightarrow> string" where
  "pod_filter podIndex = (if podIndex > -1 then ''-'' @ itoa podIndex else [])"

fun find_apps :: "string \<Rightarrow> string \<Rightarrow> pod list \<Rightarrow> string list \<Rightarrow> string list outcome" where
  "find_apps flt ownIP [] podIps = Ret podIps"
| "find_apps flt ownIP (p # ps) podIps =
     outcome_bind (container_name p) (\<lambda>name.
       if contains_str name flt \<and> \<not> contains_str name ''logger'' then
         (if pod_ip p = [] then Fatal (Errorf ''forcing a container restart...'' [])
          else if pod_ip p \<noteq> ownIP then find_apps flt ownIP ps (podIps @ [pod_ip p @ '':11000''])
          else find_apps flt ownIP ps podIps)
       else find_apps flt ownIP ps podIps)"

definition getAppsFromKube :: "(string \<rightharpoonup> string) \<Rightarrow> int \<Rightarrow> go_error + pod list
    \<Rightarrow> (go_error + string list) outcome" where
  "getAppsFromKube env podIndex pods =
     (let ownIP = (case env ''MY_POD_IP'' of None \<Rightarrow> ''127.0.0.1'' | Some ip \<Rightarrow> ip)
      in (case pods of
            Inl err \<Rightarrow> Ret (Inl err)
          | Inr ps \<Rightarrow> outcome_bind (find_apps (pod_filter podIndex) ownIP ps []) (\<lambda>ips. Ret (Inr ips))))"

text \<open>\<open>checkKubernetesEnv\<close>: None when the process is not in a pod.\<close>

definition checkKubernetesEnv :: "(string \<rightharpoonup> string) \<Rightarrow> go_error + pod list \<Rightarrow> string list option outcome" where
  "checkKubernetesEnv env pods =
     (case env ''MY_POD_NAME'' of
        None \<Rightarrow> Ret None
      | Some name \<Rightarrow>
          outcome_bind (getAppsFromKube env (pod_index name) pods) (\<lambda>r.
            (case r of
               Inl err \<Rightarrow> Fatal (Errorf ''could not init kubernetes config, err:'' [])
             | Inr ips \<Rightarrow> Ret (Some ips))))"

section \<open>What the searches find\<close>

text \<open>Every pod has a status, and every pod that matters an address.\<close>

definition pods_ready :: "(string \<Rightarrow> bool) \<Rightarrow> pod list \<Rightarrow> bool" where
  "pods_ready wanted ps \<longleftrightarrow>
     (\<forall>p \<in> set ps. pod_containers p \<noteq> [] \<and> (wanted (hd (pod_containers p)) \<longrightarrow> pod_ip p \<noteq> []))"

lemma pods_ready_Cons [simp]:
  "pods_ready w (p # ps) \<longleftrightarrow> pod_containers p \<noteq> [] \<and>
     (w (hd (pod_containers p)) \<longrightarrow> pod_ip p \<noteq> []) \<and> pods_ready w ps"
  by (auto simp: pods_ready_def)

lemma container_name_ready: "pod_containers p \<noteq> [] \<Longrightarrow> container_name p = Ret (hd (pod_containers p))"
  by (simp add: container_name_def hd_conv_nth)

text \<open>The follower takes the last pod whose container's name contains the tag.\<close>

lemma find_leader_last:
  "pods_ready (\<lambda>n. contains_str n tag) ps \<Longrightarrow>
     find_leader tag ps a =
       Ret (case rev (filter (\<lambda>p. contains_str (hd (pod_containers p)) tag) ps) of
              [] \<Rightarrow> a | p # _ \<Rightarrow> pod_ip p @ '':13000'')"
proof (induction ps arbitrary: a)
  case Nil
  then show ?case by simp
next
  case (Cons p ps)
  then show ?case
    by (cases "rev (filter (\<lambda>p. contains_str (hd (pod_containers p)) tag) ps)")
       (simp_all add: container_name_ready)
qed

lemma find_leaders_all:
  "pods_ready (\<lambda>n. contains_str n ''leader'') ps \<Longrightarrow>
     find_leaders ps acc =
       Ret (acc @ map (\<lambda>p. pod_ip p @ '':13000'')
                   (filter (\<lambda>p. contains_str (hd (pod_containers p)) ''leader'') ps))"
  by (induction ps arbitrary: acc) (simp_all add: container_name_ready)

lemma find_apps_all:
  "pods_ready (\<lambda>n. contains_str n flt \<and> \<not> contains_str n ''logger'') ps \<Longrightarrow>
     find_apps flt own ps acc =
       Ret (acc @ map (\<lambda>p. pod_ip p @ '':11000'')
              (filter (\<lambda>p. contains_str (hd (pod_containers p)) flt \<and>
                  \<not> contains_str (hd (pod_containers p)) ''logger'' \<and> pod_ip p \<noteq> own) ps))"
  by (induction ps arbitrary: acc) (auto simp: container_name_ready)

text \<open>The decimal of an index is a prefix of the decimals of ten times it and a digit.\<close>

lemma itoa_prefix:
  assumes "0 < i" and "0 \<le> d" and "d < 10"
  shows "prefix (itoa i) (itoa (10 * i + d))"
proof -
  have "\<not> nat (10 * i + d) < 10" using assms by simp
  moreover have "nat (10 * i + d) div 10 = nat i"
    using assms by (simp add: nat_mult_distrib flip: nat_div_distrib)
  ultimately have "nat_digits (nat (10 * i + d)) =
      nat_digits (nat i) @ [char_of (nat (10 * i + d) mod 10 + 48)]"
    by (subst nat_digits.simps) simp
  then show ?thesis using assms by (simp add: itoa_def)
qed

section \<open>Properties\<close>

text \<open>A replica of a Kubernetes deployment takes its identifier from the last part of its pod's
  address only; when a pod joins whose address ends like that of a member in another subnet, the
  join succeeds and the old member is out of the configuration.\<close>

lemma server_id_evicts:
  assumes "api_laws A cfg" and "api_readable A cfg" and "cfg_wf (cfg r)"
    and "server_id ip1 = Ret i" "server_id ip2 = Ret i" and "ip1 \<noteq> ip2"
    and "dash \<notin> set i" "dash \<notin> set ip2"
    and "member_of i (ip1 @ '':12000'') (cfg r)"
    and "handle_join A (join_request i (ip2 @ '':12000'')) r = (r', Ret ())"
  shows "member_of i (ip2 @ '':12000'') (cfg r') \<and> \<not> member_of i (ip1 @ '':12000'') (cfg r')"
proof -
  let ?a1 = "ip1 @ '':12000''" and ?a2 = "ip2 @ '':12000''"
  have "parse_join_request (join_request i ?a2) = Ret (i, ?a2, True)"
    using parse_request_of [of "\<lparr>srv_id = i, srv_addr = ?a2, srv_voter = True\<rparr>"] assms(7,8)
    by (simp add: request_of_def)
  then have j: "joinRaft A i ?a2 True r = (r', None)"
    using assms(10) by (auto simp: handle_join_def split: prod.splits option.splits)
  have c: "cfg_wf (cfg r')" "member_of i ?a2 (cfg r')"
    using joinRaft_result [OF assms(1-3) j] by blast+
  have "\<not> member_of i ?a1 (cfg r')"
  proof
    assume "member_of i ?a1 (cfg r')"
    then obtain s t where "s \<in> set (cfg r')" "srv_id s = i" "srv_addr s = ?a1"
      "t \<in> set (cfg r')" "srv_id t = i" "srv_addr t = ?a2"
      using c(2) by (auto simp: member_of_def)
    then have "?a1 = ?a2" using cfg_wf_id [OF c(1), of s t] by simp
    then show False using assms(6) by simp
  qed
  with c(2) show ?thesis by simp
qed

lemma find_leader_two:
  "contains_str (hd (pod_containers p)) tag \<Longrightarrow> contains_str (hd (pod_containers q)) tag \<Longrightarrow>
   pod_containers p \<noteq> [] \<Longrightarrow> pod_containers q \<noteq> [] \<Longrightarrow> pod_ip p \<noteq> [] \<Longrightarrow> pod_ip q \<noteq> [] \<Longrightarrow>
     find_leader tag [p, q] a = Ret (pod_ip q @ '':13000'')"
  by (simp add: container_name_ready)

text \<open>A follower that is not the only one with the tag of its application: when the name of the
  last matching pod is that of a leader with a longer number (leader-1 against leader-10), it is that
  leader's cluster it joins.\<close>

lemma follower_takes_longer_index:
  assumes "\<not> is_leader e" and "envPodIndex e = i" "0 < i" and "0 \<le> d" "d < 10"
    and "pod_containers p = [''leader-'' @ itoa i]" "pod_containers q = [''leader-'' @ itoa (10 * i + d)]"
    and "pod_ip p \<noteq> []" "pod_ip q \<noteq> []"
  shows "requestKubeConfig e (Inr [p, q]) =
    Ret (Inr \<lparr>kc_joinHandlerAddr = [], kc_joinAddr = pod_ip q @ '':13000''\<rparr>)"
proof -
  have tag: "leader_tag (envPodIndex e) = ''leader-'' @ itoa i" using assms(2,3) by (simp add: leader_tag_def)
  have p: "contains_str (hd (pod_containers p)) (''leader-'' @ itoa i)"
    unfolding contains_str_sublist assms(6) by simp
  obtain z where "itoa (10 * i + d) = itoa i @ z" using itoa_prefix [OF assms(3-5)] by (auto simp: prefix_def)
  then have q: "contains_str (hd (pod_containers q)) (''leader-'' @ itoa i)"
    unfolding contains_str_sublist assms(7)
    by (metis append.assoc append_Nil list.sel(1) sublist_appendI)
  have "find_leader (''leader-'' @ itoa i) [p, q] [] = Ret (pod_ip q @ '':13000'')"
    by (rule find_leader_two [OF p q _ _ assms(8,9)]) (simp_all add: assms(6,7))
  then show ?thesis
    unfolding requestKubeConfig_def tag using assms(1) by (simp del: find_leader.simps)
qed

text \<open>On Kubernetes a client connects to exactly the pods whose container's name contains its
  filter and not logger, in the order of the API, and never to itself.\<close>

lemma client_finds_apps:
  assumes "env ''MY_POD_IP'' = Some own"
    and "pods_ready (\<lambda>n. contains_str n (pod_filter i) \<and> \<not> contains_str n ''logger'') ps"
  shows "getAppsFromKube env i (Inr ps) =
    Ret (Inr (map (\<lambda>p. pod_ip p @ '':11000'')
      (filter (\<lambda>p. contains_str (hd (pod_containers p)) (pod_filter i) \<and>
                   \<not> contains_str (hd (pod_containers p)) ''logger'' \<and> pod_ip p \<noteq> own) ps)))"
  using find_apps_all [OF assms(2), of own "[]"] assms(1) by (simp add: getAppsFromKube_def)

lemma client_finds_apps_witness:
  "getAppsFromKube [''MY_POD_IP'' \<mapsto> ''10.0.0.9''] (-1)
     (Inr [\<lparr>pod_containers = [''kv''], pod_ip = ''10.0.0.1''\<rparr>, \<lparr>pod_containers = [''logger''], pod_ip = ''10.0.0.2''\<rparr>]) =
   Ret (Inr [''10.0.0.1:11000''])"
  using client_finds_apps [of "[''MY_POD_IP'' \<mapsto> ''10.0.0.9'']" "''10.0.0.9''" "-1"
     "[\<lparr>pod_containers = [''kv''], pod_ip = ''10.0.0.1''\<rparr>, \<lparr>pod_containers = [''logger''], pod_ip = ''10.0.0.2''\<rparr>]"]
  by (simp add: pod_filter_def prefix_def pods_ready_def)

lemma requestKubeConfig_leader:
  "requestKubeConfig e pods = Ret (Inr kc) \<Longrightarrow> kc_joinAddr kc = [] \<longleftrightarrow> is_leader e"
  by (auto simp: requestKubeConfig_def split: if_splits sum.splits)

lemma requestKubeConfig_handler:
  "requestKubeConfig e pods = Ret (Inr kc) \<Longrightarrow> kc_joinHandlerAddr kc = (if is_leader e then '':13000'' else [])"
  by (auto simp: requestKubeConfig_def split: if_splits sum.splits)

lemma replica_init_Ret:
  assumes "replica_init env pods = Ret c" and "loadEnvVariables env = Ret e"
  shows "requestKubeConfig e pods = Ret (Inr (rc_kube c)) \<and> rc_raftAddr c = envPodIP e @ '':12000''"
proof -
  obtain i r where r: "requestKubeConfig e pods = Ret r" "server_id (envPodIP e) = Ret i"
    using assms by (auto simp: replica_init_def)
  show ?thesis
    using assms r by (cases r) (auto simp: replica_init_def split: if_splits)
qed

text \<open>On Kubernetes exactly the pods named leader bootstrap a cluster: a replica that starts up
  without an error either has leader in its name, bootstraps the configuration of itself alone and
  sends no request, or it bootstraps nothing and sends the request to join with its identifier and
  its Raft address.\<close>

lemma replica_begins:
  assumes "replica_init env pods = Ret c" and "replica_main L listen N c = Ret (bootstrapped, sent)"
    and "loadEnvVariables env = Ret e" and "rl_transport L (rc_raftAddr c) = Inr self"
  shows "if is_leader e
    then bootstrapped = [\<lparr>srv_id = rc_svrID c, srv_addr = self, srv_voter = True\<rparr>] \<and> sent = []
    else bootstrapped = [] \<and> sent = join_request (rc_svrID c) (envPodIP e @ '':12000'')"
proof -
  note k = replica_init_Ret [OF assms(1,3)]
  have j: "kc_joinAddr (rc_kube c) = [] \<longleftrightarrow> is_leader e"
    using requestKubeConfig_leader k by blast
  show ?thesis
  proof (cases "is_leader e")
    case True
    with j assms(2,4) show ?thesis
      by (auto simp: replica_main_def startRaft_def Let_def split: option.splits)
  next
    case False
    with j k assms(2) show ?thesis
      by (auto simp: replica_main_def startRaft_def sendJoinRequest_def Let_def split: option.splits sum.splits)
  qed
qed

definition demo_raft_lib :: raft_lib where
  "demo_raft_lib = \<lparr>rl_resolve = \<lambda>_. None, rl_transport = Inr, rl_snapshots = \<lambda>_. None, rl_newRaft = \<lambda>_. None\<rparr>"

definition demo_env_of :: "string \<Rightarrow> string \<rightharpoonup> string" where
  "demo_env_of name = [''MY_POD_IP'' \<mapsto> ''10.0.0.5'', ''MY_POD_NAMESPACE'' \<mapsto> ''ns'', ''MY_POD_NAME'' \<mapsto> name]"

end
