(* ===== verification/Seq_Client.thy ===== *)
theory Seq_Client
  imports KV_Server Kube
begin

text \<open>
  The sequential client (\<open>client/\<close>): its configuration, the connections to the replicas, the
  broadcast of a command as text and as a Protocol Buffers message, and the reading of replies.
\<close>

section \<open>State\<close>

text \<open>
  A TCP connection: what was written to it, and the error its next \<open>Write\<close> returns, if any. A
  nil \<open>net.Conn\<close> is None.
\<close>

record conn =
  cn_out :: bytes
  cn_err :: "go_error option"

record client_info =
  ci_rep :: int
  ci_svrIps :: "string list"
  ci_svrs :: "conn option list"
  ci_localip :: string
  ci_udpport :: int
  ci_thinkingTimeMsec :: int

text \<open>
  \<open>New\<close>: \<open>kubeIps\<close> is the result of \<open>checkKubernetesEnv\<close>, \<open>podIP\<close> the address it
  recorded, and \<open>toml\<close> what decoding the configuration file gives.
\<close>

definition client_new :: "string list option \<Rightarrow> string \<Rightarrow> go_error + client_info \<Rightarrow> go_error + client_info" where
  "client_new kubeIps podIP toml =
     (case kubeIps of
        Some ips \<Rightarrow> Inr \<lparr>ci_rep = int (length ips), ci_svrIps = ips, ci_svrs = [], ci_localip = podIP,
                         ci_udpport = 15000, ci_thinkingTimeMsec = 10\<rparr>
      | None \<Rightarrow> toml)"

section \<open>Connecting\<close>

text \<open>The loop of \<open>Connect\<close>; a failed dial leaves a nil connection in its place.\<close>

fun connect_loop :: "(string \<Rightarrow> go_error + conn) \<Rightarrow> nat \<Rightarrow> string list \<Rightarrow> conn option list
    \<Rightarrow> conn option list \<times> go_error option outcome" where
  "connect_loop dial i [] cs = (cs, Ret None)"
| "connect_loop dial i (v # vs) cs =
     (if i < length cs then
        (case dial v of
           Inl e \<Rightarrow> (cs[i := None], Ret (Some e))
         | Inr c \<Rightarrow> connect_loop dial (Suc i) vs (cs[i := Some c]))
      else (cs, Panic (Lib_error ''index out of range'')))"

definition client_connect :: "(string \<Rightarrow> go_error + conn) \<Rightarrow> client_info
    \<Rightarrow> client_info \<times> go_error option outcome" where
  "client_connect dial ci =
     (if ci_rep ci < 0 then (ci, Panic (Lib_error ''makeslice: len out of range''))
      else (let (cs, r) = connect_loop dial 0 (ci_svrIps ci) (replicate (nat (ci_rep ci)) None)
            in (ci\<lparr>ci_svrs := cs\<rparr>, r)))"

section \<open>Broadcasting\<close>

text \<open>The loops over the connections: the first error ends them, a nil connection panics.\<close>

fun send_all :: "bytes \<Rightarrow> conn option list \<Rightarrow> conn option list \<times> go_error option outcome" where
  "send_all msg [] = ([], Ret None)"
| "send_all msg (None # cs) = (None # cs, Panic (Lib_error ''nil pointer dereference''))"
| "send_all msg (Some c # cs) =
     (case cn_err c of
        Some e \<Rightarrow> (Some c # cs, Ret (Some e))
      | None \<Rightarrow> (let (cs', r) = send_all msg cs in (Some (c\<lparr>cn_out := cn_out c @ msg\<rparr>) # cs', r)))"

definition client_broadcast :: "client_info \<Rightarrow> string \<Rightarrow> client_info \<times> go_error option outcome" where
  "client_broadcast ci message =
     (let (cs, r) = send_all (itoa (ci_udpport ci) @ ''-'' @ message) (ci_svrs ci)
      in (ci\<lparr>ci_svrs := cs\<rparr>, r))"

definition client_broadcastProtobuf :: "pb_codec \<Rightarrow> client_info \<Rightarrow> pb_command \<Rightarrow> string
    \<Rightarrow> client_info \<times> go_error option outcome" where
  "client_broadcastProtobuf P ci message clientUDPPort =
     (case pb_marshal P (message\<lparr>cmd_ip := clientUDPPort\<rparr>) of
        (serializedMessage, Some e) \<Rightarrow> (ci, Ret (Some e))
      | (serializedMessage, None) \<Rightarrow>
          (let (cs, r) = send_all (serializedMessage @ [newline]) (ci_svrs ci)
           in (ci\<lparr>ci_svrs := cs\<rparr>, r)))"

section \<open>Replies\<close>

text \<open>\<open>ReadTCP\<close> on what a reader still has to give.\<close>

definition client_readTCP :: "bytes \<Rightarrow> string \<times> bytes" where
  "client_readTCP stream =
     (case read_line stream of (line, ok, rest) \<Rightarrow>
        (if ok \<and> 1 < length line then (line, rest) else ([], rest)))"

text \<open>\<open>ReadUDP\<close>: the datagram is read into 128 bytes, and the string is made of all of them.\<close>

definition client_readUDP :: "go_error + bytes \<Rightarrow> string \<times> go_error option" where
  "client_readUDP received =
     (case received of
        Inl e \<Rightarrow> ([], Some e)
      | Inr datagram \<Rightarrow> (take 128 datagram @ replicate (128 - length datagram) nul, None))"

text \<open>
  \<open>ReadTCPParallel\<close>: a goroutine per reader sends the first line it reads, if the read gives no
  error; the first to be sent is the result, and a call to which none answers waits for ever. \<open>order\<close>
  is the order in which the goroutines get to run.
\<close>

definition client_readTCPParallel :: "nat list \<Rightarrow> bytes list \<Rightarrow> string outcome" where
  "client_readTCPParallel order streams =
     (case filter (\<lambda>j. fst (snd (read_line (streams ! j)))) order of
        [] \<Rightarrow> Blocked
      | j # _ \<Rightarrow> Ret (fst (read_line (streams ! j))))"

section \<open>Closing\<close>

text \<open>\<open>Disconnect\<close> closes every connection in turn; a nil one panics.\<close>

definition closed_conn :: go_error where
  "closed_conn = Lib_error ''use of closed network connection''"

fun close_all :: "conn option list \<Rightarrow> conn option list \<times> unit outcome" where
  "close_all [] = ([], Ret ())"
| "close_all (None # cs) = (None # cs, Panic (Lib_error ''nil pointer dereference''))"
| "close_all (Some c # cs) =
     (let (cs', r) = close_all cs in (Some (c\<lparr>cn_err := Some closed_conn\<rparr>) # cs', r))"

definition client_disconnect :: "client_info \<Rightarrow> client_info \<times> unit outcome" where
  "client_disconnect ci = (let (cs, r) = close_all (ci_svrs ci) in (ci\<lparr>ci_svrs := cs\<rparr>, r))"

definition client_shutdown :: "client_info \<Rightarrow> client_info \<times> unit outcome" where
  "client_shutdown ci = client_disconnect ci"

section \<open>Lemmas\<close>

lemma connect_loop_all:
  assumes "\<forall>v \<in> set vs. \<exists>c. dial v = Inr c" and "i + length vs \<le> length cs"
  shows "connect_loop dial i vs cs =
     (take i cs @ map (\<lambda>v. Some (projr (dial v))) vs @ drop (i + length vs) cs, Ret None)"
  using assms
proof (induction vs arbitrary: i cs)
  case Nil
  then show ?case by simp
next
  case (Cons v vs)
  then obtain c where c: "dial v = Inr c" by auto
  have i: "i < length cs" using Cons.prems(2) by simp
  have "take (Suc i) (cs[i := Some c]) = take i cs @ [Some c]"
    using i by (simp add: take_Suc_conv_app_nth)
  with Cons.IH [of "Suc i" "cs[i := Some c]"] Cons.prems c i show ?case by simp
qed

lemma connect_loop_too_many:
  "\<forall>v \<in> set vs. \<exists>c. dial v = Inr c \<Longrightarrow> i \<le> length cs \<Longrightarrow> length cs < i + length vs \<Longrightarrow>
     snd (connect_loop dial i vs cs) = Panic (Lib_error ''index out of range'')"
  by (induction vs arbitrary: i cs) auto

lemma send_all_ok:
  "\<forall>c \<in> set cs. cn_err c = None \<Longrightarrow>
     send_all msg (map Some cs) = (map (\<lambda>c. Some (c\<lparr>cn_out := cn_out c @ msg\<rparr>)) cs, Ret None)"
  by (induction cs) simp_all

text \<open>The first connection that fails is where a broadcast stops: the ones after it get nothing.\<close>

lemma send_all_stops:
  "\<forall>c \<in> set cs. cn_err c = None \<Longrightarrow> cn_err d = Some e \<Longrightarrow>
     send_all msg (map Some cs @ Some d # rest) =
       (map (\<lambda>c. Some (c\<lparr>cn_out := cn_out c @ msg\<rparr>)) cs @ Some d # rest, Ret (Some e))"
  by (induction cs) simp_all

text \<open>The stream of a sequence of messages, and what a session makes of it.\<close>

definition stream_of :: "bytes list \<Rightarrow> bytes" where
  "stream_of msgs = concat (map (\<lambda>m. m @ [newline]) msgs)"

lemma session_read_stream:
  "\<forall>m \<in> set msgs. m \<noteq> [] \<and> newline \<notin> set m \<Longrightarrow> newline \<notin> set rest \<Longrightarrow>
     session_read remote (stream_of msgs @ rest) =
       map (\<lambda>m. \<lparr>rq_command = m @ [newline], rq_ip = takeWhile (\<lambda>c. c \<noteq> colon) remote\<rparr>) msgs"
  by (induction msgs) (simp_all add: stream_of_def session_read_tail session_read_line)

lemma close_all_ok:
  "close_all (map Some cs) = (map (\<lambda>c. Some (c\<lparr>cn_err := Some closed_conn\<rparr>)) cs, Ret ())"
  by (induction cs) simp_all

section \<open>Properties\<close>

text \<open>A client that broadcasts one command after the other, until one fails.\<close>

fun client_sends :: "pb_codec \<Rightarrow> client_info \<Rightarrow> pb_command list \<Rightarrow> string
    \<Rightarrow> client_info \<times> go_error option outcome" where
  "client_sends P ci [] udp = (ci, Ret None)"
| "client_sends P ci (c # cs) udp =
     (case client_broadcastProtobuf P ci c udp of
        (ci', Ret None) \<Rightarrow> client_sends P ci' cs udp
      | (ci', r) \<Rightarrow> (ci', r))"

text \<open>A command that the framing by newlines carries.\<close>

definition sendable :: "pb_codec \<Rightarrow> string \<Rightarrow> pb_command \<Rightarrow> bool" where
  "sendable P udp c \<longleftrightarrow> (let c' = c\<lparr>cmd_ip := udp\<rparr>; b = serialize P c'
     in codec_law P c' \<and> b \<noteq> [] \<and> newline \<notin> set b)"

lemma stream_of_Cons: "stream_of (m # ms) = m @ newline # stream_of ms"
  by (simp add: stream_of_def)

lemma client_sends_stream:
  "\<forall>c \<in> set cmds. codec_law P (c\<lparr>cmd_ip := udp\<rparr>) \<Longrightarrow> ci_svrs ci = map Some cs \<Longrightarrow>
   \<forall>d \<in> set cs. cn_err d = None \<Longrightarrow>
     client_sends P ci cmds udp =
       (ci\<lparr>ci_svrs := map (\<lambda>d. Some (d\<lparr>cn_out := cn_out d @ stream_of (map (\<lambda>c. serialize P (c\<lparr>cmd_ip := udp\<rparr>)) cmds)\<rparr>)) cs\<rparr>,
        Ret None)"
proof (induction cmds arbitrary: ci cs)
  case Nil
  then have "ci\<lparr>ci_svrs := map Some cs\<rparr> = ci" by simp
  then show ?case by (simp add: stream_of_def cong: map_cong)
next
  case (Cons c cmds)
  obtain bs where m: "pb_marshal P (c\<lparr>cmd_ip := udp\<rparr>) = (bs, None)"
    using Cons.prems(1) by (cases "pb_marshal P (c\<lparr>cmd_ip := udp\<rparr>)") (simp add: codec_law_def)
  let ?cs = "map (\<lambda>d. d\<lparr>cn_out := cn_out d @ bs @ [newline]\<rparr>) cs"
  have b: "client_broadcastProtobuf P ci c udp = (ci\<lparr>ci_svrs := map Some ?cs\<rparr>, Ret None)"
    using send_all_ok [OF Cons.prems(3), of "bs @ [newline]"] Cons.prems(2)
    by (simp add: client_broadcastProtobuf_def m comp_def)
  have e: "\<forall>d \<in> set ?cs. cn_err d = None" using Cons.prems(3) by auto
  have l: "\<forall>c \<in> set cmds. codec_law P (c\<lparr>cmd_ip := udp\<rparr>)" using Cons.prems(1) by simp
  have ih: "client_sends P (ci\<lparr>ci_svrs := map Some ?cs\<rparr>) cmds udp =
      (ci\<lparr>ci_svrs := map (\<lambda>d. Some (d\<lparr>cn_out := cn_out d @
         stream_of (map (\<lambda>c. serialize P (c\<lparr>cmd_ip := udp\<rparr>)) cmds)\<rparr>)) ?cs\<rparr>, Ret None)"
    using Cons.IH [OF l, of "ci\<lparr>ci_svrs := map Some ?cs\<rparr>" ?cs] e by simp
  have s: "client_sends P ci (c # cmds) udp = client_sends P (ci\<lparr>ci_svrs := map Some ?cs\<rparr>) cmds udp"
    by (simp add: b)
  show ?case
    unfolding s ih by (simp add: stream_of_Cons m)
qed

text \<open>What a session makes of the stream of a client's commands.\<close>

definition request_for :: "pb_codec \<Rightarrow> string \<Rightarrow> string \<Rightarrow> pb_command \<Rightarrow> request" where
  "request_for P udp remote c =
     \<lparr>rq_command = serialize P (c\<lparr>cmd_ip := udp\<rparr>) @ [newline], rq_ip = takeWhile (\<lambda>ch. ch \<noteq> colon) remote\<rparr>"

lemma client_sends_session:
  assumes "\<forall>c \<in> set cmds. sendable P udp c"
    and "ci_svrs ci = map Some cs" and "\<forall>d \<in> set cs. cn_err d = None \<and> cn_out d = []"
  shows "\<exists>cs'. client_sends P ci cmds udp = (ci\<lparr>ci_svrs := map Some cs'\<rparr>, Ret None) \<and> length cs' = length cs \<and>
    (\<forall>d \<in> set cs'. session_read remote (cn_out d) = map (request_for P udp remote) cmds)"
proof -
  let ?ms = "map (\<lambda>c. serialize P (c\<lparr>cmd_ip := udp\<rparr>)) cmds"
  let ?cs = "map (\<lambda>d. d\<lparr>cn_out := cn_out d @ stream_of ?ms\<rparr>) cs"
  have s: "client_sends P ci cmds udp = (ci\<lparr>ci_svrs := map Some ?cs\<rparr>, Ret None)"
    using client_sends_stream [of cmds P udp ci cs] assms by (simp add: sendable_def Let_def comp_def)
  have "\<forall>m \<in> set ?ms. m \<noteq> [] \<and> newline \<notin> set m" using assms(1) by (auto simp: sendable_def Let_def)
  then have "session_read remote (stream_of ?ms) = map (request_for P udp remote) cmds"
    using session_read_stream [of ?ms "[]" remote] by (simp add: request_for_def)
  with s assms(3) show ?thesis by (intro exI [of _ ?cs]) auto
qed

lemma request_decodes:
  "sendable P udp c \<Longrightarrow>
     pb_unmarshal P (trim_suffix [newline] (rq_command (request_for P udp remote c))) = Inr (c\<lparr>cmd_ip := udp\<rparr>)"
  by (simp add: request_for_def sendable_def codec_law_def Let_def)

text \<open>From the client's broadcast to the replica's decoder: commands whose encodings have no newline
  byte, broadcast over fresh connections that accept the writes, arrive at the session of every
  replica, all of them, in order, each as one request that decodes to the command with the client's
  reply port.\<close>

lemma broadcast_arrives:
  assumes "\<forall>c \<in> set cmds. sendable P udp c"
    and "ci_svrs ci = map Some cs" and "\<forall>d \<in> set cs. cn_err d = None \<and> cn_out d = []"
  shows "\<exists>cs'. client_sends P ci cmds udp = (ci\<lparr>ci_svrs := map Some cs'\<rparr>, Ret None) \<and> length cs' = length cs \<and>
    (\<forall>d \<in> set cs'. map (\<lambda>rq. pb_unmarshal P (trim_suffix [newline] (rq_command rq))) (session_read remote (cn_out d)) =
                     map (\<lambda>c. Inr (c\<lparr>cmd_ip := udp\<rparr>)) cmds)"
proof -
  obtain cs' where c: "client_sends P ci cmds udp = (ci\<lparr>ci_svrs := map Some cs'\<rparr>, Ret None)" "length cs' = length cs"
    "\<forall>d \<in> set cs'. session_read remote (cn_out d) = map (request_for P udp remote) cmds"
    using client_sends_session [OF assms] by blast
  have "map (\<lambda>rq. pb_unmarshal P (trim_suffix [newline] (rq_command rq))) (map (request_for P udp remote) cmds) =
      map (\<lambda>c. Inr (c\<lparr>cmd_ip := udp\<rparr>)) cmds"
    using assms(1) request_decodes by (simp add: comp_def)
  with c show ?thesis by (intro exI [of _ cs']) (simp del: map_map)
qed

definition demo_client :: "client_info" where
  "demo_client = \<lparr>ci_rep = 2, ci_svrIps = [''a'', ''b''],
     ci_svrs = [Some \<lparr>cn_out = [], cn_err = None\<rparr>, Some \<lparr>cn_out = [], cn_err = None\<rparr>],
     ci_localip = ''10.0.0.7'', ci_udpport = 15000, ci_thinkingTimeMsec = 10\<rparr>"

text \<open>The framing is by newlines but messages are binary: a message with a newline byte inside (one
  whose text before and after it is not empty) reaches the server as two requests, neither of which
  is the message.\<close>

lemma newline_splits_message:
  assumes "a \<noteq> []" "b \<noteq> []" and "newline \<notin> set a" "newline \<notin> set b"
  shows "session_read remote (stream_of [a @ newline # b]) =
    [\<lparr>rq_command = a @ [newline], rq_ip = takeWhile (\<lambda>c. c \<noteq> colon) remote\<rparr>,
     \<lparr>rq_command = b @ [newline], rq_ip = takeWhile (\<lambda>c. c \<noteq> colon) remote\<rparr>]"
  using session_read_line [OF assms(3), of remote "b @ [newline]"] session_read_line [OF assms(4), of remote "[]"]
    session_read_tail [of "[]" remote] assms(1,2)
  by (simp add: stream_of_def)

text \<open>The identifier 10 of a command is such a byte in its encoding.\<close>

text \<open>Connecting and then broadcasting, when every dial succeeds: with more addresses than \<open>Rep\<close> says
  \<open>Connect\<close> panics; with fewer it returns, and the first broadcast panics on a nil connection; only
  with as many does the broadcast go through, to all.\<close>

lemma connect_then_broadcast:
  assumes "\<forall>v \<in> set (ci_svrIps ci). \<exists>c. dial v = Inr c \<and> cn_err c = None" and "0 \<le> ci_rep ci"
  shows "let n = int (length (ci_svrIps ci)); (ci', r) = client_connect dial ci; b = snd (client_broadcast ci' m)
    in if ci_rep ci < n then r = Panic (Lib_error ''index out of range'')
       else r = Ret None \<and>
         b = (if n = ci_rep ci then Ret None else Panic (Lib_error ''nil pointer dereference''))"
proof -
  let ?vs = "ci_svrIps ci" and ?rep = "nat (ci_rep ci)"
  have d: "\<forall>v \<in> set ?vs. \<exists>c. dial v = Inr c" using assms(1) by blast
  show ?thesis
  proof (cases "ci_rep ci < int (length ?vs)")
    case True
    then have "?rep < length ?vs" using assms(2) by linarith
    with connect_loop_too_many [OF d, of 0 "replicate ?rep None"] True assms(2) show ?thesis
      by (simp add: client_connect_def split_beta Let_def)
  next
    case False
    then have le: "length ?vs \<le> ?rep" by linarith
    let ?cs = "map (\<lambda>v. projr (dial v)) ?vs"
    have c: "client_connect dial ci = (ci\<lparr>ci_svrs := map Some ?cs @ replicate (?rep - length ?vs) None\<rparr>, Ret None)"
      using connect_loop_all [OF d, of 0 "replicate ?rep None"] le assms(2)
      by (simp add: client_connect_def comp_def)
    have e: "\<forall>c \<in> set ?cs. cn_err c = None" using assms(1) by force
    have nil: "snd (send_all msg (map Some cs @ replicate n None)) =
        (if n = 0 then Ret None else Panic (Lib_error ''nil pointer dereference''))"
      if "\<forall>c \<in> set cs. cn_err c = None" for msg cs n
      using that
    proof (induction cs)
      case Nil
      then show ?case by (cases n) simp_all
    qed (simp add: split_beta)
    have "?rep - length ?vs = 0 \<longleftrightarrow> int (length ?vs) = ci_rep ci" using le assms(2) by linarith
    with c nil [OF e] False show ?thesis
      by (simp add: client_broadcast_def split_beta Let_def)
  qed
qed

text \<open>A broadcast stops at the first connection whose write fails: the replicas before it have the
  message, it and all after it do not, and the error is returned.\<close>

lemma broadcast_stops:
  assumes "ci_svrs ci = map Some cs @ Some d # rest" and "\<forall>c \<in> set cs. cn_err c = None" and "cn_err d = Some e"
  shows "client_broadcast ci m =
    (ci\<lparr>ci_svrs := map (\<lambda>c. Some (c\<lparr>cn_out := cn_out c @ itoa (ci_udpport ci) @ ''-'' @ m\<rparr>)) cs @ Some d # rest\<rparr>,
     Ret (Some e))"
  using send_all_stops [OF assms(2,3)] assms(1) by (simp add: client_broadcast_def)

end
