(* ===== verification/Chat_Server.thy ===== *)
theory Chat_Server
  imports FSM_Interface
begin

text \<open>
  The chat server (\<open>chatRoom/server/\<close>): the state machine that broadcasts each committed message
  to the clients of this replica, the sessions' reader and writer, and the loop that proposes what
  clients send.
\<close>

section \<open>Sessions\<close>

text \<open>
  \<open>Session.Read\<close> on the bytes a connection carries before it is closed. The loop has no exit; at
  the end of the stream \<open>ReadString\<close> returns at once, with nothing, for ever.
\<close>

partial_function (option) chat_session_read :: "bytes \<Rightarrow> string list \<Rightarrow> string list option" where
  "chat_session_read s sent =
     (case read_line s of (line, ok, rest) \<Rightarrow>
        chat_session_read rest (if ok \<and> 1 < length line then sent @ [line] else sent))"

text \<open>The same loop, stopped after \<open>n\<close> turns: what it has put on the channel by then.\<close>

fun chat_session_turns :: "nat \<Rightarrow> bytes \<Rightarrow> string list \<Rightarrow> string list" where
  "chat_session_turns 0 s sent = sent"
| "chat_session_turns (Suc n) s sent =
     (case read_line s of (line, ok, rest) \<Rightarrow>
        chat_session_turns n rest (if ok \<and> 1 < length line then sent @ [line] else sent))"

lemma chat_session_no_return: "chat_session_read s sent \<noteq> Some r"
proof
  assume "chat_session_read s sent = Some r"
  then show False
  proof (rule chat_session_read.raw_induct [where P = "\<lambda>_ _ _. False", rotated])
    fix f s sent r
    assume IH: "\<And>s sent r. f s sent = Some r \<Longrightarrow> False"
      and eq: "(case read_line s of (line, ok, rest) \<Rightarrow>
          f rest (if ok \<and> 1 < length line then sent @ [line] else sent)) = Some r"
    from eq show False using IH by (auto split: prod.splits)
  qed
qed

lemma chat_session_turns_lines:
  "\<forall>l \<in> set ls. l \<noteq> [] \<and> newline \<notin> set l \<Longrightarrow> newline \<notin> set tl' \<Longrightarrow> length ls \<le> n \<Longrightarrow>
     chat_session_turns n (concat (map (\<lambda>l. l @ [newline]) ls) @ tl') sent =
       sent @ map (\<lambda>l. l @ [newline]) ls"
proof (induction ls arbitrary: n sent)
  case Nil
  have stop: "newline \<notin> set t \<Longrightarrow> chat_session_turns n t sent = sent" for t
    by (induction n arbitrary: t) (simp_all add: read_line_eof)
  show ?case using Nil.prems stop by simp
next
  case (Cons l ls)
  then obtain m where "n = Suc m" by (cases n) auto
  with Cons show ?case by (simp add: read_line_newline)
qed

section \<open>The server\<close>

text \<open>
  Per session what was put on its channel \<open>outgoing\<close>, in order, and whether \<open>Disconnect\<close>
  closed the channels; the messages that the leader handed to Raft.
\<close>

record chat_session =
  ch_outgoing :: "string list"
  ch_closed :: bool

record chat_server =
  cs_clients :: "chat_session list"
  cs_proposed :: "bytes list"

definition newChatServer :: chat_server where
  "newChatServer = \<lparr>cs_clients = [], cs_proposed = []\<rparr>"

definition chat_join :: "chat_server \<Rightarrow> chat_server" where
  "chat_join s = s\<lparr>cs_clients := cs_clients s @ [\<lparr>ch_outgoing = [], ch_closed = False\<rparr>]\<rparr>"

text \<open>One message from a client in the select of \<open>Listen\<close>: proposed by the leader only.\<close>

definition chat_receive :: "bool \<Rightarrow> chat_server \<Rightarrow> string \<Rightarrow> chat_server" where
  "chat_receive leader s data = (if leader then s\<lparr>cs_proposed := cs_proposed s @ [data]\<rparr> else s)"

text \<open>One turn of the select of \<open>Listen\<close>.\<close>

datatype chat_input = Chat_incoming string | Chat_conn

definition chat_listen :: "bool \<Rightarrow> chat_server \<Rightarrow> chat_input \<Rightarrow> chat_server" where
  "chat_listen leader s inp =
     (case inp of Chat_incoming data \<Rightarrow> chat_receive leader s data | Chat_conn \<Rightarrow> chat_join s)"

text \<open>\<open>Shutdown\<close> disconnects every session; closing a closed channel panics.\<close>

fun disconnect_all :: "chat_session list \<Rightarrow> chat_session list \<times> unit outcome" where
  "disconnect_all [] = ([], Ret ())"
| "disconnect_all (c # cs) =
     (if ch_closed c then (c # cs, Panic (Lib_error ''close of closed channel''))
      else (let (cs', r) = disconnect_all cs in (c\<lparr>ch_closed := True\<rparr> # cs', r)))"

definition chat_shutdown :: "chat_server \<Rightarrow> chat_server \<times> unit outcome" where
  "chat_shutdown s = (let (cs, r) = disconnect_all (cs_clients s) in (s\<lparr>cs_clients := cs\<rparr>, r))"

section \<open>The state machine\<close>

definition chat_message :: "raft_log \<Rightarrow> string" where
  "chat_message l = go_join [dash] [format_uint (log_index l), log_data l]"

text \<open>The loop of \<open>Apply\<close> over the clients: a send on a closed channel panics.\<close>

fun send_clients :: "string \<Rightarrow> chat_session list \<Rightarrow> chat_session list \<times> fsm_response outcome" where
  "send_clients msg [] = ([], Ret Resp_nil)"
| "send_clients msg (c # cs) =
     (if ch_closed c then (c # cs, Panic (Lib_error ''send on closed channel''))
      else (let (cs', r) = send_clients msg cs in (c\<lparr>ch_outgoing := ch_outgoing c @ [msg]\<rparr> # cs', r)))"

definition chat_apply :: "chat_server \<Rightarrow> raft_log \<Rightarrow> chat_server \<times> fsm_response outcome" where
  "chat_apply s l = (let (cs, r) = send_clients (chat_message l) (cs_clients s)
                     in (s\<lparr>cs_clients := cs\<rparr>, r))"

text \<open>What happens on a replica, in order: a client joins, or an entry is applied.\<close>

datatype chat_event = Chat_join | Chat_apply raft_log

fun chat_run :: "chat_server \<Rightarrow> chat_event list \<Rightarrow> chat_server" where
  "chat_run s [] = s"
| "chat_run s (Chat_join # evs) = chat_run (chat_join s) evs"
| "chat_run s (Chat_apply l # evs) = chat_run (fst (chat_apply s l)) evs"

fun applied_of :: "chat_event list \<Rightarrow> raft_log list" where
  "applied_of [] = []"
| "applied_of (Chat_join # evs) = applied_of evs"
| "applied_of (Chat_apply l # evs) = l # applied_of evs"

definition all_open :: "chat_server \<Rightarrow> bool" where
  "all_open s \<longleftrightarrow> (\<forall>c \<in> set (cs_clients s). \<not> ch_closed c)"

lemma send_clients_open:
  "\<forall>c \<in> set cs. \<not> ch_closed c \<Longrightarrow>
     send_clients msg cs = (map (\<lambda>c. c\<lparr>ch_outgoing := ch_outgoing c @ [msg]\<rparr>) cs, Ret Resp_nil)"
  by (induction cs) simp_all

lemma chat_apply_open:
  assumes "all_open s"
  shows "chat_apply s l =
     (s\<lparr>cs_clients := map (\<lambda>c. c\<lparr>ch_outgoing := ch_outgoing c @ [chat_message l]\<rparr>) (cs_clients s)\<rparr>,
      Ret Resp_nil)"
  using assms by (simp add: chat_apply_def all_open_def send_clients_open)

lemma chat_apply_all_open: "all_open s \<Longrightarrow> all_open (fst (chat_apply s l))"
  by (simp add: chat_apply_open) (simp add: all_open_def)

lemma chat_join_all_open: "all_open s \<Longrightarrow> all_open (chat_join s)"
  by (auto simp: all_open_def chat_join_def)

text \<open>A client that is there gets every entry applied from then on, in the order of the log.\<close>

lemma chat_run_client:
  "all_open s \<Longrightarrow> i < length (cs_clients s) \<Longrightarrow>
     i < length (cs_clients (chat_run s evs)) \<and>
     ch_outgoing (cs_clients (chat_run s evs) ! i) =
       ch_outgoing (cs_clients s ! i) @ map chat_message (applied_of evs)"
proof (induction s evs rule: chat_run.induct)
  case (1 s)
  then show ?case by simp
next
  case (2 s evs)
  then show ?case
    using chat_join_all_open [of s] by (simp add: chat_join_def nth_append)
next
  case (3 s l evs)
  then show ?case
    using chat_apply_all_open [of s l] by (simp add: chat_apply_open)
qed

lemma chat_run_append: "chat_run s (evs @ evs') = chat_run (chat_run s evs) evs'"
  by (induction s evs rule: chat_run.induct) simp_all

lemma chat_run_all_open: "all_open s \<Longrightarrow> all_open (chat_run s evs)"
  by (induction s evs rule: chat_run.induct) (simp_all add: chat_join_all_open chat_apply_all_open)

text \<open>The state machine is deterministic on the sessions' openness; nothing else is replicated.\<close>

definition chat_view :: "chat_server \<Rightarrow> unit" where "chat_view s = ()"

interpretation chat: raft_fsm chat_apply chat_view all_open
  by unfold_locales (erule chat_apply_all_open, simp_all add: chat_view_def chat_apply_open)

section \<open>Properties\<close>

text \<open>
  A client that joins at some moment is sent exactly the messages committed and applied from then on,
  each once, with its index, in the order of the log, whatever other clients join before or meanwhile.
\<close>

lemma client_messages:
  "ch_outgoing (cs_clients (chat_run newChatServer (before @ Chat_join # evs))
      ! length (cs_clients (chat_run newChatServer before))) = map chat_message (applied_of evs)"
proof -
  let ?s = "chat_run newChatServer before"
  have o: "all_open (chat_join ?s)"
    by (intro chat_join_all_open chat_run_all_open) (simp add: all_open_def newChatServer_def)
  have "length (cs_clients ?s) < length (cs_clients (chat_join ?s))" by (simp add: chat_join_def)
  from chat_run_client [OF o this, of evs] show ?thesis
    by (simp add: chat_run_append chat_join_def)
qed

text \<open>After \<open>Shutdown\<close> a server that had clients cannot apply a committed message and cannot be shut
  down again: both panic, on the closed channels.\<close>

lemma chat_shutdown_panics:
  assumes "all_open s" and "cs_clients s \<noteq> []"
  shows "snd (chat_shutdown s) = Ret () \<and>
    snd (chat_apply (fst (chat_shutdown s)) l) = Panic (Lib_error ''send on closed channel'') \<and>
    snd (chat_shutdown (fst (chat_shutdown s))) = Panic (Lib_error ''close of closed channel'')"
proof -
  have d: "\<forall>c \<in> set cs. \<not> ch_closed c \<Longrightarrow>
      disconnect_all cs = (map (\<lambda>c. c\<lparr>ch_closed := True\<rparr>) cs, Ret ())" for cs
    by (induction cs) simp_all
  have sh: "chat_shutdown s = (s\<lparr>cs_clients := map (\<lambda>c. c\<lparr>ch_closed := True\<rparr>) (cs_clients s)\<rparr>, Ret ())"
    using d [of "cs_clients s"] assms(1) by (simp add: chat_shutdown_def all_open_def)
  obtain c cs where cs: "cs_clients s = c # cs" using assms(2) by (cases "cs_clients s") auto
  show ?thesis
    unfolding sh by (simp add: chat_apply_def chat_shutdown_def cs)
qed

end
