(* ===== verification/Chat_Client.thy ===== *)
theory Chat_Client
  imports Go_IO
begin

text \<open>
  The chat client (\<open>chatRoom/client/\<close>): the bounded queue of messages that discards what it
  already holds, with its mutex, and the consumer that prints each message the queue accepts, so
  that the copies the replicas send are printed once.
\<close>

section \<open>The message queue\<close>

text \<open>\<open>mq_locked\<close>: the mutex is held; a Go mutex is not re-entrant.\<close>

record message_queue =
  mq_size :: int
  mq_data :: "string list"
  mq_sync :: bool
  mq_locked :: bool

text \<open>\<open>NewMQ\<close>: \<open>make([]string, size, size)\<close> is a slice of \<open>size\<close> empty strings.\<close>

definition newMQ :: "int \<Rightarrow> bool \<Rightarrow> message_queue outcome" where
  "newMQ size' synchronized =
     (if size' < 0 then Panic (Lib_error ''makeslice: len out of range'')
      else Ret \<lparr>mq_size = size', mq_data = replicate (nat size') [], mq_sync = synchronized,
                mq_locked = False\<rparr>)"

definition mq_lock :: "message_queue \<Rightarrow> message_queue outcome" where
  "mq_lock mq = (if mq_sync mq then (if mq_locked mq then Blocked else Ret (mq\<lparr>mq_locked := True\<rparr>))
                 else Ret mq)"

definition mq_unlock :: "message_queue \<Rightarrow> message_queue" where
  "mq_unlock mq = (if mq_sync mq then mq\<lparr>mq_locked := False\<rparr> else mq)"

text \<open>The loop of \<open>contains\<close>.\<close>

fun mq_contains :: "string list \<Rightarrow> string \<Rightarrow> bool" where
  "mq_contains [] data = False"
| "mq_contains (v # vs) data = (if v = data then True else mq_contains vs data)"

abbreviation err_full :: go_error where
  "err_full \<equiv> Errorf ''queue already full, consume some data before append'' []"
abbreviation err_equal :: go_error where
  "err_equal \<equiv> Errorf ''equal message already exists in queue, ready to be consumed'' []"

definition mq_add :: "message_queue \<Rightarrow> string \<Rightarrow> (message_queue \<times> go_error option) outcome" where
  "mq_add mq data =
     outcome_bind (mq_lock mq) (\<lambda>mq1.
       if mq_size mq1 - 1 \<le> int (length (mq_data mq1)) then Ret (mq_unlock mq1, Some err_full)
       else if \<not> mq_contains (mq_data mq1) data
         then Ret (mq_unlock (mq1\<lparr>mq_data := mq_data mq1 @ [data]\<rparr>), None)
       else Ret (mq_unlock mq1, Some err_equal))"

definition mq_consume :: "message_queue \<Rightarrow> (message_queue \<times> string) outcome" where
  "mq_consume mq =
     outcome_bind (mq_lock mq) (\<lambda>mq1.
     outcome_bind (go_index (mq_data mq1) 0) (\<lambda>first.
       Ret (mq_unlock (mq1\<lparr>mq_data := drop 1 (mq_data mq1)\<rparr>), first)))"

definition mq_pushPop :: "message_queue \<Rightarrow> string \<Rightarrow> (message_queue \<times> string \<times> go_error option) outcome" where
  "mq_pushPop mq data =
     outcome_bind (mq_lock mq) (\<lambda>mq1.
       if \<not> mq_contains (mq_data mq1) data then
         outcome_bind (if mq_size mq1 - 1 \<le> int (length (mq_data mq1)) then mq_consume mq1
                       else Ret (mq1, []))
           (\<lambda>(mq2, aux). Ret (mq_unlock (mq2\<lparr>mq_data := mq_data mq2 @ [data]\<rparr>), aux, None))
       else Ret (mq_unlock mq1, [], Some err_equal))"

lemma mq_contains_set: "mq_contains vs data \<longleftrightarrow> data \<in> set vs"
  by (induction vs) auto

text \<open>Without \<open>Sync\<close> the lock does nothing.\<close>

lemma mq_lock_async [simp]: "\<not> mq_sync mq \<Longrightarrow> mq_lock mq = Ret mq" "\<not> mq_sync mq \<Longrightarrow> mq_unlock mq = mq"
  by (simp_all add: mq_lock_def mq_unlock_def)

lemma mq_pushPop_full:
  assumes "\<not> mq_sync mq" and "mq_data mq = x # xs" and "mq_size mq - 1 \<le> int (length (mq_data mq))"
    and "data \<notin> set (mq_data mq)"
  shows "mq_pushPop mq data = Ret (mq\<lparr>mq_data := xs @ [data]\<rparr>, x, None)"
  using assms by (simp add: mq_pushPop_def mq_contains_set mq_consume_def)

lemma mq_pushPop_equal:
  "\<not> mq_sync mq \<Longrightarrow> data \<in> set (mq_data mq) \<Longrightarrow> mq_pushPop mq data = Ret (mq, [], Some err_equal)"
  by (simp add: mq_pushPop_def mq_contains_set)

section \<open>The client\<close>

text \<open>
  \<open>Consume\<close> over the messages that arrive on the channel: what it prints, and the queue. A panic
  ends it.
\<close>

fun chat_consume :: "message_queue \<Rightarrow> string list \<Rightarrow> (message_queue \<times> string list) outcome" where
  "chat_consume mq [] = Ret (mq, [])"
| "chat_consume mq (v # vs) =
     outcome_bind (mq_pushPop mq v) (\<lambda>(mq', aux, err).
       (case err of
          Some e \<Rightarrow> chat_consume mq' vs
        | None \<Rightarrow> outcome_bind (chat_consume mq' vs) (\<lambda>(mq'', printed). Ret (mq'', v # printed))))"

text \<open>
  \<open>Read\<close> of one connection: \<open>n\<close> turns of the loop on the bytes the server sends until it closes.
  The loop has no exit: at the end of the stream each turn reads nothing and goes on.
\<close>

fun chat_read :: "nat \<Rightarrow> bytes \<Rightarrow> string list" where
  "chat_read 0 s = []"
| "chat_read (Suc n) s =
     (case read_line s of (line, ok, rest) \<Rightarrow>
        (if ok \<and> 1 < length line then line # chat_read n rest else chat_read n rest))"

text \<open>The first occurrences, in order.\<close>

fun firsts :: "string list \<Rightarrow> string list" where
  "firsts [] = []"
| "firsts (v # vs) = v # filter (\<lambda>x. x \<noteq> v) (firsts vs)"

text \<open>What the queue holds after it accepted the messages \<open>pr\<close>, while they all fit.\<close>

definition mq_state :: "nat \<Rightarrow> string list \<Rightarrow> message_queue" where
  "mq_state n pr = \<lparr>mq_size = int n, mq_data = replicate (n - length pr) [] @ pr, mq_sync = False,
                    mq_locked = False\<rparr>"

lemma newMQ_state: "newMQ (int n) False = Ret (mq_state n [])"
  by (simp add: newMQ_def mq_state_def)

lemma mq_state_push:
  assumes "length pr < n" and "v \<noteq> []" and "v \<notin> set pr"
  shows "mq_pushPop (mq_state n pr) v = Ret (mq_state n (pr @ [v]), [], None)"
proof -
  have "mq_data (mq_state n pr) = [] # (replicate (n - Suc (length pr)) [] @ pr)"
    using assms(1) by (simp add: mq_state_def Suc_diff_Suc flip: replicate_Suc)
  moreover have "v \<notin> set (mq_data (mq_state n pr))" using assms(2,3) by (simp add: mq_state_def)
  moreover have "mq_size (mq_state n pr) - 1 \<le> int (length (mq_data (mq_state n pr)))"
    by (simp add: mq_state_def)
  moreover have "\<not> mq_sync (mq_state n pr)" by (simp add: mq_state_def)
  ultimately have "mq_pushPop (mq_state n pr) v =
      Ret ((mq_state n pr)\<lparr>mq_data := (replicate (n - Suc (length pr)) [] @ pr) @ [v]\<rparr>, [], None)"
    by (intro mq_pushPop_full) simp_all
  then show ?thesis by (simp add: mq_state_def)
qed

lemma mq_state_equal: "v \<in> set pr \<Longrightarrow> mq_pushPop (mq_state n pr) v = Ret (mq_state n pr, [], Some err_equal)"
  by (rule mq_pushPop_equal) (simp_all add: mq_state_def)

lemma chat_consume_state:
  "distinct pr \<Longrightarrow> card (set pr \<union> set vs) \<le> n \<Longrightarrow> [] \<notin> set vs \<Longrightarrow>
     chat_consume (mq_state n pr) vs =
       Ret (mq_state n (pr @ filter (\<lambda>v. v \<notin> set pr) (firsts vs)), filter (\<lambda>v. v \<notin> set pr) (firsts vs))"
proof (induction vs arbitrary: pr)
  case Nil
  then show ?case by simp
next
  case (Cons v vs)
  show ?case
  proof (cases "v \<in> set pr")
    case True
    then have "set pr \<union> set (v # vs) = set pr \<union> set vs" by auto
    moreover have "filter (\<lambda>x. x \<notin> set pr) (firsts (v # vs)) = filter (\<lambda>x. x \<notin> set pr) (firsts vs)"
      using True by (auto intro!: filter_cong)
    ultimately show ?thesis
      using Cons.prems Cons.IH [of pr] True by (simp add: mq_state_equal del: firsts.simps)
  next
    case False
    have "card (set pr) < card (set pr \<union> set (v # vs))"
      using False by (intro psubset_card_mono) auto
    then have "length pr < n" using Cons.prems(1,2) by (simp add: distinct_card)
    then have "mq_pushPop (mq_state n pr) v = Ret (mq_state n (pr @ [v]), [], None)"
      using Cons.prems(3) False by (intro mq_state_push) auto
    moreover have "card (set (pr @ [v]) \<union> set vs) \<le> n" using Cons.prems(2) by simp
    ultimately show ?thesis
      using Cons.prems Cons.IH [of "pr @ [v]"] False by (simp add: conj_commute)
  qed
qed

section \<open>Properties\<close>

lemma firsts_set: "set (firsts vs) = set vs"
  by (induction vs) auto

lemma firsts_distinct: "distinct (firsts vs)"
  by (induction vs) auto

text \<open>The client prints each message once. On whatever interleaving of the replicas' copies
  arrives, with no more different messages than the queue's size, the consumer prints every
  different message exactly once, in the order of the first copies, and never stops.\<close>

lemma chat_prints_once:
  assumes "card (set vs) \<le> n" and "[] \<notin> set vs"
  shows "\<exists>mq mq'. newMQ (int n) False = Ret mq \<and> chat_consume mq vs = Ret (mq', firsts vs) \<and>
    distinct (firsts vs) \<and> set (firsts vs) = set vs"
  using chat_consume_state [of "[]" vs n] assms newMQ_state [of n] firsts_set firsts_distinct by auto

text \<open>\<open>NewMQ\<close> makes a queue that is full from the start: \<open>Add\<close> refuses every message; and a queue
  made with \<open>Sync\<close> deadlocks on the first \<open>PushPop\<close>, which calls \<open>Consume\<close> with the mutex held,
  while one of size 0 without it panics there.\<close>

lemma new_queue_is_full:
  assumes "newMQ n synchronized = Ret mq" and "data \<noteq> []"
  shows "mq_add mq data = Ret (mq, Some err_full) \<and>
    (synchronized \<longrightarrow> mq_pushPop mq data = Blocked) \<and>
    (\<not> synchronized \<and> n = 0 \<longrightarrow> mq_pushPop mq data = Panic (Lib_error ''index out of range''))"
proof -
  have mq: "mq = \<lparr>mq_size = n, mq_data = replicate (nat n) [], mq_sync = synchronized, mq_locked = False\<rparr>" "0 \<le> n"
    using assms(1) by (auto simp: newMQ_def split: if_splits)
  show ?thesis
    using mq assms(2)
    by (auto simp: mq_add_def mq_pushPop_def mq_consume_def mq_lock_def mq_unlock_def mq_contains_set)
qed

end
