(* ===== verification/Web_Store.thy ===== *)
theory Web_Store
  imports KV_Server Membership
begin

text \<open>
  The store of \<open>webkvstore/store\<close>: a map replicated by Raft whose commands are JSON, with
  \<open>Get\<close> read from the replica's own map, \<open>Set\<close> and \<open>Delete\<close> through the log, \<open>Join\<close>,
  and the state machine. It provides the interface \<open>Store\<close> of \<open>webkvstore/webserver\<close>, stated
  here as a locale.
\<close>

section \<open>State\<close>

record web_command =
  wc_op :: string
  wc_key :: string
  wc_value :: string

text \<open>
  encoding/json on the command struct: what the store uses of it, and its value for the JSON of the standard
  library. The tags are \<open>omitempty\<close>; a member of the text belongs to the field whose name it equals up to case,
  where the Kelvin sign and the long s count as k and s; a null leaves the field as it is, other members
  are skipped, and \<open>Unmarshal\<close> refuses what follows the value.
\<close>

record web_codec =
  wc_marshal :: "web_command \<Rightarrow> go_error + bytes"
  wc_unmarshal :: "bytes \<Rightarrow> go_error + web_command"

definition kelvin_sign :: bytes where "kelvin_sign = map char_of [0xE2, 0x84, 0xAA :: nat]"
definition long_s :: bytes where "long_s = map char_of [0xC5, 0xBF :: nat]"

fun folds_to :: "string \<Rightarrow> bytes \<Rightarrow> bool" where
  "folds_to [] t = (t = [])"
| "folds_to (c # cs) t =
     (case t of [] \<Rightarrow> False
      | d # ds \<Rightarrow>
          (if octet d < 0x80 then (d = c \<or> octet d + 32 = octet c) \<and> folds_to cs ds
           else if c = CHR ''k'' \<and> take 3 t = kelvin_sign then folds_to cs (drop 3 t)
           else c = CHR ''s'' \<and> take 2 t = long_s \<and> folds_to cs (drop 2 t)))"

definition web_field :: "bytes \<Rightarrow> (string \<Rightarrow> web_command \<Rightarrow> web_command) option" where
  "web_field k =
     (if folds_to ''op'' k then Some (\<lambda>t. wc_op_update (\<lambda>_. t))
      else if folds_to ''key'' k then Some (\<lambda>t. wc_key_update (\<lambda>_. t))
      else if folds_to ''value'' k then Some (\<lambda>t. wc_value_update (\<lambda>_. t)) else None)"

fun web_fields :: "web_command \<Rightarrow> (bytes \<times> json) list \<Rightarrow> web_command option" where
  "web_fields c [] = Some c"
| "web_fields c ((k, v) # ps) =
     (case web_field k of None \<Rightarrow> web_fields c ps
      | Some put \<Rightarrow>
          (case v of JStr t \<Rightarrow> web_fields (put t c) ps | JNull \<Rightarrow> web_fields c ps | _ \<Rightarrow> None))"

definition web_command_zero :: web_command where
  "web_command_zero = \<lparr>wc_op = [], wc_key = [], wc_value = []\<rparr>"

definition go_web_marshal :: "web_command \<Rightarrow> bytes" where
  "go_web_marshal c = json_object (map (\<lambda>(k, v). (k, json_text v))
     (filter (\<lambda>(k, v). v \<noteq> []) [(''op'', wc_op c), (''key'', wc_key c), (''value'', wc_value c)]))"

definition go_web_unmarshal :: "bytes \<Rightarrow> go_error + web_command" where
  "go_web_unmarshal b =
     (case json_parse b of None \<Rightarrow> Inl err_json
      | Some (v, rest) \<Rightarrow>
          (if skip_space rest \<noteq> [] then Inl err_json
           else (case v of
                   JNull \<Rightarrow> Inr web_command_zero
                 | JObj ps \<Rightarrow> (case web_fields web_command_zero ps of None \<Rightarrow> Inl err_json | Some c \<Rightarrow> Inr c)
                 | _ \<Rightarrow> Inl err_json)))"

definition go_web_codec :: web_codec where
  "go_web_codec = \<lparr>wc_marshal = (\<lambda>c. Inr (go_web_marshal c)), wc_unmarshal = go_web_unmarshal\<rparr>"

text \<open>What the log carries of a command: its strings with U+FFFD for each byte that begins no rune.\<close>

lemma web_field_names [simp]:
  "web_field ''op'' = Some (\<lambda>t. wc_op_update (\<lambda>_. t))"
  "web_field ''key'' = Some (\<lambda>t. wc_key_update (\<lambda>_. t))"
  "web_field ''value'' = Some (\<lambda>t. wc_value_update (\<lambda>_. t))"
  by (simp_all add: web_field_def)

lemma utf8_fix_ascii: "\<forall>c \<in> set s. octet c < 0x80 \<Longrightarrow> utf8_fix s = s"
  by (simp add: utf8_fix_valid utf8_valid_ascii)

lemma utf8_fix_names [simp]:
  "utf8_fix ''op'' = ''op''" "utf8_fix ''key'' = ''key''" "utf8_fix ''value'' = ''value''"
  "utf8_fix ''set'' = ''set''" "utf8_fix ''delete'' = ''delete''" "utf8_fix [] = []"
  by (simp_all add: utf8_fix_ascii)

lemma go_web_roundtrip:
  "go_web_unmarshal (go_web_marshal c) =
     Inr \<lparr>wc_op = utf8_fix (wc_op c), wc_key = utf8_fix (wc_key c), wc_value = utf8_fix (wc_value c)\<rparr>"
proof -
  let ?ps = "filter (\<lambda>(k, v). v \<noteq> []) [(''op'', wc_op c), (''key'', wc_key c), (''value'', wc_value c)]"
  have p: "json_parse (go_web_marshal c) = Some (JObj (map (\<lambda>(k, v). (utf8_fix k, JStr (utf8_fix v))) ?ps), [])"
    using json_parse_object [of ?ps "[]"] by (simp only: go_web_marshal_def append_Nil2)
  show ?thesis unfolding go_web_unmarshal_def p
    by (simp add: skip_space_def web_command_zero_def)
qed

datatype journey_op = Journey_Get | Journey_Set | Journey_Delete

text \<open>
  The store: its map, the lines it gave to the recovery log (\<open>journey.PutFormat\<close>), the state of
  Raft as this replica sees it (its role, the results of the coming calls of \<open>raft.Apply\<close>, how
  many it made, and the cluster that membership calls act on).
\<close>

record 'r web_store =
  ws_m :: "string \<rightharpoonup> string"
  ws_recov :: "(journey_op \<times> string) list"
  ws_role :: raft_role
  ws_futures :: "nat \<Rightarrow> apply_future"
  ws_calls :: nat
  ws_cluster :: 'r

text \<open>\<open>New\<close>, with a recovery log of its own and Raft as \<open>Open\<close> set it up.\<close>

definition web_new :: "raft_role \<Rightarrow> (nat \<Rightarrow> apply_future) \<Rightarrow> 'r \<Rightarrow> 'r web_store" where
  "web_new role futures cluster =
     \<lparr>ws_m = Map.empty, ws_recov = [], ws_role = role, ws_futures = futures, ws_calls = 0,
      ws_cluster = cluster\<rparr>"

section \<open>The state machine\<close>

definition web_applySet :: "'r web_store \<Rightarrow> string \<Rightarrow> string \<Rightarrow> 'r web_store" where
  "web_applySet s key val = s\<lparr>ws_m := (ws_m s)(key \<mapsto> val)\<rparr>"

definition web_applyDelete :: "'r web_store \<Rightarrow> string \<Rightarrow> 'r web_store" where
  "web_applyDelete s key = s\<lparr>ws_m := (ws_m s)(key := None)\<rparr>"

definition web_apply :: "web_codec \<Rightarrow> 'r web_store \<Rightarrow> raft_log \<Rightarrow> 'r web_store \<times> fsm_response outcome" where
  "web_apply C s l =
     (case wc_unmarshal C (log_data l) of
        Inl e \<Rightarrow> (s, Panic (Errorf ''failed to unmarshal command: %s'' []))
      | Inr c \<Rightarrow>
          (if wc_op c = ''set'' then (web_applySet s (wc_key c) (wc_value c), Ret Resp_nil)
           else if wc_op c = ''delete'' then (web_applyDelete s (wc_key c), Ret Resp_nil)
           else (s, Panic (Errorf ''unrecognized command op: %s'' [wc_op c]))))"

definition web_snapshot :: "'r web_store \<Rightarrow> string \<rightharpoonup> string" where
  "web_snapshot s = ws_m s"

definition web_persist :: "json_lib \<Rightarrow> (string \<rightharpoonup> string) \<Rightarrow> sink \<Rightarrow> persisted" where
  "web_persist J store k = persist_bytes (json_marshal J store) k"

definition web_restore :: "json_lib \<Rightarrow> 'r web_store \<Rightarrow> bytes \<Rightarrow> 'r web_store \<times> go_error option" where
  "web_restore J s rc =
     (case json_decode J rc of Inl e \<Rightarrow> (s, Some e) | Inr o' \<Rightarrow> (s\<lparr>ws_m := o'\<rparr>, None))"

section \<open>The operations\<close>

definition web_get :: "'r web_store \<Rightarrow> string \<Rightarrow> 'r web_store \<times> (string \<times> go_error option) outcome" where
  "web_get s key =
     (s\<lparr>ws_recov := ws_recov s @ [(Journey_Get, ''Get key: '' @ key)]\<rparr>,
      Ret (case ws_m s key of None \<Rightarrow> [] | Some v \<Rightarrow> v, None))"

text \<open>
  \<open>raft.Apply\<close> of a message, and its future's error; when the entry is committed the state
  machine of this replica has applied it.
\<close>

definition web_raft_apply :: "web_codec \<Rightarrow> 'r web_store \<Rightarrow> bytes \<Rightarrow> 'r web_store \<times> go_error option outcome" where
  "web_raft_apply C s b =
     (let s1 = s\<lparr>ws_calls := Suc (ws_calls s)\<rparr>
      in (case ws_futures s (ws_calls s) of
            Future_error e \<Rightarrow> (s1, Ret (Some e))
          | Future_index i \<Rightarrow>
              (let (s2, r) = web_apply C s1 \<lparr>log_index = i, log_data = b\<rparr>
               in (s2, outcome_bind r (\<lambda>_. Ret None)))))"

text \<open>\<open>Set\<close> and \<open>Delete\<close>: the same steps, with the command and the line of the recovery log.\<close>

definition web_update :: "web_codec \<Rightarrow> 'r web_store \<Rightarrow> web_command \<Rightarrow> journey_op \<times> string
    \<Rightarrow> 'r web_store \<times> go_error option outcome" where
  "web_update C s c line =
     (if ws_role s \<noteq> Leader then (s, Ret (Some (Errorf ''not leader'' [])))
      else (case wc_marshal C c of
          Inl e \<Rightarrow> (s, Ret (Some e))
        | Inr b \<Rightarrow>
            (case web_raft_apply C s b of
               (s', Ret None) \<Rightarrow> (s'\<lparr>ws_recov := ws_recov s' @ [line]\<rparr>, Ret None)
             | (s', r) \<Rightarrow> (s', r))))"

definition web_set :: "web_codec \<Rightarrow> 'r web_store \<Rightarrow> string \<Rightarrow> string \<Rightarrow> 'r web_store \<times> go_error option outcome" where
  "web_set C s key val =
     web_update C s \<lparr>wc_op = ''set'', wc_key = key, wc_value = val\<rparr>
       (Journey_Set, ''Set key: '' @ key @ '', value: '' @ val)"

definition web_delete :: "web_codec \<Rightarrow> 'r web_store \<Rightarrow> string \<Rightarrow> 'r web_store \<times> go_error option outcome" where
  "web_delete C s key =
     web_update C s \<lparr>wc_op = ''delete'', wc_key = key, wc_value = []\<rparr>
       (Journey_Delete, ''Delete key: '' @ key)"

definition web_join :: "'r raft_api \<Rightarrow> 'r web_store \<Rightarrow> string \<Rightarrow> string \<Rightarrow> 'r web_store \<times> go_error option outcome" where
  "web_join A s nodeID addr =
     (let (r', err) = joinRaft A nodeID addr True (ws_cluster s)
      in (s\<lparr>ws_cluster := r'\<rparr>, Ret err))"

section \<open>The interface of the web server\<close>

text \<open>The Go interface \<open>Store\<close>: a value of it is its four methods.\<close>

record 's store_if =
  if_get :: "'s \<Rightarrow> string \<Rightarrow> 's \<times> (string \<times> go_error option) outcome"
  if_set :: "'s \<Rightarrow> string \<Rightarrow> string \<Rightarrow> 's \<times> go_error option outcome"
  if_delete :: "'s \<Rightarrow> string \<Rightarrow> 's \<times> go_error option outcome"
  if_join :: "'s \<Rightarrow> string \<Rightarrow> string \<Rightarrow> 's \<times> go_error option outcome"

text \<open>
  What a client of the interface relies on: \<open>Get\<close> reads the map and returns the empty string for
  a missing key, \<open>Set\<close> and \<open>Delete\<close> change one key when they return no error and nothing when
  they return one, \<open>Join\<close> leaves the map alone. The updates are promised for the plain strings, the
  ones the encoding of commands keeps: encoding/json replaces bytes that are not UTF-8.
\<close>

locale key_value_service =
  fixes I :: "'s store_if"
    and contents :: "'s \<Rightarrow> (string \<rightharpoonup> string)"
    and ready :: "'s \<Rightarrow> bool"
    and plain :: "string \<Rightarrow> bool"
  assumes get_value: "ready s \<Longrightarrow> snd (if_get I s k) = Ret (case contents s k of None \<Rightarrow> [] | Some v \<Rightarrow> v, None)"
    and get_contents: "ready s \<Longrightarrow> contents (fst (if_get I s k)) = contents s"
    and get_ready: "ready s \<Longrightarrow> ready (fst (if_get I s k))"
    and set_ok: "ready s \<Longrightarrow> plain k \<Longrightarrow> plain v \<Longrightarrow> if_set I s k v = (s', Ret None) \<Longrightarrow> contents s' = (contents s)(k \<mapsto> v)"
    and set_err: "ready s \<Longrightarrow> plain k \<Longrightarrow> plain v \<Longrightarrow> if_set I s k v = (s', Ret (Some e)) \<Longrightarrow> contents s' = contents s"
    and set_returns: "ready s \<Longrightarrow> \<exists>r. snd (if_set I s k v) = Ret r"
    and set_ready: "ready s \<Longrightarrow> ready (fst (if_set I s k v))"
    and delete_ok: "ready s \<Longrightarrow> plain k \<Longrightarrow> if_delete I s k = (s', Ret None) \<Longrightarrow> contents s' = (contents s)(k := None)"
    and delete_err: "ready s \<Longrightarrow> plain k \<Longrightarrow> if_delete I s k = (s', Ret (Some e)) \<Longrightarrow> contents s' = contents s"
    and delete_returns: "ready s \<Longrightarrow> \<exists>r. snd (if_delete I s k) = Ret r"
    and delete_ready: "ready s \<Longrightarrow> ready (fst (if_delete I s k))"
    and join_contents: "ready s \<Longrightarrow> contents (fst (if_join I s n a)) = contents s"
    and join_returns: "ready s \<Longrightarrow> \<exists>r. snd (if_join I s n a) = Ret r"
    and join_ready: "ready s \<Longrightarrow> ready (fst (if_join I s n a))"
begin

lemma set_get:
  assumes "ready s" and "plain k" "plain v" and "if_set I s k v = (s', Ret None)"
  shows "snd (if_get I s' k) = Ret (v, None)"
proof -
  have "ready s'" using set_ready [OF assms(1), of k v] assms(4) by simp
  with get_value [of s' k] set_ok [OF assms] show ?thesis by simp
qed

lemma delete_get:
  assumes "ready s" and "plain k" and "if_delete I s k = (s', Ret None)"
  shows "snd (if_get I s' k) = Ret ([], None)"
proof -
  have "ready s'" using delete_ready [OF assms(1), of k] assms(3) by simp
  with get_value [of s' k] delete_ok [OF assms] show ?thesis by simp
qed

end

definition web_store_if :: "web_codec \<Rightarrow> 'r raft_api \<Rightarrow> 'r web_store store_if" where
  "web_store_if C A =
     \<lparr>if_get = web_get, if_set = web_set C, if_delete = web_delete C, if_join = web_join A\<rparr>"

text \<open>
  What the store needs of the codec: a command it encoded decodes to one of the same operation, or
  a committed command could panic, and to the command itself when its strings are plain.
\<close>

definition web_ready :: "web_codec \<Rightarrow> (string \<Rightarrow> bool) \<Rightarrow> 'r web_store \<Rightarrow> bool" where
  "web_ready C plain s \<longleftrightarrow>
     plain [] \<and>
     (\<forall>c b. wc_op c \<in> {''set'', ''delete''} \<and> wc_marshal C c = Inr b \<longrightarrow>
        (\<exists>c'. wc_unmarshal C b = Inr c' \<and> wc_op c' = wc_op c \<and>
           (plain (wc_key c) \<and> plain (wc_value c) \<longrightarrow> c' = c)))"

lemma web_ready_decodes:
  assumes "web_ready C plain s" and "wc_op c \<in> {''set'', ''delete''}" and "wc_marshal C c = Inr b"
  shows "\<exists>c'. wc_unmarshal C b = Inr c' \<and> wc_op c' = wc_op c"
    and "plain (wc_key c) \<Longrightarrow> plain (wc_value c) \<Longrightarrow> wc_unmarshal C b = Inr c"
  using assms unfolding web_ready_def by blast+

lemma go_web_ready: "web_ready go_web_codec utf8_valid s"
  by (auto simp: web_ready_def go_web_codec_def go_web_roundtrip utf8_fix_valid)

text \<open>The two ways an update of a well-behaved store ends.\<close>

definition web_updated :: "'r web_store \<Rightarrow> web_command \<Rightarrow> 'r web_store \<times> go_error option outcome \<Rightarrow> bool" where
  "web_updated s c res \<longleftrightarrow>
     (\<exists>e. snd res = Ret (Some e) \<and> ws_m (fst res) = ws_m s) \<or>
     (snd res = Ret None \<and>
      ws_m (fst res) = (ws_m s)(wc_key c := (if wc_op c = ''set'' then Some (wc_value c) else None)))"

lemma web_update_updated:
  assumes "web_ready C plain s" and "plain (wc_key c)" "plain (wc_value c)"
    and "wc_op c = ''set'' \<or> wc_op c = ''delete''"
  shows "web_updated s c (web_update C s c line)"
proof (cases "ws_role s = Leader")
  case False
  then show ?thesis by (simp add: web_update_def web_updated_def)
next
  case True
  show ?thesis
  proof (cases "wc_marshal C c")
    case (Inl e)
    with True show ?thesis by (simp add: web_update_def web_updated_def)
  next
    case (Inr b)
    have u: "wc_unmarshal C b = Inr c" using web_ready_decodes(2) [OF assms(1) _ Inr assms(2,3)] assms(4) by simp
    show ?thesis
    proof (cases "ws_futures s (ws_calls s)")
      case (Future_error e)
      with True Inr show ?thesis
        by (simp add: web_update_def web_raft_apply_def web_updated_def Let_def)
    next
      case (Future_index i)
      with True Inr u assms(4) show ?thesis
        by (auto simp: web_update_def web_raft_apply_def web_apply_def web_applySet_def
            web_applyDelete_def web_updated_def Let_def)
    qed
  qed
qed

lemma web_update_returns:
  assumes "web_ready C plain s" and "wc_op c \<in> {''set'', ''delete''}"
  shows "\<exists>r. snd (web_update C s c line) = Ret r"
proof (cases "wc_marshal C c")
  case (Inl e)
  then show ?thesis by (simp add: web_update_def)
next
  case (Inr b)
  from web_ready_decodes(1) [OF assms Inr] obtain c' where c': "wc_unmarshal C b = Inr c'" "wc_op c' = wc_op c" by blast
  show ?thesis
    using Inr c' assms(2)
    by (cases "ws_futures s (ws_calls s)")
       (auto simp: web_update_def web_raft_apply_def web_apply_def Let_def)
qed

lemma web_set_updated:
  "web_ready C plain s \<Longrightarrow> plain k \<Longrightarrow> plain v \<Longrightarrow>
   web_updated s \<lparr>wc_op = ''set'', wc_key = k, wc_value = v\<rparr> (web_set C s k v)"
  unfolding web_set_def by (rule web_update_updated [where plain = plain]) simp_all

lemma web_delete_updated:
  "web_ready C plain s \<Longrightarrow> plain k \<Longrightarrow>
   web_updated s \<lparr>wc_op = ''delete'', wc_key = k, wc_value = []\<rparr> (web_delete C s k)"
  unfolding web_delete_def by (rule web_update_updated [where plain = plain]) (simp_all add: web_ready_def)

interpretation web: key_value_service "web_store_if C A" ws_m "web_ready C plain" plain
  for C :: web_codec and plain and A :: "'r raft_api"
proof unfold_locales
  fix s s' :: "'r web_store" and k v e
  assume r: "web_ready C plain s"
  show "\<exists>x. snd (if_set (web_store_if C A) s k v) = Ret x" "\<exists>x. snd (if_delete (web_store_if C A) s k) = Ret x"
    using web_update_returns [OF r] by (simp_all add: web_store_if_def web_set_def web_delete_def)
  assume k: "plain k"
  show "if_delete (web_store_if C A) s k = (s', Ret None) \<Longrightarrow> ws_m s' = (ws_m s)(k := None)"
    using web_delete_updated [OF r k] by (auto simp: web_store_if_def web_updated_def)
  show "if_delete (web_store_if C A) s k = (s', Ret (Some e)) \<Longrightarrow> ws_m s' = ws_m s"
    using web_delete_updated [OF r k] by (auto simp: web_store_if_def web_updated_def)
  assume v: "plain v"
  show "if_set (web_store_if C A) s k v = (s', Ret None) \<Longrightarrow> ws_m s' = (ws_m s)(k \<mapsto> v)"
    using web_set_updated [OF r k v] by (auto simp: web_store_if_def web_updated_def)
  show "if_set (web_store_if C A) s k v = (s', Ret (Some e)) \<Longrightarrow> ws_m s' = ws_m s"
    using web_set_updated [OF r k v] by (auto simp: web_store_if_def web_updated_def)
qed (simp_all add: web_store_if_def web_get_def web_ready_def web_join_def split_beta Let_def)

text \<open>It is also a state machine of the first two contracts.\<close>

definition web_any :: "'r web_store \<Rightarrow> bool" where "web_any s = True"

interpretation web_fsm: raft_fsm "web_apply C :: 'r web_store \<Rightarrow> _" ws_m web_any
  for C :: web_codec
  by unfold_locales
     (simp_all add: web_any_def web_apply_def web_applySet_def web_applyDelete_def split: sum.split)

definition web_snapshot_bytes :: "json_lib \<Rightarrow> 'r web_store \<Rightarrow> bytes option" where
  "web_snapshot_bytes J s =
     ps_written (web_persist J (web_snapshot s) \<lparr>sk_write_err = None, sk_close_err = None\<rparr>)"

interpretation web_snap: raft_fsm_snapshot "web_apply C :: 'r web_store \<Rightarrow> _" ws_m web_any
    "web_snapshot_bytes J" "web_restore J" "\<lambda>s b. json_law J (ws_m s) b"
  for C :: web_codec and J :: json_lib
  by unfold_locales (simp_all add: web_any_def web_restore_def json_law_def)

section \<open>The stores of the witnesses\<close>

text \<open>A leader whose every proposal is committed.\<close>

definition demo_web :: "unit web_store" where
  "demo_web = web_new Leader (\<lambda>n. Future_index (word_of_nat n)) ()"

definition demo_web_api :: "unit raft_api" where
  "demo_web_api = \<lparr>api_getConfiguration = (\<lambda>_. Inr []), api_removeServer = (\<lambda>_ r. (r, None)),
     api_addVoter = (\<lambda>_ _ r. (r, None)), api_addNonvoter = (\<lambda>_ _ r. (r, None))\<rparr>"

end
