(* ===== verification/Web_Service.thy ===== *)
theory Web_Service
  imports Web_Store
begin

text \<open>
  The HTTP server of \<open>webkvstore/webserver\<close> (\<open>ServeHTTP\<close>, \<open>handleKeyRequest\<close>, \<open>handleJoin\<close>)
  over any value of the interface \<open>Store\<close>, and the join request a node of \<open>webkvstore\<close> sends
  when it starts. The effect of a request on the contents of the store is proved inside the locale
  of the interface.
\<close>

section \<open>Requests and responses\<close>

record http_request =
  rq_method :: string
  rq_path :: string
  rq_body :: bytes

text \<open>
  A \<open>ResponseWriter\<close>: the status fixed by the first \<open>WriteHeader\<close>, later calls are ignored, and
  writing a body fixes status 200 if none was.
\<close>

record http_response =
  rs_status :: "nat option"
  rs_body :: bytes

definition no_response :: http_response where
  "no_response = \<lparr>rs_status = None, rs_body = []\<rparr>"

definition writeHeader :: "http_response \<Rightarrow> nat \<Rightarrow> http_response" where
  "writeHeader w code = (case rs_status w of None \<Rightarrow> w\<lparr>rs_status := Some code\<rparr> | Some _ \<Rightarrow> w)"

definition writeString :: "http_response \<Rightarrow> bytes \<Rightarrow> http_response" where
  "writeString w b = (writeHeader w 200)\<lparr>rs_body := rs_body w @ b\<rparr>"

text \<open>The status a client sees when the handler has returned.\<close>

definition final_status :: "http_response \<Rightarrow> nat" where
  "final_status w = (case rs_status w of None \<Rightarrow> 200 | Some c \<Rightarrow> c)"

text \<open>
  encoding/json as the handlers use it: decoding a body into a map, given as its pairs in the order in
  which \<open>range\<close> visits them, and the text of a map with one pair. Go fixes no order for \<open>range\<close>, so its
  value for the JSON of the standard library takes one as an argument: any enumeration of the keys.
\<close>

record web_json =
  wj_decode :: "bytes \<Rightarrow> go_error + (string \<times> string) list"
  wj_single :: "string \<Rightarrow> string \<Rightarrow> go_error + bytes"

definition range_order :: "((string \<rightharpoonup> string) \<Rightarrow> string list) \<Rightarrow> bool" where
  "range_order order \<longleftrightarrow> (\<forall>m. finite (dom m) \<longrightarrow> distinct (order m) \<and> set (order m) = dom m)"

definition go_web_json :: "((string \<rightharpoonup> string) \<Rightarrow> string list) \<Rightarrow> web_json" where
  "go_web_json order = \<lparr>wj_decode = (\<lambda>b. case json_decode_map json_string b of Inl e \<Rightarrow> Inl e
       | Inr m \<Rightarrow> Inr (map (\<lambda>k. (k, the (m k))) (order m))),
     wj_single = (\<lambda>k v. Inr (json_marshal_map json_text [k \<mapsto> v]))\<rparr>"

lemma range_order_sorted: "range_order (\<lambda>m. sorted_list_of_set (dom m))"
  by (simp add: range_order_def)

lemma go_web_decode:
  assumes "range_order order" and "json_decode_map json_string b = Inr m"
  obtains ps where "wj_decode (go_web_json order) b = Inr ps" "distinct (map fst ps)" "map_of ps = m"
    "\<forall>p \<in> set ps. utf8_valid (fst p) \<and> utf8_valid (snd p)"
proof
  let ?ps = "map (\<lambda>k. (k, the (m k))) (order m)"
  have o: "distinct (order m)" "set (order m) = dom m"
    using assms(1) json_decode_map_strings(1) [OF assms(2)] by (simp_all add: range_order_def)
  show "wj_decode (go_web_json order) b = Inr ?ps" by (simp add: go_web_json_def assms(2))
  show "distinct (map fst ?ps)" using o(1) by (simp add: comp_def)
  show "map_of ?ps = m" by (simp add: map_of_map_keys o(2))
  show "\<forall>p \<in> set ?ps. utf8_valid (fst p) \<and> utf8_valid (snd p)"
    using o(2) json_decode_map_strings(2,3) [OF assms(2)] by fastforce
qed

section \<open>The handlers\<close>

definition getKey :: "string \<Rightarrow> string" where
  "getKey path = (let parts = go_split (CHR ''/'') path in if length parts \<noteq> 3 then [] else parts ! 2)"

definition handleGet :: "web_json \<Rightarrow> 's store_if \<Rightarrow> 's \<Rightarrow> http_request \<Rightarrow> http_response
    \<Rightarrow> 's \<times> http_response outcome" where
  "handleGet J I s r w =
     (let k = getKey (rq_path r);
          w1 = (if k = [] then writeHeader w 400 else w)
      in (case if_get I s k of
            (s', Ret (v, None)) \<Rightarrow>
              (case wj_single J k v of
                 Inl e \<Rightarrow> (s', Ret (writeHeader w1 500))
               | Inr b \<Rightarrow> (s', Ret (writeString w1 b)))
          | (s', Ret (v, Some e)) \<Rightarrow> (s', Ret (writeHeader w1 500))
          | (s', Panic e) \<Rightarrow> (s', Panic e)
          | (s', Fatal e) \<Rightarrow> (s', Fatal e)
          | (s', Blocked) \<Rightarrow> (s', Blocked)))"

text \<open>The loop of \<open>POST\<close> over the decoded map: the first failing \<open>Set\<close> ends it.\<close>

fun set_pairs :: "'s store_if \<Rightarrow> 's \<Rightarrow> (string \<times> string) list \<Rightarrow> 's \<times> go_error option outcome" where
  "set_pairs I s [] = (s, Ret None)"
| "set_pairs I s ((k, v) # ps) =
     (case if_set I s k v of
        (s', Ret None) \<Rightarrow> set_pairs I s' ps
      | (s', r) \<Rightarrow> (s', r))"

text \<open>An update's error becomes status 500.\<close>

definition report :: "http_response \<Rightarrow> go_error option outcome \<Rightarrow> http_response outcome" where
  "report w r =
     outcome_bind r (\<lambda>err. Ret (case err of None \<Rightarrow> w | Some e \<Rightarrow> writeHeader w 500))"

definition handlePost :: "web_json \<Rightarrow> 's store_if \<Rightarrow> 's \<Rightarrow> http_request \<Rightarrow> http_response
    \<Rightarrow> 's \<times> http_response outcome" where
  "handlePost J I s r w =
     (case wj_decode J (rq_body r) of
        Inl e \<Rightarrow> (s, Ret (writeHeader w 400))
      | Inr m \<Rightarrow> (let (s', res) = set_pairs I s m in (s', report w res)))"

definition handleDelete :: "'s store_if \<Rightarrow> 's \<Rightarrow> http_request \<Rightarrow> http_response
    \<Rightarrow> 's \<times> http_response outcome" where
  "handleDelete I s r w =
     (let k = getKey (rq_path r)
      in if k = [] then (s, Ret (writeHeader w 400))
         else (case if_delete I s k of
                 (s', Ret None) \<Rightarrow>
                   (let (s'', r2) = if_delete I s' k in (s'', outcome_bind r2 (\<lambda>_. Ret w)))
               | (s', res) \<Rightarrow> (s', report w res)))"

definition handleKeyRequest :: "web_json \<Rightarrow> 's store_if \<Rightarrow> 's \<Rightarrow> http_request \<Rightarrow> http_response
    \<Rightarrow> 's \<times> http_response outcome" where
  "handleKeyRequest J I s r w =
     (if rq_method r = ''GET'' then handleGet J I s r w
      else if rq_method r = ''POST'' then handlePost J I s r w
      else if rq_method r = ''DELETE'' then handleDelete I s r w
      else (s, Ret (writeHeader w 405)))"

definition web_handleJoin :: "web_json \<Rightarrow> 's store_if \<Rightarrow> 's \<Rightarrow> http_request \<Rightarrow> http_response
    \<Rightarrow> 's \<times> http_response outcome" where
  "web_handleJoin J I s r w =
     (case wj_decode J (rq_body r) of
        Inl e \<Rightarrow> (s, Ret (writeHeader w 400))
      | Inr m \<Rightarrow>
          (if length m \<noteq> 2 then (s, Ret (writeHeader w 400))
           else (case map_of m ''addr'' of
                   None \<Rightarrow> (s, Ret (writeHeader w 400))
                 | Some addr \<Rightarrow>
                     (case map_of m ''id'' of
                        None \<Rightarrow> (s, Ret (writeHeader w 400))
                      | Some i \<Rightarrow> (let (s', res) = if_join I s i addr in (s', report w res))))))"

definition serveHTTP :: "web_json \<Rightarrow> 's store_if \<Rightarrow> 's \<Rightarrow> http_request \<Rightarrow> 's \<times> http_response outcome" where
  "serveHTTP J I s r =
     (if take 4 (rq_path r) = ''/key'' then handleKeyRequest J I s r no_response
      else if rq_path r = ''/join'' then web_handleJoin J I s r no_response
      else (s, Ret (writeHeader no_response 404)))"

text \<open>\<open>join\<close> of \<open>main.go\<close>: the status of the answer is not looked at.\<close>

definition web_join_request :: "((string \<times> string) list \<Rightarrow> go_error + bytes) \<Rightarrow> (string \<Rightarrow> bytes \<Rightarrow> go_error + http_response)
    \<Rightarrow> string \<Rightarrow> string \<Rightarrow> string \<Rightarrow> go_error option" where
  "web_join_request marshal post joinAddr raftAddr nodeID =
     (case marshal [(''addr'', raftAddr), (''id'', nodeID)] of
        Inl e \<Rightarrow> Some e
      | Inr b \<Rightarrow> (case post (''http://'' @ joinAddr @ ''/join'') b of Inl e \<Rightarrow> Some e | Inr resp \<Rightarrow> None))"

section \<open>Paths and statuses\<close>

definition key_path :: "string \<Rightarrow> string" where "key_path k = ''/key/'' @ k"

lemma key_path_split:
  assumes "CHR ''/'' \<notin> set k"
  shows "go_split (CHR ''/'') (key_path k) = [[], ''key'', k]"
proof -
  have "key_path k = [] @ CHR ''/'' # (''key'' @ CHR ''/'' # k)" by (simp add: key_path_def)
  then show ?thesis using assms
    by (simp only: go_split_append [of "CHR ''/''" "[]"] go_split_append [of "CHR ''/''" "''key''"])
       (simp add: go_split_no_sep)
qed

lemma getKey_key_path: "CHR ''/'' \<notin> set k \<Longrightarrow> getKey (key_path k) = k"
  by (simp add: getKey_def key_path_split)

lemma take_key_path: "take 4 (key_path k) = ''/key''"
  by (simp add: key_path_def)

lemma final_status_simps [simp]:
  "final_status no_response = 200"
  "final_status (writeHeader no_response c) = c"
  "final_status (writeString w b) = final_status w"
  "rs_body no_response = []"
  "rs_body (writeHeader w c) = rs_body w"
  "rs_body (writeString w b) = rs_body w @ b"
  by (simp_all add: final_status_def no_response_def writeHeader_def writeString_def split: option.splits)

lemma final_status_fixed: "rs_status w = Some c \<Longrightarrow> final_status (writeHeader w d) = c"
  by (simp add: final_status_def writeHeader_def)

section \<open>Requests over any store that keeps the interface's promises\<close>

context key_value_service
begin

lemma set_step:
  assumes "ready s" "plain k" "plain v"
  obtains (stored) s' where "if_set I s k v = (s', Ret None)" "ready s'" "contents s' = (contents s)(k \<mapsto> v)"
    | (failed) s' e where "if_set I s k v = (s', Ret (Some e))" "ready s'" "contents s' = contents s"
proof -
  obtain s' r where r: "if_set I s k v = (s', Ret r)"
    using set_returns [OF assms(1)] by (metis prod.collapse)
  have "ready s'" using set_ready [OF assms(1), of k v] r by simp
  show ?thesis
  proof (cases r)
    case None
    with r that(1) \<open>ready s'\<close> set_ok [OF assms, of s'] show ?thesis by blast
  next
    case (Some e)
    with r that(2) \<open>ready s'\<close> set_err [OF assms, of s' e] show ?thesis by blast
  qed
qed

text \<open>
  \<open>POST\<close>: the pairs set before the first error stay set; without an error all of them are.
\<close>

lemma set_pairs_prefix:
  assumes "ready s" and "\<forall>p \<in> set ps. plain (fst p) \<and> plain (snd p)" and "distinct (map fst ps)"
  shows "\<exists>n s' r. set_pairs I s ps = (s', Ret r) \<and> ready s' \<and>
           contents s' = contents s ++ map_of (take n ps) \<and> (r = None \<longrightarrow> take n ps = ps)"
  using assms
proof (induction ps arbitrary: s)
  case Nil
  then show ?case by simp
next
  case (Cons p ps)
  obtain k v where p: "p = (k, v)" by (cases p)
  have pl: "plain k" "plain v" using Cons.prems(2) p by auto
  show ?case
  proof (rule set_step [OF Cons.prems(1) pl])
    fix s' e
    assume "if_set I s k v = (s', Ret (Some e))" "ready s'" "contents s' = contents s"
    then show ?thesis by (intro exI [of _ 0] exI [of _ s'] exI [of _ "Some e"]) (simp add: p)
  next
    fix s1
    assume d: "if_set I s k v = (s1, Ret None)" "ready s1" "contents s1 = (contents s)(k \<mapsto> v)"
    obtain n s' r where ih: "set_pairs I s1 ps = (s', Ret r)" "ready s'"
      "contents s' = contents s1 ++ map_of (take n ps)" "r = None \<longrightarrow> take n ps = ps"
      using Cons.IH [OF d(2)] Cons.prems(2,3) by auto
    have "k \<notin> fst ` set (take n ps)"
      using Cons.prems(3) p by (auto dest: in_set_takeD)
    then have "k \<notin> dom (map_of (take n ps))" by (simp add: dom_map_of_conv_image_fst)
    then have "contents s' = contents s ++ map_of (take (Suc n) (p # ps))"
      by (auto simp: ih(3) d(3) p map_add_def fun_eq_iff split: option.splits)
    moreover have "set_pairs I s (p # ps) = (s', Ret r)" by (simp add: p d(1) ih(1))
    moreover have "r = None \<longrightarrow> take (Suc n) (p # ps) = p # ps" using ih(4) by simp
    ultimately show ?thesis using ih(2) by blast
  qed
qed

lemma post_ok:
  assumes "ready s" and "wj_decode J (rq_body r) = Inr ps"
    and "\<forall>p \<in> set ps. plain (fst p) \<and> plain (snd p)" and "distinct (map fst ps)"
    and "handlePost J I s r no_response = (s', Ret w)"
  shows "ready s' \<and> (\<exists>n. contents s' = contents s ++ map_of (take n ps) \<and>
           (if final_status w = 200 then take n ps = ps else final_status w = 500))"
proof -
  obtain n s1 x where p: "set_pairs I s ps = (s1, Ret x)" "ready s1"
    "contents s1 = contents s ++ map_of (take n ps)" "x = None \<longrightarrow> take n ps = ps"
    using set_pairs_prefix [OF assms(1,3,4)] by blast
  then show ?thesis
    using assms(2,5) by (intro conjI exI [of _ n]) (auto simp: handlePost_def report_def split: option.splits)
qed

lemma get_answer:
  assumes "ready s" and "rq_method r = ''GET''" and "rq_path r = key_path k" and "CHR ''/'' \<notin> set k"
    and "k \<noteq> []" and "wj_single J k (case contents s k of None \<Rightarrow> [] | Some v \<Rightarrow> v) = Inr b"
  shows "\<exists>s' w. serveHTTP J I s r = (s', Ret w) \<and> final_status w = 200 \<and> rs_body w = b \<and>
           ready s' \<and> contents s' = contents s"
proof -
  obtain s' where g: "if_get I s k = (s', Ret (case contents s k of None \<Rightarrow> [] | Some v \<Rightarrow> v, None))"
    using get_value [OF assms(1), of k] by (metis prod.collapse)
  have "ready s'" "contents s' = contents s"
    using get_ready [OF assms(1), of k] get_contents [OF assms(1), of k] g by simp_all
  then show ?thesis
    using assms g
    by (simp add: serveHTTP_def take_key_path handleKeyRequest_def handleGet_def getKey_key_path
        Let_def)
qed

text \<open>\<open>GET\<close> without a key: the status is 400, and yet the value of the empty key is sent.\<close>

lemma get_without_key:
  assumes "ready s" and "rq_method r = ''GET''" and "take 4 (rq_path r) = ''/key''"
    and "getKey (rq_path r) = []"
    and "wj_single J [] (case contents s [] of None \<Rightarrow> [] | Some v \<Rightarrow> v) = Inr b"
  shows "\<exists>s' w. serveHTTP J I s r = (s', Ret w) \<and> final_status w = 400 \<and> rs_body w = b"
proof -
  obtain s' where g: "if_get I s [] = (s', Ret (case contents s [] of None \<Rightarrow> [] | Some v \<Rightarrow> v, None))"
    using get_value [OF assms(1), of "[]"] by (metis prod.collapse)
  with assms show ?thesis
    by (simp add: serveHTTP_def handleKeyRequest_def handleGet_def Let_def)
qed

text \<open>\<open>DELETE\<close>: the key is gone when the answer is 200, nothing changed when it is 500.\<close>

lemma delete_step:
  assumes "ready s" "plain k"
  obtains (stored) s' where "if_delete I s k = (s', Ret None)" "ready s'" "contents s' = (contents s)(k := None)"
    | (failed) s' e where "if_delete I s k = (s', Ret (Some e))" "ready s'" "contents s' = contents s"
proof -
  obtain s' r where r: "if_delete I s k = (s', Ret r)"
    using delete_returns [OF assms(1)] by (metis prod.collapse)
  have "ready s'" using delete_ready [OF assms(1), of k] r by simp
  show ?thesis
  proof (cases r)
    case None
    with r that(1) \<open>ready s'\<close> delete_ok [OF assms, of s'] show ?thesis by blast
  next
    case (Some e)
    with r that(2) \<open>ready s'\<close> delete_err [OF assms, of s' e] show ?thesis by blast
  qed
qed

lemma delete_answer:
  assumes "ready s" and "rq_path r = key_path k" and "CHR ''/'' \<notin> set k" and "k \<noteq> []" and "plain k"
  shows "\<exists>s' w. handleDelete I s r no_response = (s', Ret w) \<and>
           (final_status w = 200 \<and> contents s' = (contents s)(k := None) \<or>
            final_status w = 500 \<and> contents s' = contents s)"
proof (rule delete_step [OF assms(1,5)])
  fix s1 e
  assume "if_delete I s k = (s1, Ret (Some e))" "contents s1 = contents s"
  then show ?thesis
    using assms by (simp add: handleDelete_def getKey_key_path report_def)
next
  fix s1
  assume d: "if_delete I s k = (s1, Ret None)" "ready s1" "contents s1 = (contents s)(k := None)"
  obtain s2 r2 where x: "if_delete I s1 k = (s2, Ret r2)" "contents s2 = (contents s)(k := None)"
    by (rule delete_step [OF d(2) assms(5)]) (use d in auto)
  then show ?thesis
    using assms d by (simp add: handleDelete_def getKey_key_path)
qed

end

section \<open>Properties\<close>

abbreviation web_http :: "web_codec \<Rightarrow> 'r raft_api \<Rightarrow> web_json \<Rightarrow> 'r web_store \<Rightarrow> http_request
    \<Rightarrow> 'r web_store \<times> http_response outcome" where
  "web_http C A J \<equiv> serveHTTP J (web_store_if C A)"

lemma serve_post:
  "take 4 (rq_path r) = ''/key'' \<Longrightarrow> rq_method r = ''POST'' \<Longrightarrow>
     serveHTTP J I s r = handlePost J I s r no_response"
  by (simp add: serveHTTP_def handleKeyRequest_def)

text \<open>A POST of a JSON object to the web service sets the pairs one by one and stops at the first
  that Raft does not accept: when it answers 200 all of them are set, else it answers 500 and those
  before the failing one stay set. No other key changes.\<close>

lemma web_post_prefix:
  assumes "web_ready C plain s" and "wj_decode J (rq_body r) = Inr ps"
    and "\<forall>p \<in> set ps. plain (fst p) \<and> plain (snd p)" and "distinct (map fst ps)"
    and "take 4 (rq_path r) = ''/key''" and "rq_method r = ''POST''"
    and "web_http C A J s r = (s', Ret w)"
  shows "\<exists>n. ws_m s' = ws_m s ++ map_of (take n ps) \<and>
    (if final_status w = 200 then take n ps = ps else final_status w = 500)"
  using web.post_ok [OF assms(1-4)] assms(5-7) by (simp add: serve_post)


text \<open>A body with a blank, an escaped letter and text after the object.\<close>

definition demo_body :: bytes where
  "demo_body = ''{ '' @ [dquote] @ ''a'' @ [dquote] @ '': '' @ [dquote, backslash] @ ''u0031'' @ [dquote] @ ''}, and more''"

lemma demo_body_decodes: "json_decode_map json_string demo_body = Inr [''a'' \<mapsto> ''1'']"
proof -
  note unq = json_unquote.simps [of "dquote # cs" for cs] json_unquote.simps [of "CHR ''a'' # cs" for cs]
    json_unquote.simps [of "backslash # cs" for cs]
  have e: "utf8_encode 49 = ''1''" by (simp add: utf8_encode_def char_of_eq_iff)
  have "json_value (Suc (Suc (Suc n))) demo_body = Some (JObj [(''a'', JStr ''1'')], '', and more'')" for n
    by (simp add: demo_body_def skip_space_def unq simple_escape_def hex4_def hex_val_def between_def escaped4_def prepend_def e)
  moreover have "Suc (2 * length demo_body) = Suc (Suc (Suc 50))" by (simp add: demo_body_def)
  ultimately have "json_parse demo_body = Some (JObj [(''a'', JStr ''1'')], '', and more'')" by (simp only: json_parse_def)
  then show ?thesis by (simp add: json_decode_map_def json_decode_members_def json_members_of_def)
qed

definition demo_json_post :: http_request where
  "demo_json_post = \<lparr>rq_method = ''POST'', rq_path = ''/key'', rq_body = demo_body\<rparr>"

abbreviation demo_go_json :: web_json where
  "demo_go_json \<equiv> go_web_json (\<lambda>m. sorted_list_of_set (dom m))"

lemma demo_json_post_answer:
  "\<exists>s'. web_http go_web_codec demo_web_api demo_go_json demo_web demo_json_post = (s', Ret no_response)"
proof -
  let ?c = "\<lparr>wc_op = ''set'', wc_key = ''a'', wc_value = ''1''\<rparr>"
  have d: "wj_decode demo_go_json demo_body = Inr [(''a'', ''1'')]"
    by (simp add: go_web_json_def demo_body_decodes)
  have u: "go_web_unmarshal (go_web_marshal ?c) = Inr ?c"
    by (simp add: go_web_roundtrip utf8_fix_ascii)
  show ?thesis
    by (simp add: demo_json_post_def d demo_web_def web_new_def serveHTTP_def
        handleKeyRequest_def handlePost_def web_store_if_def web_set_def web_update_def web_raft_apply_def
        web_apply_def web_applySet_def go_web_codec_def report_def u)
qed


text \<open>A DELETE proposes the deletion twice and looks only at the first result: when the second
  proposal fails the client is still told 200, and two calls of Raft were made for one request.\<close>

lemma web_delete_twice:
  assumes "web_ready C plain s" and "plain k" and "k \<noteq> []" "CHR ''/'' \<notin> set k"
    and "ws_role s = Leader" and "wc_marshal C \<lparr>wc_op = ''delete'', wc_key = k, wc_value = []\<rparr> = Inr b"
    and "ws_futures s (ws_calls s) = Future_index i" and "ws_futures s (Suc (ws_calls s)) = Future_error e"
    and "rq_method r = ''DELETE''" and "rq_path r = key_path k"
  shows "\<exists>s' w. web_http C A J s r = (s', Ret w) \<and> final_status w = 200 \<and>
    ws_calls s' = ws_calls s + 2 \<and> ws_m s' = (ws_m s)(k := None)"
proof -
  have u: "wc_unmarshal C b = Inr \<lparr>wc_op = ''delete'', wc_key = k, wc_value = []\<rparr>"
    by (rule web_ready_decodes(2) [OF assms(1) _ assms(6)]) (use assms(1,2) in \<open>simp_all add: web_ready_def\<close>)
  let ?s1 = "s\<lparr>ws_calls := Suc (ws_calls s), ws_m := (ws_m s)(k := None),
       ws_recov := ws_recov s @ [(Journey_Delete, ''Delete key: '' @ k)]\<rparr>"
  have d1: "web_delete C s k = (?s1, Ret None)"
    using assms(5-7) u
    by (simp add: web_delete_def web_update_def web_raft_apply_def web_apply_def web_applyDelete_def)
  have d2: "web_delete C ?s1 k = (?s1\<lparr>ws_calls := Suc (Suc (ws_calls s))\<rparr>, Ret (Some e))"
    using assms(5,6,8) by (simp add: web_delete_def web_update_def web_raft_apply_def)
  have "handleDelete (web_store_if C A) s r no_response =
      (?s1\<lparr>ws_calls := Suc (Suc (ws_calls s))\<rparr>, Ret no_response)"
    using assms(3,4,10) d1 d2 by (simp add: handleDelete_def getKey_key_path web_store_if_def)
  then show ?thesis
    using assms(9,10) by (simp add: serveHTTP_def handleKeyRequest_def take_key_path)
qed

text \<open>A GET without a key answers status 400, and goes on all the same: it reads the value of the
  empty key and sends it as the body.\<close>

lemma web_get_without_key:
  assumes "rq_method r = ''GET''" and "take 4 (rq_path r) = ''/key''" and "getKey (rq_path r) = []"
    and "wj_single J [] (case ws_m s [] of None \<Rightarrow> [] | Some v \<Rightarrow> v) = Inr b"
  shows "\<exists>s' w. web_http C A J s r = (s', Ret w) \<and> final_status w = 400 \<and> rs_body w = b"
  using assms by (simp add: serveHTTP_def handleKeyRequest_def handleGet_def web_store_if_def web_get_def Let_def)

end
