(* ===== verification/Web_Main.thy ===== *)
theory Web_Main
  imports Web_Service
begin

text \<open>
  The program of \<open>webkvstore\<close> (\<open>main.go\<close>, \<open>Open\<close> of the store, \<open>Start\<close> of the service): what a node
  does when it starts, and the request by which it joins a cluster that another node serves.
\<close>

section \<open>Opening the store\<close>

text \<open>\<open>Open\<close>: as \<open>StartRaft\<close>, with the log kept in a bolt file unless \<open>inmem\<close>.\<close>

definition web_open :: "raft_lib \<Rightarrow> bool \<Rightarrow> (string \<Rightarrow> go_error option) \<Rightarrow> string \<Rightarrow> string \<Rightarrow> bool \<Rightarrow> string
    \<Rightarrow> go_error + raft_server list" where
  "web_open L inmem bolt raftDir raftBind enableSingle localID =
     (case rl_resolve L raftBind of
        Some e \<Rightarrow> Inl e
      | None \<Rightarrow>
     (case rl_transport L raftBind of
        Inl e \<Rightarrow> Inl e
      | Inr localAddr \<Rightarrow>
     (case rl_snapshots L raftDir of
        Some e \<Rightarrow> Inl (Errorf ''file snapshot store: %s'' [])
      | None \<Rightarrow>
     (case (if inmem then None else bolt (raftDir @ ''/raft.db'')) of
        Some e \<Rightarrow> Inl (Errorf ''new bolt store: %s'' [])
      | None \<Rightarrow>
     (case rl_newRaft L localID of
        Some e \<Rightarrow> Inl (Errorf ''new raft: %s'' [])
      | None \<Rightarrow>
          Inr (if enableSingle then [\<lparr>srv_id = localID, srv_addr = localAddr, srv_voter = True\<rparr>]
               else []))))))"

section \<open>The program\<close>

text \<open>The arguments and flags, after \<open>flag.Parse\<close>.\<close>

record web_flags =
  wf_args :: "string list"
  wf_inmem :: bool
  wf_httpAddr :: string
  wf_raftAddr :: string
  wf_joinAddr :: string
  wf_nodeID :: string

text \<open>
  The \<open>Service\<close>: its address and whether it has a listener. \<open>Start\<close> listens and registers the handler,
  which panics when the process has registered one for the pattern already; \<open>Close\<close> and \<open>Addr\<close> of a
  service that was not started dereference nil.
\<close>

record web_service =
  wv_addr :: string
  wv_listening :: bool

definition web_newService :: "string \<Rightarrow> web_service" where
  "web_newService addr = \<lparr>wv_addr = addr, wv_listening = False\<rparr>"

definition web_start :: "(string \<Rightarrow> go_error option) \<Rightarrow> bool \<Rightarrow> web_service \<Rightarrow> web_service \<times> go_error option outcome" where
  "web_start listen registered v =
     (case listen (wv_addr v) of
        Some e \<Rightarrow> (v, Ret (Some e))
      | None \<Rightarrow> (v\<lparr>wv_listening := True\<rparr>,
                 if registered then Panic (Lib_error ''http: multiple registrations for /'') else Ret None))"

definition web_close :: "web_service \<Rightarrow> unit outcome" where
  "web_close v = (if wv_listening v then Ret () else Panic (Lib_error ''nil pointer dereference''))"

definition web_addr :: "web_service \<Rightarrow> string outcome" where
  "web_addr v = (if wv_listening v then Ret (wv_addr v) else Panic (Lib_error ''nil pointer dereference''))"

lemma web_start_close:
  "web_start listen False v = (v', Ret None) \<Longrightarrow> web_close v' = Ret () \<and> web_addr v' = Ret (wv_addr v)"
  by (auto simp: web_start_def web_close_def web_addr_def split: option.splits)

text \<open>\<open>Exit\<close> of the store shuts Raft down (and closes the recovery log, another repository's).\<close>

definition web_exit :: "'r web_store \<Rightarrow> 'r web_store" where
  "web_exit s = s\<lparr>ws_role := Shutdown\<rparr>"

lemma web_exit_readonly:
  "\<exists>e. web_set C (web_exit s) k v = (web_exit s, Ret (Some e))"
  "\<exists>e. web_delete C (web_exit s) k = (web_exit s, Ret (Some e))"
  "snd (web_get (web_exit s) k) = snd (web_get s k)"
  by (simp_all add: web_set_def web_delete_def web_update_def web_exit_def web_get_def)

text \<open>
  \<open>main\<close> up to the point where it waits for a signal: the configuration it bootstraps, if any.
  \<open>listen\<close> is \<open>net.Listen\<close> in \<open>Start\<close>; \<open>os.Exit\<close> ends the process as \<open>log.Fatalf\<close> does.
\<close>

definition web_main :: "raft_lib \<Rightarrow> (string \<Rightarrow> go_error option) \<Rightarrow> (string \<Rightarrow> go_error option)
    \<Rightarrow> ((string \<times> string) list \<Rightarrow> go_error + bytes) \<Rightarrow> (string \<Rightarrow> bytes \<Rightarrow> go_error + http_response)
    \<Rightarrow> web_flags \<Rightarrow> raft_server list outcome" where
  "web_main L bolt listen marshal post fl =
     (if wf_args fl = [] \<or> hd (wf_args fl) = [] then Fatal (Errorf ''No Raft storage directory specified'' [])
      else (case web_open L (wf_inmem fl) bolt (hd (wf_args fl)) (wf_raftAddr fl) (wf_joinAddr fl = []) (wf_nodeID fl) of
          Inl e \<Rightarrow> Fatal (Errorf ''failed to open store: %s'' [])
        | Inr bootstrapped \<Rightarrow>
            outcome_bind (snd (web_start listen False (web_newService (wf_httpAddr fl)))) (\<lambda>err. case err of
               Some e \<Rightarrow> Fatal (Errorf ''failed to start HTTP service: %s'' [])
             | None \<Rightarrow>
                 (if wf_joinAddr fl = [] then Ret bootstrapped
                  else (case web_join_request marshal post (wf_joinAddr fl) (wf_raftAddr fl) (wf_nodeID fl) of
                          Some e \<Rightarrow> Fatal (Errorf ''failed to join node at %s: %s'' [wf_joinAddr fl])
                        | None \<Rightarrow> Ret bootstrapped)))))"

text \<open>
  What \<open>http.Post\<close> of a join request to a node in state \<open>s\<close> gives; a handler that panics makes
  net/http close the connection.
\<close>

definition web_answer :: "web_codec \<Rightarrow> 'r raft_api \<Rightarrow> web_json \<Rightarrow> 'r web_store \<Rightarrow> bytes \<Rightarrow> go_error + http_response" where
  "web_answer C A J s b =
     (case snd (web_http C A J s \<lparr>rq_method = ''POST'', rq_path = ''/join'', rq_body = b\<rparr>) of
        Ret w \<Rightarrow> Inr w
      | _ \<Rightarrow> Inl (Lib_error ''EOF''))"

section \<open>Joining\<close>

lemma web_open_no_bootstrap: "web_open L inmem bolt dir bind False i = Inr ss \<Longrightarrow> ss = []"
  by (auto simp: web_open_def split: option.splits sum.splits)

text \<open>The two names of a join request, whatever the order in which the decoded map is visited.\<close>

lemma map_of_join:
  assumes "distinct (map fst ps)" and "set ps = {(''addr'', a), (''id'', i)}"
  shows "length ps = 2" and "map_of ps ''addr'' = Some a" and "map_of ps ''id'' = Some i"
proof -
  have "card (set ps) = 2" unfolding assms(2) by simp
  moreover have "distinct ps" using assms(1) by (simp add: distinct_map)
  ultimately show "length ps = 2" by (simp add: distinct_card)
  show "map_of ps ''addr'' = Some a" "map_of ps ''id'' = Some i"
    using assms by (simp_all add: map_of_is_SomeI)
qed

lemma serve_join:
  assumes "wj_decode J b = Inr ps" and "distinct (map fst ps)" and "set ps = {(''addr'', a), (''id'', i)}"
    and "joinRaft A i a True (ws_cluster s) = (r', err)"
  shows "web_http C A J s \<lparr>rq_method = ''POST'', rq_path = ''/join'', rq_body = b\<rparr> =
    (s\<lparr>ws_cluster := r'\<rparr>, Ret (case err of None \<Rightarrow> no_response | Some e \<Rightarrow> writeHeader no_response 500))"
  using map_of_join [OF assms(2,3)] assms(1,4)
  by (simp add: serveHTTP_def web_handleJoin_def web_store_if_def web_join_def report_def)

text \<open>What the node that serves a join request makes of the body that \<open>join\<close> posts.\<close>

definition go_join_marshal :: "(string \<times> string) list \<Rightarrow> go_error + bytes" where
  "go_join_marshal ps = Inr (json_marshal_map json_text (map_of ps))"

lemma join_decodes:
  assumes "range_order order" and "utf8_valid a" and "utf8_valid i"
    and "go_join_marshal [(''addr'', a), (''id'', i)] = Inr b"
  obtains ps where "wj_decode (go_web_json order) b = Inr ps" "distinct (map fst ps)"
    "set ps = {(''addr'', a), (''id'', i)}"
proof -
  let ?m = "map_of [(''addr'', a), (''id'', i)]"
  have d: "dom ?m = {''addr'', ''id''}" by auto
  have u: "\<forall>k \<in> dom ?m. utf8_valid k" unfolding d using utf8_valid_ascii by simp
  have "\<forall>v \<in> ran ?m. utf8_valid v" using assms(2,3) by (auto simp: ran_def split: if_splits)
  with u have m: "json_decode_map json_string b = Inr ?m"
    using assms(4) json_strings_roundtrip [of ?m] by (auto simp: go_join_marshal_def)
  obtain ps where ps: "wj_decode (go_web_json order) b = Inr ps" "distinct (map fst ps)" "map_of ps = ?m"
    using go_web_decode [OF assms(1) m] by blast
  have "x \<in> set ps \<longleftrightarrow> x \<in> {(''addr'', a), (''id'', i)}" for x
    using map_of_eq_Some_iff [OF ps(2), of "fst x" "snd x"] ps(3) by (cases x) (auto split: if_splits)
  then have "set ps = {(''addr'', a), (''id'', i)}" by blast
  with ps that show ?thesis by blast
qed

text \<open>C26: a node of webkvstore started with \<open>-join\<close> bootstraps no cluster of its own, and its request
  leaves the map of the node that serves it alone; that node answers 200 exactly when Raft took the
  change, and then the new node is in the configuration under its identifier and address; but the
  new node does not look at the answer: when it is 500 it starts all the same, as a member of no
  cluster. The request is the JSON of the standard library, so the address and the identifier must be
  UTF-8.\<close>

theorem web_node_joins:
  assumes "wf_args fl = dir # args" and "dir \<noteq> []" and "wf_joinAddr fl \<noteq> []"
    and "web_open L (wf_inmem fl) bolt dir (wf_raftAddr fl) False (wf_nodeID fl) = Inr ss"
    and "listen (wf_httpAddr fl) = None" and "range_order order"
    and "utf8_valid (wf_raftAddr fl)" and "utf8_valid (wf_nodeID fl)"
    and "go_join_marshal [(''addr'', wf_raftAddr fl), (''id'', wf_nodeID fl)] = Inr b"
    and "api_laws A cfg" and "api_readable A cfg" and "cfg_wf (cfg (ws_cluster s))"
  shows "web_main L bolt listen go_join_marshal (\<lambda>url. web_answer C A (go_web_json order) s) fl = Ret [] \<and>
    (\<exists>s' w. web_http C A (go_web_json order) s \<lparr>rq_method = ''POST'', rq_path = ''/join'', rq_body = b\<rparr> = (s', Ret w) \<and>
       ws_m s' = ws_m s \<and>
       (if snd (joinRaft A (wf_nodeID fl) (wf_raftAddr fl) True (ws_cluster s)) = None
        then final_status w = 200 \<and> cfg_wf (cfg (ws_cluster s')) \<and>
             member_of (wf_nodeID fl) (wf_raftAddr fl) (cfg (ws_cluster s'))
        else final_status w = 500))"
proof -
  obtain r' err where j: "joinRaft A (wf_nodeID fl) (wf_raftAddr fl) True (ws_cluster s) = (r', err)"
    by fastforce
  obtain ps where ps: "wj_decode (go_web_json order) b = Inr ps" "distinct (map fst ps)"
    "set ps = {(''addr'', wf_raftAddr fl), (''id'', wf_nodeID fl)}"
    using join_decodes [OF assms(6-9)] by blast
  note h = serve_join [OF ps j, of C]
  have "web_main L bolt listen go_join_marshal (\<lambda>url. web_answer C A (go_web_json order) s) fl = Ret []"
    using assms(1-5,9) web_open_no_bootstrap [OF assms(4)]
    by (simp add: web_main_def web_start_def web_newService_def web_join_request_def web_answer_def h)
  moreover have "err = None \<Longrightarrow> cfg_wf (cfg r') \<and> member_of (wf_nodeID fl) (wf_raftAddr fl) (cfg r')"
    using joinRaft_result [OF assms(10-12), of "wf_nodeID fl" "wf_raftAddr fl" True r'] j by blast
  ultimately show ?thesis using h j by (cases err) simp_all
qed

definition demo_flags :: web_flags where
  "demo_flags = \<lparr>wf_args = [''data2''], wf_inmem = True, wf_httpAddr = '':11002'', wf_raftAddr = '':12002'',
     wf_joinAddr = '':11000'', wf_nodeID = ''node2''\<rparr>"

definition demo_lib :: raft_lib where
  "demo_lib = \<lparr>rl_resolve = \<lambda>_. None, rl_transport = Inr, rl_snapshots = \<lambda>_. None, rl_newRaft = \<lambda>_. None\<rparr>"

definition demo_web_leader :: "raft_server list web_store" where
  "demo_web_leader = web_new Leader (\<lambda>n. Future_index (word_of_nat n))
     [\<lparr>srv_id = ''node1'', srv_addr = '':12000'', srv_voter = True\<rparr>]"

lemma web_node_joins_witness:
  "\<exists>b s' w. go_join_marshal [(''addr'', '':12002''), (''id'', ''node2'')] = Inr b \<and>
     web_main demo_lib (\<lambda>_. None) (\<lambda>_. None) go_join_marshal
       (\<lambda>url. web_answer go_web_codec list_api demo_go_json demo_web_leader) demo_flags = Ret [] \<and>
     web_http go_web_codec list_api demo_go_json demo_web_leader
       \<lparr>rq_method = ''POST'', rq_path = ''/join'', rq_body = b\<rparr> = (s', Ret w) \<and>
     final_status w = 200 \<and> member_of ''node2'' '':12002'' (ws_cluster s')"
proof -
  have n: "wf_nodeID demo_flags = ''node2''" "wf_raftAddr demo_flags = '':12002''" by (simp_all add: demo_flags_def)
  obtain b where b: "go_join_marshal [(''addr'', '':12002''), (''id'', ''node2'')] = Inr b"
    by (simp add: go_join_marshal_def)
  let ?http = "web_http go_web_codec list_api demo_go_json demo_web_leader \<lparr>rq_method = ''POST'', rq_path = ''/join'', rq_body = b\<rparr>"
  have j: "snd (joinRaft list_api (wf_nodeID demo_flags) (wf_raftAddr demo_flags) True (ws_cluster demo_web_leader)) = None"
    by (simp add: joinRaft_def list_api_def demo_web_leader_def web_new_def n)
  have "web_main demo_lib (\<lambda>_. None) (\<lambda>_. None) go_join_marshal
        (\<lambda>url. web_answer go_web_codec list_api demo_go_json demo_web_leader) demo_flags = Ret [] \<and>
      (\<exists>s' w. ?http = (s', Ret w) \<and> ws_m s' = ws_m demo_web_leader \<and>
         (if snd (joinRaft list_api (wf_nodeID demo_flags) (wf_raftAddr demo_flags) True (ws_cluster demo_web_leader)) = None
          then final_status w = 200 \<and> cfg_wf (id (ws_cluster s')) \<and>
               member_of (wf_nodeID demo_flags) (wf_raftAddr demo_flags) (id (ws_cluster s'))
          else final_status w = 500))"
    by (rule web_node_joins [where ss = "[]" and dir = "''data2''" and args = "[]",
          OF _ _ _ _ _ range_order_sorted _ _ _ list_api_laws list_api_readable])
       (simp_all add: n b utf8_valid_ascii, simp_all add: demo_flags_def demo_lib_def web_open_def demo_web_leader_def web_new_def
          cfg_wf_def)
  then show ?thesis using j b unfolding n by auto
qed

end
