(* ===== verification/Cluster.thy ===== *)
theory Cluster
  imports Logger_Process
begin

text \<open>
  A cluster: the log that Raft agreed on, and for each node its state machine, how many entries it
  has applied since its process started, and whether the process runs. Raft commits entries and
  feeds them in order; a node whose \<open>Apply\<close> panics is down until it is started again, from its
  initial state and over its old log file (Raft keeps its own log in memory here, so a restarted
  node is fed from the first entry). The nodes are replicas of kvstore and loggers in one cluster,
  as the README's deployment has them.
\<close>

section \<open>Steps\<close>

record 's cluster =
  cl_log :: "raft_log list"
  cl_node :: "nat \<Rightarrow> 's"
  cl_applied :: "nat \<Rightarrow> nat"
  cl_up :: "nat \<Rightarrow> bool"

datatype cluster_event = Committed raft_log | Applied nat fsm_response | Crashed nat | Restarted nat

inductive cluster_step ::
  "('s \<Rightarrow> raft_log \<Rightarrow> 's \<times> fsm_response outcome) \<Rightarrow> ('s \<Rightarrow> 's) \<Rightarrow> 's cluster \<Rightarrow> cluster_event
    \<Rightarrow> 's cluster \<Rightarrow> bool"
  for f :: "'s \<Rightarrow> raft_log \<Rightarrow> 's \<times> fsm_response outcome" and boot :: "'s \<Rightarrow> 's" where
  step_commit: "cluster_step f boot c (Committed e) (c\<lparr>cl_log := cl_log c @ [e]\<rparr>)"
| step_apply:
    "cl_up c i \<Longrightarrow> cl_applied c i < length (cl_log c) \<Longrightarrow>
     f (cl_node c i) (cl_log c ! cl_applied c i) = (s', Ret r) \<Longrightarrow>
     cluster_step f boot c (Applied i r)
       (c\<lparr>cl_node := (cl_node c)(i := s'), cl_applied := (cl_applied c)(i := Suc (cl_applied c i))\<rparr>)"
| step_crash:
    "cl_up c i \<Longrightarrow> cl_applied c i < length (cl_log c) \<Longrightarrow>
     f (cl_node c i) (cl_log c ! cl_applied c i) = (s', p) \<Longrightarrow> \<forall>r. p \<noteq> Ret r \<Longrightarrow>
     cluster_step f boot c (Crashed i)
       (c\<lparr>cl_node := (cl_node c)(i := s'), cl_up := (cl_up c)(i := False)\<rparr>)"
| step_restart:
    "\<not> cl_up c i \<Longrightarrow>
     cluster_step f boot c (Restarted i)
       (c\<lparr>cl_node := (cl_node c)(i := boot (cl_node c i)), cl_applied := (cl_applied c)(i := 0),
          cl_up := (cl_up c)(i := True)\<rparr>)"

text \<open>A cluster whose nodes have just started, each over what its seed says of it.\<close>

definition cluster_init :: "('s \<Rightarrow> 's) \<Rightarrow> (nat \<Rightarrow> 's) \<Rightarrow> 's cluster" where
  "cluster_init boot seed =
     \<lparr>cl_log = [], cl_node = boot \<circ> seed, cl_applied = (\<lambda>_. 0), cl_up = (\<lambda>_. True)\<rparr>"

inductive cluster_reach ::
  "('s \<Rightarrow> raft_log \<Rightarrow> 's \<times> fsm_response outcome) \<Rightarrow> ('s \<Rightarrow> 's) \<Rightarrow> (nat \<Rightarrow> 's) \<Rightarrow> 's cluster \<Rightarrow> bool"
  for f :: "'s \<Rightarrow> raft_log \<Rightarrow> 's \<times> fsm_response outcome" and boot seed where
  reach_init: "cluster_reach f boot seed (cluster_init boot seed)"
| reach_step: "cluster_reach f boot seed c \<Longrightarrow> cluster_step f boot c ev c' \<Longrightarrow>
     cluster_reach f boot seed c'"

inductive_cases cluster_step_cases: "cluster_step f boot c ev c'"
inductive_simps cluster_step_Committed: "cluster_step f boot c (Committed e) c'"

section \<open>Agreement\<close>

lemma run_take_Suc:
  assumes "n < length es" and "\<not> run_crashed f s (take n es)"
  shows "fsm_run f s (take (Suc n) es) =
     (let (s1, rs1, c1) = fsm_run f s (take n es); (s2, rs2, c2) = fsm_run f s1 [es ! n]
      in (s2, rs1 @ rs2, c2))"
  using assms by (simp add: take_Suc_conv_app_nth fsm_run_append split_beta Let_def)

lemma run_crashed_take: "n \<le> m \<Longrightarrow> run_crashed f s (take n es) \<Longrightarrow> run_crashed f s (take m es)"
proof -
  assume "n \<le> m" and c: "run_crashed f s (take n es)"
  then have "take m es = take n es @ take (m - n) (drop n es)"
    by (metis le_add_diff_inverse take_add)
  with c show ?thesis by (simp add: fsm_run_append split_beta Let_def)
qed

text \<open>
  State machines that a restart brings back to the state they started from, as far as the
  replicated part of it goes.
\<close>

locale cluster_fsm = raft_fsm apply_entry view inv
  for apply_entry :: "'s \<Rightarrow> raft_log \<Rightarrow> 's \<times> fsm_response outcome"
    and view :: "'s \<Rightarrow> 'v" and inv :: "'s \<Rightarrow> bool" +
  fixes boot :: "'s \<Rightarrow> 's"
  assumes boot_inv: "inv s \<Longrightarrow> inv (boot s)"
    and boot_apply: "inv s \<Longrightarrow> view (boot (fst (apply_entry s e))) = view (boot s)"
    and boot_boot: "inv s \<Longrightarrow> view (boot (boot s)) = view (boot s)"
begin

definition node_ok :: "(nat \<Rightarrow> 's) \<Rightarrow> 's cluster \<Rightarrow> nat \<Rightarrow> bool" where
  "node_ok seed c i \<longleftrightarrow>
     inv (cl_node c i) \<and> view (boot (cl_node c i)) = view (boot (seed i)) \<and>
     cl_applied c i \<le> length (cl_log c) \<and>
     \<not> run_crashed apply_entry (boot (seed i)) (take (cl_applied c i) (cl_log c)) \<and>
     (cl_up c i \<longrightarrow>
        view (cl_node c i) = view (run_state apply_entry (boot (seed i)) (take (cl_applied c i) (cl_log c))))"

lemma run_step:
  assumes "inv s" and "inv s0" and "view s = view (run_state apply_entry s0 (take n es))"
    and "n < length es" and "\<not> run_crashed apply_entry s0 (take n es)"
    and "apply_entry s (es ! n) = (s', Ret r)"
  shows "\<not> run_crashed apply_entry s0 (take (Suc n) es)"
    and "view s' = view (run_state apply_entry s0 (take (Suc n) es))"
    and "fst (snd (fsm_run apply_entry s0 (take (Suc n) es))) =
           fst (snd (fsm_run apply_entry s0 (take n es))) @ [r]"
proof -
  let ?t = "run_state apply_entry s0 (take n es)"
  have t: "inv ?t" by (rule run_inv [OF assms(2)])
  have v: "view (fst (apply_entry ?t (es ! n))) = view s'" "snd (apply_entry ?t (es ! n)) = Ret r"
    using apply_view [OF assms(1) t assms(3)] apply_response [OF assms(1) t assms(3)] assms(6)
    by (metis fst_conv, metis snd_conv)
  obtain t' where t': "apply_entry ?t (es ! n) = (t', Ret r)" using v(2) by (metis prod.collapse)
  have "fsm_run apply_entry s0 (take (Suc n) es) =
      (t', fst (snd (fsm_run apply_entry s0 (take n es))) @ [r], False)"
    using run_take_Suc [OF assms(4,5)] t' by (simp add: split_beta Let_def)
  then show "\<not> run_crashed apply_entry s0 (take (Suc n) es)"
    "view s' = view (run_state apply_entry s0 (take (Suc n) es))"
    "fst (snd (fsm_run apply_entry s0 (take (Suc n) es))) =
       fst (snd (fsm_run apply_entry s0 (take n es))) @ [r]"
    using v(1) t' by simp_all
qed

lemma step_node_ok:
  assumes seed: "inv (seed i)" and ok: "node_ok seed c i" and st: "cluster_step apply_entry boot c ev c'"
  shows "node_ok seed c' i"
  using st
proof (cases rule: cluster_step.cases)
  case (step_commit e)
  with ok show ?thesis by (simp add: node_ok_def)
next
  case (step_apply j s' r)
  show ?thesis
  proof (cases "j = i")
    case False
    with ok step_apply show ?thesis by (simp add: node_ok_def)
  next
    case True
    have b: "inv (boot (seed i))" by (rule boot_inv [OF seed])
    have o: "inv (cl_node c i)" "view (boot (cl_node c i)) = view (boot (seed i))"
      "\<not> run_crashed apply_entry (boot (seed i)) (take (cl_applied c i) (cl_log c))"
      "view (cl_node c i) = view (run_state apply_entry (boot (seed i)) (take (cl_applied c i) (cl_log c)))"
      using ok step_apply(3) True by (simp_all add: node_ok_def)
    note ap = step_apply(5) [unfolded True]
    have "inv s'" using apply_inv [OF o(1), of "cl_log c ! cl_applied c i"] ap by simp
    moreover have "view (boot s') = view (boot (seed i))"
      using boot_apply [OF o(1), of "cl_log c ! cl_applied c i"] ap o(2) by simp
    ultimately show ?thesis
      using run_step(1,2) [OF o(1) b o(4) step_apply(4) [unfolded True] o(3) ap] step_apply True
      by (simp add: node_ok_def)
  qed
next
  case (step_crash j s' p)
  show ?thesis
  proof (cases "j = i")
    case False
    with ok step_crash show ?thesis by (simp add: node_ok_def)
  next
    case True
    have o: "inv (cl_node c i)" "view (boot (cl_node c i)) = view (boot (seed i))"
      using ok by (simp_all add: node_ok_def)
    have "inv s'" "view (boot s') = view (boot (seed i))"
      using apply_inv [OF o(1), of "cl_log c ! cl_applied c i"]
        boot_apply [OF o(1), of "cl_log c ! cl_applied c i"] step_crash(5) True o(2) by simp_all
    with ok step_crash True show ?thesis by (simp add: node_ok_def)
  qed
next
  case (step_restart j)
  show ?thesis
  proof (cases "j = i")
    case False
    with ok step_restart show ?thesis by (simp add: node_ok_def)
  next
    case True
    with ok step_restart boot_inv boot_boot show ?thesis by (simp add: node_ok_def)
  qed
qed

lemma reach_node_ok:
  assumes "cluster_reach apply_entry boot seed c" and "inv (seed i)"
  shows "node_ok seed c i"
  using assms(1)
proof (induction rule: cluster_reach.induct)
  case reach_init
  show ?case using boot_inv [OF assms(2)] boot_boot [OF assms(2)]
    by (simp add: node_ok_def cluster_init_def)
next
  case (reach_step c ev c')
  show ?case by (rule step_node_ok [OF assms(2) reach_step.IH reach_step.hyps(2)])
qed

text \<open>Nodes that start alike and have applied as much agree.\<close>

lemma nodes_agree:
  assumes "cluster_reach apply_entry boot seed c" and "inv (seed i)" "inv (seed j)"
    and "view (boot (seed i)) = view (boot (seed j))"
    and "cl_up c i" "cl_up c j" "cl_applied c i = cl_applied c j"
  shows "view (cl_node c i) = view (cl_node c j)"
  using reach_node_ok [OF assms(1,2)] reach_node_ok [OF assms(1,3)] assms(4-7)
    run_agree [OF boot_inv [OF assms(2)] boot_inv [OF assms(3)] assms(4)]
  by (simp add: node_ok_def)

text \<open>An entry that no state answers is never passed.\<close>

lemma poison_stops:
  assumes "cluster_reach apply_entry boot seed c" and "inv (seed i)"
    and "n < length (cl_log c)"
    and "\<And>s. inv s \<Longrightarrow> view (boot s) = view (boot (seed i)) \<Longrightarrow> \<forall>r. snd (apply_entry s (cl_log c ! n)) \<noteq> Ret r"
  shows "cl_applied c i \<le> n"
proof (rule ccontr)
  assume "\<not> cl_applied c i \<le> n"
  then have le: "Suc n \<le> cl_applied c i" by simp
  let ?s0 = "boot (seed i)"
  have nc: "\<not> run_crashed apply_entry ?s0 (take (Suc n) (cl_log c))"
    using reach_node_ok [OF assms(1,2)] run_crashed_take [OF le, of apply_entry ?s0 "cl_log c"]
    by (auto simp: node_ok_def)
  then have nc': "\<not> run_crashed apply_entry ?s0 (take n (cl_log c))"
    using run_crashed_take [of n "Suc n" apply_entry ?s0 "cl_log c"] by auto
  let ?t = "run_state apply_entry ?s0 (take n (cl_log c))"
  have b: "inv ?s0" by (rule boot_inv [OF assms(2)])
  have "view (boot (run_state apply_entry s es)) = view (boot s)" if "inv s" for s es
    using that
  proof (induction es arbitrary: s)
    case (Cons e es)
    obtain s' p where fe: "apply_entry s e = (s', p)" by (cases "apply_entry s e") auto
    with apply_inv [OF Cons.prems, of e] boot_apply [OF Cons.prems, of e] Cons.IH [of s'] show ?case
      by (cases p) (simp_all add: fsm_run_Cons_Ret fsm_run_Cons_crash del: fsm_run.simps)
  qed simp
  from this [OF b] have "view (boot ?t) = view (boot (seed i))" using boot_boot [OF assms(2)] by simp
  with assms(4) [OF run_inv [OF b]] have "\<forall>r. snd (apply_entry ?t (cl_log c ! n)) \<noteq> Ret r" by blast
  then obtain t' p where t': "apply_entry ?t (cl_log c ! n) = (t', p)" "\<forall>r. p \<noteq> Ret r"
    by (cases "apply_entry ?t (cl_log c ! n)") auto
  have "run_crashed apply_entry ?s0 (take (Suc n) (cl_log c))"
    using run_take_Suc [OF assms(3) nc'] fsm_run_Cons_crash [of apply_entry, OF t'(1) t'(2), of "[]"]
    by (simp add: split_beta Let_def del: fsm_run.simps)
  with nc show False by contradiction
qed

end

section \<open>The log files of a cluster\<close>

text \<open>
  Replicas that log, and whose process opens the old file again when it restarts. Writing the same
  records over themselves changes nothing, so each log file always holds a prefix of the records.
\<close>

lemma file_write_same:
  "file_write \<lparr>fcontent = xs @ bs @ ys, fpos = length xs\<rparr> bs =
     \<lparr>fcontent = xs @ bs @ ys, fpos = length xs + length bs\<rparr>"
  by (simp add: file_write_def overwrite_def)

locale logging_cluster =
  logging_fsm apply_entry logfile enabled payload write_msg encode
  for apply_entry :: "'s \<Rightarrow> raft_log \<Rightarrow> 's \<times> fsm_response outcome"
    and logfile :: "'s \<Rightarrow> go_file option" and enabled :: "'s \<Rightarrow> bool"
    and payload :: "raft_log \<Rightarrow> bytes option"
    and write_msg :: "go_file option \<Rightarrow> bytes \<Rightarrow> go_file option" and encode :: "bytes \<Rightarrow> bytes" +
  fixes boot :: "'s \<Rightarrow> 's"
  assumes boot_enabled: "enabled s \<Longrightarrow> enabled (boot s)"
    and boot_logfile: "enabled s \<Longrightarrow> logfile (boot s) = reopen (logfile s)"
begin

definition file_ok :: "'s cluster \<Rightarrow> nat \<Rightarrow> bool" where
  "file_ok c i \<longleftrightarrow> enabled (cl_node c i) \<and>
     (\<exists>m p. cl_applied c i \<le> m \<and> m \<le> length (cl_log c) \<and>
        logfile (cl_node c i) = Some \<lparr>fcontent = log_text (take m (cl_log c)), fpos = p\<rparr> \<and>
        (cl_up c i \<longrightarrow> p = length (log_text (take (cl_applied c i) (cl_log c)))))"

lemma write_next:
  assumes "n \<le> m" and "m \<le> length es" and "n < length es"
  shows "\<exists>m'. Suc n \<le> m' \<and> m' \<le> length es \<and>
     file_write \<lparr>fcontent = log_text (take m es), fpos = length (log_text (take n es))\<rparr> (log_text [es ! n]) =
       \<lparr>fcontent = log_text (take m' es), fpos = length (log_text (take (Suc n) es))\<rparr>"
proof -
  have tk: "log_text (take (Suc n) es) = log_text (take n es) @ log_text [es ! n]"
    using assms(3) by (simp add: take_Suc_conv_app_nth log_text_append)
  show ?thesis
  proof (cases "m = n")
    case True
    have "file_write \<lparr>fcontent = log_text (take n es), fpos = length (log_text (take n es))\<rparr> (log_text [es ! n])
        = \<lparr>fcontent = log_text (take (Suc n) es), fpos = length (log_text (take (Suc n) es))\<rparr>"
      using file_write_same [of "log_text (take n es)"] by (simp add: tk file_write_def)
    then show ?thesis using True assms(3) by (intro exI [of _ "Suc n"]) simp
  next
    case False
    then have le: "Suc n \<le> m" using assms(1) by simp
    then have "take m es = take (Suc n) es @ take (m - Suc n) (drop (Suc n) es)"
      by (metis le_add_diff_inverse take_add)
    then have "log_text (take m es) =
        log_text (take n es) @ log_text [es ! n] @ log_text (take (m - Suc n) (drop (Suc n) es))"
      by (simp add: log_text_append tk)
    then show ?thesis
      using file_write_same [of "log_text (take n es)" "log_text [es ! n]"] le assms(2) tk
      by (intro exI [of _ m]) simp
  qed
qed

lemma apply_file_ok:
  assumes ok: "file_ok c i" and up: "cl_up c i" and lt: "cl_applied c i < length (cl_log c)"
    and ap: "apply_entry (cl_node c i) (cl_log c ! cl_applied c i) = (s', r)"
  shows "enabled s' \<and> (\<exists>m. Suc (cl_applied c i) \<le> m \<and> m \<le> length (cl_log c) \<and>
     logfile s' = Some \<lparr>fcontent = log_text (take m (cl_log c)),
                        fpos = length (log_text (take (Suc (cl_applied c i)) (cl_log c)))\<rparr>)"
proof -
  obtain m where m: "enabled (cl_node c i)" "cl_applied c i \<le> m" "m \<le> length (cl_log c)"
    "logfile (cl_node c i) = Some \<lparr>fcontent = log_text (take m (cl_log c)),
       fpos = length (log_text (take (cl_applied c i) (cl_log c)))\<rparr>"
    using ok up by (auto simp: file_ok_def)
  have "enabled s'" using apply_enabled [OF m(1)] ap by (metis fst_conv)
  moreover have "logfile s' = Some (file_write \<lparr>fcontent = log_text (take m (cl_log c)),
      fpos = length (log_text (take (cl_applied c i) (cl_log c)))\<rparr> (log_text [cl_log c ! cl_applied c i]))"
    using apply_file [OF m(1,4), of "cl_log c ! cl_applied c i"] ap by simp
  ultimately show ?thesis using write_next [OF m(2,3) lt] by auto
qed

lemma file_ok_commit:
  assumes "file_ok c i"
  shows "file_ok (c\<lparr>cl_log := cl_log c @ [e]\<rparr>) i"
proof -
  obtain m p where m: "enabled (cl_node c i)" "cl_applied c i \<le> m" "m \<le> length (cl_log c)"
    "logfile (cl_node c i) = Some \<lparr>fcontent = log_text (take m (cl_log c)), fpos = p\<rparr>"
    "cl_up c i \<longrightarrow> p = length (log_text (take (cl_applied c i) (cl_log c)))"
    using assms by (auto simp: file_ok_def)
  then show ?thesis
    unfolding file_ok_def by (intro conjI exI [of _ m] exI [of _ p]) simp_all
qed

lemma file_ok_restart:
  assumes "file_ok c i"
  shows "file_ok (c\<lparr>cl_node := (cl_node c)(i := boot (cl_node c i)),
                    cl_applied := (cl_applied c)(i := 0), cl_up := (cl_up c)(i := True)\<rparr>) i"
  using assms boot_enabled [of "cl_node c i"] boot_logfile [of "cl_node c i"]
  by (auto simp: file_ok_def reopen_def log_bytes_def)

lemma step_file_ok:
  assumes ok: "file_ok c i" and st: "cluster_step apply_entry boot c ev c'"
  shows "file_ok c' i"
  using st
proof (cases rule: cluster_step.cases)
  case (step_commit e)
  with ok show ?thesis by (simp add: file_ok_commit)
next
  case (step_apply j s' r)
  show ?thesis
  proof (cases "j = i")
    case True
    with apply_file_ok [OF ok, of s' "Ret r"] step_apply show ?thesis by (auto simp: file_ok_def)
  qed (use ok step_apply in \<open>simp add: file_ok_def\<close>)
next
  case (step_crash j s' p)
  show ?thesis
  proof (cases "j = i")
    case True
    then obtain m where "enabled s'" "Suc (cl_applied c i) \<le> m" "m \<le> length (cl_log c)"
      "logfile s' = Some \<lparr>fcontent = log_text (take m (cl_log c)),
                        fpos = length (log_text (take (Suc (cl_applied c i)) (cl_log c)))\<rparr>"
      using apply_file_ok [OF ok, of s' p] step_crash by auto
    then show ?thesis using True step_crash
      unfolding file_ok_def by (intro conjI exI [of _ m] exI) simp_all
  qed (use ok step_crash in \<open>simp add: file_ok_def\<close>)
next
  case (step_restart j)
  show ?thesis
  proof (cases "j = i")
    case True
    with ok step_restart show ?thesis by (simp add: file_ok_restart)
  qed (use ok step_restart in \<open>simp add: file_ok_def\<close>)
qed

lemma reach_file:
  assumes "cluster_reach apply_entry boot seed c" and "enabled (seed i)" and "log_bytes (logfile (seed i)) = []"
  shows "\<exists>m. cl_applied c i \<le> m \<and> m \<le> length (cl_log c) \<and>
     log_bytes (logfile (cl_node c i)) = log_text (take m (cl_log c))"
proof -
  have "file_ok c i"
    using assms(1)
  proof (induction rule: cluster_reach.induct)
    case reach_init
    show ?case using boot_enabled [OF assms(2)] boot_logfile [OF assms(2)] assms(3)
      by (simp add: file_ok_def cluster_init_def reopen_def)
  next
    case (reach_step c ev c')
    show ?case by (rule step_file_ok [OF reach_step.IH reach_step.hyps(2)])
  qed
  then show ?thesis by (auto simp: file_ok_def log_bytes_def)
qed

end

section \<open>Replicas and loggers\<close>

datatype member = Replica kv_store | Log_member logger

definition member_apply :: "pb_codec \<Rightarrow> gz_lib \<Rightarrow> member \<Rightarrow> raft_log \<Rightarrow> member \<times> fsm_response outcome" where
  "member_apply P G m l =
     (case m of
        Replica s \<Rightarrow> (let (s', r) = kv_apply P G s l in (Replica s', r))
      | Log_member g \<Rightarrow> (let (g', r) = logger_apply P g l in (Log_member g', r)))"

text \<open>A process that starts again: \<open>New\<close> or \<open>NewLogger\<close>, over the files of its predecessor.\<close>

definition kv_boot :: "kv_store \<Rightarrow> kv_store" where
  "kv_boot s = kv_fresh (kv_logging s) (if kv_logging s then reopen (kv_logfile s) else None)"

definition logger_boot :: "logger \<Rightarrow> logger" where
  "logger_boot g = \<lparr>lg_logfile = reopen (lg_logfile g), lg_req = 0,
                    lg_throughput = reopen (lg_throughput g)\<rparr>"

definition member_boot :: "member \<Rightarrow> member" where
  "member_boot m = (case m of Replica s \<Rightarrow> Replica (kv_boot s) | Log_member g \<Rightarrow> Log_member (logger_boot g))"

lemma kv_boot_new:
  "logfolder \<noteq> [] \<Longrightarrow> kv_logging s \<Longrightarrow>
     kv_new logfolder svrID (Stat_file (log_bytes (kv_logfile s))) True = Ret (kv_boot s)"
  "\<not> kv_logging s \<Longrightarrow> kv_new [] svrID st ok = Ret (kv_boot s)"
  by (simp_all add: kv_new_def kv_boot_def createFile_reopen)

lemma logger_boot_new:
  "newLogger logfolder i (Stat_file (log_bytes (lg_logfile g))) True
     (Stat_file (log_bytes (lg_throughput g))) True = Ret (logger_boot g)"
  by (simp add: newLogger_def logger_boot_def createFile_reopen)

definition member_view :: "member \<Rightarrow> (string \<rightharpoonup> bytes) option" where
  "member_view m = (case m of Replica s \<Rightarrow> Some (kv_view s) | Log_member g \<Rightarrow> None)"

definition member_inv :: "member \<Rightarrow> bool" where
  "member_inv m = (case m of Replica s \<Rightarrow> kv_inv s | Log_member g \<Rightarrow> lg_logfile g \<noteq> None)"

definition member_logfile :: "member \<Rightarrow> go_file option" where
  "member_logfile m = (case m of Replica s \<Rightarrow> kv_logfile s | Log_member g \<Rightarrow> lg_logfile g)"

definition member_logs :: "member \<Rightarrow> bool" where
  "member_logs m = (case m of Replica s \<Rightarrow> kv_logging s | Log_member g \<Rightarrow> True)"

lemmas member_defs = member_apply_def member_boot_def member_view_def member_inv_def
  member_logfile_def member_logs_def

lemma kv_preinit_own: "sl \<in> ran (kv_preinit n (Own v) Map.empty) \<Longrightarrow> sl = Own v"
  by (induction n) (auto simp: ran_def split: if_splits)

lemma kv_fresh_inv: "kv_inv (kv_fresh b fd)"
  by (auto simp: kv_inv_def kv_fresh_def dest: kv_preinit_own)

lemma kv_fresh_view: "kv_view (kv_fresh b fd) = kv_view (kv_fresh False None)"
  by (simp add: kv_view_def kv_fresh_def)

lemma kv_boot_view: "kv_view (kv_boot s) = kv_view (kv_fresh False None)"
  unfolding kv_boot_def by (rule kv_fresh_view)

lemma logger_apply_Some:
  assumes "lg_logfile g \<noteq> None"
  shows "lg_logfile (fst (logger_apply P g l)) \<noteq> None"
    and "snd (logger_apply P g l) =
           (case pb_unmarshal P (log_data l) of Inl e \<Rightarrow> Ret (Resp_error e) | Inr c \<Rightarrow> Ret Resp_nil)"
  using assms by (auto simp: logger_apply_def Let_def fd_write_def split: sum.splits)

lemma member_apply_simps [simp]:
  "member_apply P G (Replica s) l = (Replica (fst (kv_apply P G s l)), snd (kv_apply P G s l))"
  "member_apply P G (Log_member g) l = (Log_member (fst (logger_apply P g l)), snd (logger_apply P g l))"
  "member_boot (Replica s) = Replica (kv_boot s)"
  "member_boot (Log_member g) = Log_member (logger_boot g)"
  "member_view (Replica s) = Some (kv_view s)"
  "member_view (Log_member g) = None"
  "member_inv (Replica s) = kv_inv s"
  "member_inv (Log_member g) = (lg_logfile g \<noteq> None)"
  "member_logfile (Replica s) = kv_logfile s"
  "member_logfile (Log_member g) = lg_logfile g"
  "member_logs (Replica s) = kv_logging s"
  "member_logs (Log_member g) = True"
  by (simp_all add: member_defs split_beta)

lemma kv_boot_inv: "kv_inv (kv_boot s)"
  by (simp add: kv_boot_def kv_fresh_inv)

lemma logger_boot_logfile: "lg_logfile (logger_boot g) = reopen (lg_logfile g)"
  by (simp add: logger_boot_def)

lemma member_agree:
  assumes "member_inv m" "member_inv n" "member_view m = member_view n"
  shows "member_view (fst (member_apply P G m e)) = member_view (fst (member_apply P G n e)) \<and>
    snd (member_apply P G m e) = snd (member_apply P G n e)"
proof (cases m)
  case m: (Replica s)
  with assms(3) obtain t where n: "n = Replica t" by (cases n) auto
  have v: "kv_inv s" "kv_inv t" "kv_view s = kv_view t" using assms m n by auto
  show ?thesis
    using kv.apply_view [OF v, of P G e] kv.apply_response [OF v, of P G e] by (simp add: m n)
next
  case m: (Log_member g)
  with assms(3) obtain h where n: "n = Log_member h" by (cases n) auto
  have v: "lg_logfile g \<noteq> None" "lg_logfile h \<noteq> None" using assms m n by auto
  show ?thesis
    using logger_apply_Some(2) [OF v(1), of P e] logger_apply_Some(2) [OF v(2), of P e] by (simp add: m n)
qed

interpretation cluster: cluster_fsm "member_apply P G" member_view member_inv member_boot
  for P :: pb_codec and G :: gz_lib
proof unfold_locales
  fix m n :: member and e :: raft_log
  assume i: "member_inv m"
  show "member_inv (fst (member_apply P G m e))"
  proof (cases m)
    case (Replica s)
    with i kv_apply_inv [of s P G e] show ?thesis by simp
  next
    case (Log_member g)
    with i logger_apply_Some(1) [of g P e] show ?thesis by simp
  qed
  show "member_inv (member_boot m)"
    by (cases m) (simp_all add: kv_boot_inv logger_boot_logfile reopen_def)
  show "member_view (member_boot (fst (member_apply P G m e))) = member_view (member_boot m)"
    "member_view (member_boot (member_boot m)) = member_view (member_boot m)"
    by (cases m; simp add: kv_boot_view)+
  assume "member_inv n" and "member_view m = member_view n"
  then show "member_view (fst (member_apply P G m e)) = member_view (fst (member_apply P G n e))"
    and "snd (member_apply P G m e) = snd (member_apply P G n e)"
    using member_agree [OF i] by blast+
qed

interpretation cluster_logs: logging_cluster "member_apply P G" member_logfile member_logs "kv_payload P"
    write_frame frame member_boot
  for P :: pb_codec and G :: gz_lib
proof unfold_locales
  fix m :: member and e :: raft_log
  assume l: "member_logs m"
  show "member_logs (fst (member_apply P G m e))"
    using l kv_log.apply_enabled by (cases m) simp_all
  show "member_logfile (fst (member_apply P G m e)) =
      (case kv_payload P e of None \<Rightarrow> member_logfile m | Some msg \<Rightarrow> write_frame (member_logfile m) msg)"
  proof (cases m)
    case (Replica s)
    with l kv_log.apply_logfile [of s P G e] show ?thesis unfolding Replica by (simp split: option.split)
  next
    case (Log_member g)
    with logger_apply_logfile [of P g e] show ?thesis unfolding Log_member by (simp split: option.split)
  qed
  show "member_logs (member_boot m)" "member_logfile (member_boot m) = reopen (member_logfile m)"
    using l by (cases m; simp add: kv_boot_def kv_fresh_def logger_boot_logfile)+
qed (simp_all add: write_frame_Some)

section \<open>What holds of the cluster\<close>

lemma member_run:
  "fsm_run (member_apply P G) (Replica s) es =
     (Replica (run_state (kv_apply P G) s es), snd (fsm_run (kv_apply P G) s es))"
proof (induction es arbitrary: s)
  case Nil
  then show ?case by simp
next
  case (Cons e es)
  obtain s' p where fe: "kv_apply P G s e = (s', p)" by (cases "kv_apply P G s e") auto
  then have fm: "member_apply P G (Replica s) e = (Replica s', p)" by simp
  show ?case
    using fe fm Cons.IH [of s']
    by (cases p) (simp_all add: fsm_run_Cons_Ret fsm_run_Cons_crash del: fsm_run.simps)
qed

lemma replica_state:
  assumes "cluster_reach (member_apply P G) member_boot seed c" and "seed i = Replica s" "kv_inv s"
    and "cl_up c i"
  shows "\<exists>s'. cl_node c i = Replica s' \<and>
     kv_view s' = fold install_cmd (stamped P (take (cl_applied c i) (cl_log c))) (kv_view (kv_fresh False None))"
proof -
  let ?es = "take (cl_applied c i) (cl_log c)"
  have "cluster.node_ok P G seed c i"
    using cluster.reach_node_ok [OF assms(1)] assms(2,3) by simp
  then have ok: "\<not> run_crashed (kv_apply P G) (kv_boot s) ?es"
    "member_view (cl_node c i) = Some (kv_view (run_state (kv_apply P G) (kv_boot s) ?es))"
    using assms(2,4) by (simp_all add: cluster.node_ok_def member_run)
  then obtain s' where "cl_node c i = Replica s'" "kv_view s' = kv_view (run_state (kv_apply P G) (kv_boot s) ?es)"
    by (cases "cl_node c i") auto
  then show ?thesis
    using kv_run_replay [OF kv_boot_inv ok(1)] by (auto simp: kv_boot_view)
qed

lemma reach_commit:
  "cluster_reach f boot seed c \<Longrightarrow> cluster_reach f boot seed (c\<lparr>cl_log := cl_log c @ [e]\<rparr>)"
  by (rule reach_step [OF _ step_commit])

lemma reach_apply:
  "cluster_reach f boot seed c \<Longrightarrow> cl_up c i \<Longrightarrow> cl_applied c i < length (cl_log c) \<Longrightarrow>
     f (cl_node c i) (cl_log c ! cl_applied c i) = (s', Ret r) \<Longrightarrow>
     cluster_reach f boot seed
       (c\<lparr>cl_node := (cl_node c)(i := s'), cl_applied := (cl_applied c)(i := Suc (cl_applied c i))\<rparr>)"
  by (rule reach_step [OF _ step_apply])

text \<open>A cluster of replicas, the log that is given it, and its nodes 0 and 1 one entry further.\<close>

definition demo_member :: "nat \<Rightarrow> member" where
  "demo_member i = (if i < 2 then Replica (kv_fresh True None)
                    else Log_member \<lparr>lg_logfile = None, lg_req = 0, lg_throughput = None\<rparr>)"

abbreviation demo_reach :: "member cluster \<Rightarrow> bool" where
  "demo_reach \<equiv> cluster_reach (member_apply sample_codec sample_gz) member_boot demo_member"

lemma demo_commit: "demo_reach ((cluster_init member_boot demo_member)\<lparr>cl_log := [e]\<rparr>)"
  using reach_commit [OF reach_init, of _ member_boot demo_member e] by (simp add: cluster_init_def)

lemma kv_boot_fresh: "kv_boot (kv_fresh True None) = kv_fresh True (reopen None)"
  by (simp add: kv_boot_def kv_fresh_def)

lemma kv_apply_set_ret:
  assumes "kv_inv s"
  shows "snd (kv_apply sample_codec G s (sample_entry Command_SET ''k'' ''v'')) = Ret (Resp_string ''15000-'')"
  using kv_apply_response [OF assms, of sample_codec G "sample_entry Command_SET ''k'' ''v''"]
  by (simp add: sample_entry_decodes kv_result_def)

lemma demo_applied:
  "\<exists>c. demo_reach c \<and> cl_log c = [sample_entry Command_SET ''k'' ''v''] \<and> cl_up c 0 \<and> cl_up c 1 \<and>
       cl_applied c 0 = 1 \<and> cl_applied c 1 = 1"
proof -
  let ?e = "sample_entry Command_SET ''k'' ''v''"
  let ?c = "(cluster_init member_boot demo_member)\<lparr>cl_log := [?e]\<rparr>"
  have s: "snd (member_apply sample_codec sample_gz (member_boot (demo_member i)) ?e) = Ret (Resp_string ''15000-'')"
    if "i < 2" for i
    using that kv_apply_set_ret [OF kv_boot_inv] by (simp add: demo_member_def)
  obtain m0 where m0: "member_apply sample_codec sample_gz (member_boot (demo_member 0)) ?e =
      (m0, Ret (Resp_string ''15000-''))" using s [of 0] by (metis prod.collapse zero_less_numeral)
  obtain m1 where m1: "member_apply sample_codec sample_gz (member_boot (demo_member 1)) ?e =
      (m1, Ret (Resp_string ''15000-''))" using s [of 1] by (metis prod.collapse one_less_numeral_iff semiring_norm(76))
  let ?c0 = "?c\<lparr>cl_node := (cl_node ?c)(0 := m0), cl_applied := (cl_applied ?c)(0 := Suc (cl_applied ?c 0))\<rparr>"
  have r0: "demo_reach ?c0"
    by (rule reach_apply [OF demo_commit, where r = "Resp_string ''15000-''"])
       (simp_all add: cluster_init_def m0)
  have "demo_reach (?c0\<lparr>cl_node := (cl_node ?c0)(1 := m1),
                        cl_applied := (cl_applied ?c0)(1 := Suc (cl_applied ?c0 1))\<rparr>)"
    by (rule reach_apply [OF r0, where r = "Resp_string ''15000-''"])
       (use m1 in \<open>simp_all add: cluster_init_def\<close>)
  then show ?thesis by (intro exI conjI) (assumption, simp_all add: cluster_init_def)
qed



lemma member_view_boot_Replica:
  "member_view (member_boot m) = member_view (member_boot (Replica s)) \<Longrightarrow> \<exists>t. m = Replica t"
  by (cases m) simp_all



text \<open>The log text of the cluster is the frames that the recovery reads.\<close>

lemma member_log_text: "cluster_logs.log_text P es = frames (kv_log.payloads P es)"
  by (simp add: cluster_logs.log_text_def cluster_logs.payloads_def kv_log.payloads_def frames_def)

lemma recover_payloads:
  "\<forall>e \<in> set es. loggable P e \<Longrightarrow>
     installReceivedState P m (frames (kv_log.payloads P es)) =
       Ret (fold install_cmd (stamped P es) m, int (length (stamped P es)), None)"
  by (simp add: installReceivedState_def install_loop_all [OF payloads_decode])



text \<open>The log files of any two nodes that log, a replica's and a logger's alike, never disagree:
  one of them is a prefix of the other.\<close>

lemma log_files_agree:
  assumes "cluster_reach (member_apply P G) member_boot seed c"
    and "member_logs (seed i)" "log_bytes (member_logfile (seed i)) = []"
    and "member_logs (seed j)" "log_bytes (member_logfile (seed j)) = []"
  shows "prefix (log_bytes (member_logfile (cl_node c i))) (log_bytes (member_logfile (cl_node c j))) \<or>
         prefix (log_bytes (member_logfile (cl_node c j))) (log_bytes (member_logfile (cl_node c i)))"
proof -
  obtain m n where m: "log_bytes (member_logfile (cl_node c i)) = cluster_logs.log_text P (take m (cl_log c))"
    and n: "log_bytes (member_logfile (cl_node c j)) = cluster_logs.log_text P (take n (cl_log c))"
    using cluster_logs.reach_file [OF assms(1-3)] cluster_logs.reach_file [OF assms(1,4,5)] by blast
  have p: "prefix (cluster_logs.log_text P (take a es)) (cluster_logs.log_text P (take b es))"
    if "a \<le> b" for a b es
  proof -
    have "take b es = take a es @ take (b - a) (drop a es)"
      using that by (metis le_add_diff_inverse take_add)
    then show ?thesis by (simp add: cluster_logs.log_text_append)
  qed
  show ?thesis unfolding m n using p [of m n] p [of n m] by (meson nle_le)
qed

end
