(* ===== verification/Web_Cluster.thy ===== *)
theory Web_Cluster
  imports Web_Main Cluster
begin

text \<open>
  A cluster of webkvstore nodes over one Raft log: the step relation and the locale of the kvstore
  cluster, interpreted by the web store. A node that starts again has an empty map and a new recovery
  log, and is fed from the first entry.
\<close>

definition web_boot :: "'r web_store \<Rightarrow> 'r web_store" where
  "web_boot s = web_new (ws_role s) (ws_futures s) (ws_cluster s)"

interpretation web_cluster: cluster_fsm "web_apply C :: 'r web_store \<Rightarrow> _" ws_m web_any web_boot
  for C :: web_codec
  by unfold_locales (simp_all add: web_any_def web_boot_def web_new_def)

text \<open>The map that a log stands for.\<close>

definition web_install :: "web_codec \<Rightarrow> raft_log \<Rightarrow> (string \<rightharpoonup> string) \<Rightarrow> (string \<rightharpoonup> string)" where
  "web_install C e m =
     (case wc_unmarshal C (log_data e) of
        Inl _ \<Rightarrow> m
      | Inr c \<Rightarrow> (if wc_op c = ''set'' then m(wc_key c \<mapsto> wc_value c)
                  else if wc_op c = ''delete'' then m(wc_key c := None) else m))"

lemma web_apply_install: "ws_m (fst (web_apply C s e)) = web_install C e (ws_m s)"
  by (simp add: web_apply_def web_install_def web_applySet_def web_applyDelete_def split: sum.split)

lemma web_run_install:
  "\<not> run_crashed (web_apply C) s es \<Longrightarrow>
     ws_m (run_state (web_apply C) s es) = fold (web_install C) es (ws_m s)"
proof (induction es arbitrary: s)
  case (Cons e es)
  obtain s' p where fe: "web_apply C s e = (s', p)" by (cases "web_apply C s e") auto
  then have m: "ws_m s' = web_install C e (ws_m s)" using web_apply_install [of C s e] by simp
  obtain r where "p = Ret r" using Cons.prems fe by (cases p) simp_all
  with fe Cons.prems Cons.IH [of s'] m show ?case by (simp add: fsm_run_Cons_Ret del: fsm_run.simps)
qed simp

lemma web_node_map:
  assumes "cluster_reach (web_apply C) web_boot seed c" and "cl_up c i"
  shows "ws_m (cl_node c i) = fold (web_install C) (take (cl_applied c i) (cl_log c)) Map.empty"
proof -
  have ok: "web_cluster.node_ok C seed c i"
    using web_cluster.reach_node_ok [OF assms(1)] by (simp add: web_any_def)
  then show ?thesis
    using assms(2) web_run_install [of C "web_boot (seed i)" "take (cl_applied c i) (cl_log c)"]
    by (simp add: web_cluster.node_ok_def web_boot_def web_new_def)
qed

section \<open>Properties\<close>

text \<open>C40: reads of webkvstore are served from the replica's own map, so they may be stale but are never
  anything else: in every reachable cluster, through crashes and restarts, a GET sent to any running node,
  leader or not, answers 200 with the JSON object of the key and the value that it has after the entries this
  node has applied, which are a prefix of the log.\<close>

theorem web_reads_prefix:
  assumes "cluster_reach (web_apply go_web_codec) web_boot seed c" and "cl_up c i"
    and "rq_method r = ''GET''" and "rq_path r = key_path k" and "k \<noteq> []" "CHR ''/'' \<notin> set k"
  shows "\<exists>s' w. web_http go_web_codec A (go_web_json order) (cl_node c i) r = (s', Ret w) \<and> final_status w = 200 \<and>
    rs_body w = json_marshal_map json_text
      [k \<mapsto> case fold (web_install go_web_codec) (take (cl_applied c i) (cl_log c)) Map.empty k of None \<Rightarrow> [] | Some v \<Rightarrow> v] \<and>
    ws_m s' = ws_m (cl_node c i)"
  using assms(3-6)
  by (simp add: serveHTTP_def take_key_path handleKeyRequest_def handleGet_def getKey_key_path Let_def
      web_store_if_def web_get_def go_web_json_def web_node_map [OF assms(1,2)])

definition demo_set :: raft_log where
  "demo_set = \<lparr>log_index = 1, log_data = go_web_marshal \<lparr>wc_op = ''set'', wc_key = ''a'', wc_value = ''1''\<rparr>\<rparr>"

lemma demo_set_decodes:
  "wc_unmarshal go_web_codec (log_data demo_set) = Inr \<lparr>wc_op = ''set'', wc_key = ''a'', wc_value = ''1''\<rparr>"
  by (simp add: demo_set_def go_web_codec_def go_web_roundtrip utf8_fix_ascii)

text \<open>The entry is committed; node 0 has applied it and node 1 has not.\<close>

lemma demo_web_reach:
  "\<exists>c. cluster_reach (web_apply go_web_codec) web_boot (\<lambda>_. demo_web) c \<and> cl_log c = [demo_set] \<and>
     cl_up c 0 \<and> cl_up c 1 \<and> cl_applied c 0 = 1 \<and> cl_applied c 1 = 0"
proof -
  let ?c = "(cluster_init web_boot (\<lambda>_. demo_web))\<lparr>cl_log := [demo_set]\<rparr>"
  have r: "cluster_reach (web_apply go_web_codec) web_boot (\<lambda>_. demo_web) ?c"
    using reach_commit [OF reach_init, of "web_apply go_web_codec" web_boot "\<lambda>_. demo_web" demo_set]
    by (simp add: cluster_init_def)
  obtain s' where s': "web_apply go_web_codec (web_boot demo_web) demo_set = (s', Ret Resp_nil)"
    by (simp add: web_apply_def demo_set_decodes)
  have "cluster_reach (web_apply go_web_codec) web_boot (\<lambda>_. demo_web)
      (?c\<lparr>cl_node := (cl_node ?c)(0 := s'), cl_applied := (cl_applied ?c)(0 := Suc (cl_applied ?c 0))\<rparr>)"
    by (rule reach_apply [OF r, where r = Resp_nil]) (simp_all add: cluster_init_def s')
  then show ?thesis by (intro exI conjI) (assumption, simp_all add: cluster_init_def)
qed

lemma web_reads_prefix_witness:
  "\<exists>c s' w t' v. cluster_reach (web_apply go_web_codec) web_boot (\<lambda>_. demo_web) c \<and>
     web_http go_web_codec demo_web_api demo_go_json (cl_node c 0)
        \<lparr>rq_method = ''GET'', rq_path = key_path ''a'', rq_body = []\<rparr> = (s', Ret w) \<and>
     rs_body w = json_marshal_map json_text [''a'' \<mapsto> ''1''] \<and>
     web_http go_web_codec demo_web_api demo_go_json (cl_node c 1)
        \<lparr>rq_method = ''GET'', rq_path = key_path ''a'', rq_body = []\<rparr> = (t', Ret v) \<and>
     rs_body v = json_marshal_map json_text [''a'' \<mapsto> []]"
proof -
  obtain c where c: "cluster_reach (web_apply go_web_codec) web_boot (\<lambda>_. demo_web) c" "cl_log c = [demo_set]"
    "cl_up c 0" "cl_up c 1" "cl_applied c 0 = 1" "cl_applied c 1 = 0" using demo_web_reach by blast
  let ?r = "\<lparr>rq_method = ''GET'', rq_path = key_path ''a'', rq_body = []\<rparr>"
  have k: "rq_method ?r = ''GET''" "rq_path ?r = key_path ''a''" "''a'' \<noteq> []" "CHR ''/'' \<notin> set ''a''" by simp_all
  have "\<exists>s' w. web_http go_web_codec demo_web_api demo_go_json (cl_node c 0) ?r = (s', Ret w) \<and>
      rs_body w = json_marshal_map json_text [''a'' \<mapsto> ''1'']"
    using web_reads_prefix [OF c(1,3) k, where A = demo_web_api and order = "\<lambda>m. sorted_list_of_set (dom m)"]
    by (auto simp: c(2,5) web_install_def demo_set_decodes)
  moreover have "\<exists>t' v. web_http go_web_codec demo_web_api demo_go_json (cl_node c 1) ?r = (t', Ret v) \<and>
      rs_body v = json_marshal_map json_text [''a'' \<mapsto> []]"
    using web_reads_prefix [OF c(1,4) k, where A = demo_web_api and order = "\<lambda>m. sorted_list_of_set (dom m)"]
    unfolding c(2,6) by auto
  ultimately show ?thesis using c(1) by blast
qed

end
