(* ===== verification/Instances.thy ===== *)
theory Instances
  imports Seq_Client Chat_Server Chat_Client Web_Cluster
begin

text \<open>
  The repository's packages do not import each other: several carry a copy of the same code
  (diff shows only names and log messages between them). This theory names the copies, each as the
  definition of the code it repeats at its own types, so that what is proved of one is available
  for the other; and it adds the little that the copies have of their own.
\<close>

section \<open>diskstorage\<close>

definition disk_newServer :: "disk_store \<Rightarrow> go_file option \<Rightarrow> disk_store server" where
  "disk_newServer = newServer"

definition disk_handleRequest :: "pb_codec \<Rightarrow> nat \<Rightarrow> propose_env \<Rightarrow> disk_store server \<Rightarrow> request
    \<Rightarrow> disk_store server \<times> unit outcome" where
  "disk_handleRequest P limit = handleRequest (disk_propose P limit)"

definition disk_server_join :: "disk_store server \<Rightarrow> string \<Rightarrow> bytes \<Rightarrow> disk_store server" where
  "disk_server_join = server_join"

definition disk_server_broadcast :: "disk_store server \<Rightarrow> string \<Rightarrow> disk_store server" where
  "disk_server_broadcast = server_broadcast"

definition disk_server_tick :: "disk_store server \<Rightarrow> disk_store server" where
  "disk_server_tick = server_tick"

definition disk_server_step :: "pb_codec \<Rightarrow> nat \<Rightarrow> disk_store server \<Rightarrow> sv_event \<Rightarrow> disk_store server \<Rightarrow> bool" where
  "disk_server_step P limit = server_step (disk_propose P limit)"

definition disk_sendUDP :: "(string \<Rightarrow> bool) \<Rightarrow> string \<Rightarrow> string \<Rightarrow> datagram list outcome" where
  "disk_sendUDP = sendUDP"

definition disk_validateReq :: "(string \<Rightarrow> string) \<Rightarrow> string \<Rightarrow> bool outcome" where
  "disk_validateReq = validateReq"

definition disk_session_read :: "string \<Rightarrow> bytes \<Rightarrow> request list" where
  "disk_session_read = session_read"

definition disk_session_write :: "bufwriter \<Rightarrow> string list \<Rightarrow> bufwriter" where
  "disk_session_write = session_write"

definition disk_startRaft :: "raft_lib \<Rightarrow> bool \<Rightarrow> string \<Rightarrow> string \<Rightarrow> go_error + raft_server list" where
  "disk_startRaft = startRaft"

definition disk_joinRaft :: "'r raft_api \<Rightarrow> string \<Rightarrow> string \<Rightarrow> bool \<Rightarrow> 'r \<Rightarrow> 'r \<times> go_error option" where
  "disk_joinRaft = joinRaft"

definition disk_listenRaftJoins :: "'r raft_api \<Rightarrow> string list \<Rightarrow> 'r \<Rightarrow> 'r \<times> unit outcome" where
  "disk_listenRaftJoins = listen_joins"

definition disk_createFile :: "stat_result \<Rightarrow> bool \<Rightarrow> string \<Rightarrow> go_file option outcome" where
  "disk_createFile = createFile"

definition disk_loadEnvVariables :: "(string \<rightharpoonup> string) \<Rightarrow> kube_env outcome" where
  "disk_loadEnvVariables = loadEnvVariables"

definition disk_requestKubeConfig :: "kube_env \<Rightarrow> go_error + pod list \<Rightarrow> (go_error + kube_config) outcome" where
  "disk_requestKubeConfig = requestKubeConfig"

definition disk_replica_init :: "(string \<rightharpoonup> string) \<Rightarrow> go_error + pod list \<Rightarrow> replica_config outcome" where
  "disk_replica_init = replica_init"

definition disk_sendJoinRequest :: "join_conn \<Rightarrow> string \<Rightarrow> string \<Rightarrow> string \<Rightarrow> string \<times> go_error option" where
  "disk_sendJoinRequest = sendJoinRequest"

text \<open>\<open>main\<close> first opens the store, whose error ends the process.\<close>

definition disk_main :: "(go_error + disk_store) outcome \<Rightarrow> raft_lib \<Rightarrow> (string \<Rightarrow> go_error option) \<Rightarrow> join_conn
    \<Rightarrow> replica_config \<Rightarrow> (raft_server list \<times> string) outcome" where
  "disk_main new L listen N c =
     outcome_bind new (\<lambda>r. case r of
        Inl e \<Rightarrow> Fatal (Errorf ''Failed to start storage: %s'' [])
      | Inr s \<Rightarrow> replica_main L listen N c)"

text \<open>The disk server's requests and counts, from the contract of its store.\<close>

lemma disk_session_order:
  "server_run (disk_propose P limit) (disk_server_join sv remote stream) evs sv' \<Longrightarrow>
     prefix (handled_by (length (sv_queues sv)) evs) (disk_session_read remote stream)"
  using disk_server.run_queue [of P limit "server_join sv remote stream" evs sv' "length (sv_queues sv)"]
  by (simp add: disk_server_join_def disk_session_read_def server_join_def prefix_def)

lemma disk_throughput_accounts:
  "server_run (disk_propose P limit) (disk_newServer st fd) evs sv \<Longrightarrow>
     sum_list (ticks evs) + sv_req sv = word_of_nat (length (requests evs))"
  using disk_server.run_req [of P limit "newServer st fd" evs sv]
  by (simp add: disk_newServer_def newServer_def add.commute)

lemma disk_follower_idle:
  "pe_role E \<noteq> Leader \<Longrightarrow>
     disk_handleRequest P limit E sv rq = (sv\<lparr>sv_req := sv_req sv + 1\<rparr>, Ret ())"
  unfolding disk_handleRequest_def by (rule disk_server.handle_follower)

section \<open>logger\<close>

definition logger_createFile :: "stat_result \<Rightarrow> bool \<Rightarrow> string \<Rightarrow> go_file option outcome" where
  "logger_createFile = createFile"

definition logger_readAll :: "read_fd option \<Rightarrow> bytes \<times> go_error option" where
  "logger_readAll = read_all"

text \<open>The listener of a logger over its own \<open>UnsafeStateRecover\<close>.\<close>

definition logger_listenStateTransfer :: "logger \<Rightarrow> read_fd option \<Rightarrow> go_error option \<Rightarrow> go_error option
    \<Rightarrow> string \<Rightarrow> bytes outcome" where
  "logger_listenStateTransfer lg fd pipe_err close_err =
     serve_state_transfer (\<lambda>i. logger_unsafeStateRecover lg i fd pipe_err) close_err"

text \<open>A logger never bootstraps.\<close>

definition logger_startRaft :: "raft_lib \<Rightarrow> string \<Rightarrow> string \<Rightarrow> go_error + raft_server list" where
  "logger_startRaft L localID raftAddr = startRaft L False localID raftAddr"

lemma logger_sends_log:
  assumes "lg_logfile lg = Some f" and "dash \<notin> set localAddr" and "0 \<le> index" "index < 2 ^ 63"
    and "opens_ok opens" and "length (fcontent f) < 2 ^ 61"
  shows "logger_listenStateTransfer lg (Some (opens (fcontent f))) None None (state_request localAddr index) = Ret (fcontent f)"
  using assms parse_state_request_ok [OF assms(2-4)]
  by (simp add: logger_listenStateTransfer_def serve_state_transfer_def logger_unsafeStateRecover_def
      send_file_content [OF assms(5,6)])

section \<open>chatRoom\<close>

definition chat_startRaft :: "raft_lib \<Rightarrow> bool \<Rightarrow> string \<Rightarrow> string \<Rightarrow> go_error + raft_server list" where
  "chat_startRaft = startRaft"

definition chat_joinRaft :: "'r raft_api \<Rightarrow> string \<Rightarrow> string \<Rightarrow> bool \<Rightarrow> 'r \<Rightarrow> 'r \<times> go_error option" where
  "chat_joinRaft = joinRaft"

definition chat_listenRaftJoins :: "'r raft_api \<Rightarrow> string list \<Rightarrow> 'r \<Rightarrow> 'r \<times> unit outcome" where
  "chat_listenRaftJoins = listen_joins"

text \<open>
  The chat client: its configuration as decoded, with the queue that \<open>New\<close> makes; \<open>Connect\<close> with
  the loop of the sequential client; \<open>Broadcast\<close> of the bare message.
\<close>

record chat_info =
  ch_rep :: int
  ch_svrIps :: "string list"
  ch_svrs :: "conn option list"
  ch_mq :: message_queue

definition chat_new :: "go_error + (int \<times> string list \<times> int) \<Rightarrow> (go_error + chat_info) outcome" where
  "chat_new toml =
     (case toml of
        Inl e \<Rightarrow> Ret (Inl e)
      | Inr (rep, ips, mqueueSize) \<Rightarrow>
          outcome_bind (newMQ mqueueSize False)
            (\<lambda>mq. Ret (Inr \<lparr>ch_rep = rep, ch_svrIps = ips, ch_svrs = [], ch_mq = mq\<rparr>)))"

definition chat_connect :: "(string \<Rightarrow> go_error + conn) \<Rightarrow> chat_info \<Rightarrow> chat_info \<times> go_error option outcome" where
  "chat_connect dial ci =
     (if ch_rep ci < 0 then (ci, Panic (Lib_error ''makeslice: len out of range''))
      else (let (cs, r) = connect_loop dial 0 (ch_svrIps ci) (replicate (nat (ch_rep ci)) None)
            in (ci\<lparr>ch_svrs := cs\<rparr>, r)))"

definition chat_broadcast :: "chat_info \<Rightarrow> string \<Rightarrow> chat_info \<times> go_error option outcome" where
  "chat_broadcast ci message =
     (let (cs, r) = send_all message (ch_svrs ci) in (ci\<lparr>ch_svrs := cs\<rparr>, r))"

end
