(* ===== verification/Chat_Room.thy ===== *)
theory Chat_Room
  imports Chat_Client Chat_Server KV_Server
begin

text \<open>
  The chat end to end (\<open>chatRoom/\<close>): what a session's writer puts on a client's connection, what the
  client's readers make of the bytes that have arrived from the replicas, and what its consumer prints
  when the readers' messages reach it in any order. The replicas apply the entries of one log; the
  chat's promise is that every client prints the messages in the order of that log.
\<close>

section \<open>The writer of a session\<close>

text \<open>\<open>Session.Write\<close>: each message is written and flushed.\<close>

definition chat_session_write :: "bufwriter \<Rightarrow> string list \<Rightarrow> bufwriter" where
  "chat_session_write b msgs = fold (\<lambda>data w. bw_flush (bw_writeString w data)) msgs b"

definition chat_wire :: "string list \<Rightarrow> bytes" where
  "chat_wire msgs = bw_out (chat_session_write \<lparr>bw_buf = [], bw_out = []\<rparr> msgs)"

lemma chat_session_write_out:
  "bw_buf b = [] \<Longrightarrow> bw_out (chat_session_write b msgs) = bw_out b @ concat msgs \<and>
     bw_buf (chat_session_write b msgs) = []"
proof (induction msgs arbitrary: b)
  case Nil
  then show ?case by (simp add: chat_session_write_def)
next
  case (Cons m msgs)
  let ?b = "bw_flush (bw_writeString b m)"
  have "bw_buf ?b = []" by (simp add: bw_flush_def)
  moreover have "bw_out ?b = bw_out b @ m"
    using bw_writeString_keeps [of b m] Cons.prems by (simp add: bw_flush_def)
  ultimately show ?case
    using Cons.IH [of ?b] by (simp add: chat_session_write_def)
qed

lemma chat_wire_concat: "chat_wire msgs = concat msgs"
  using chat_session_write_out [of "\<lparr>bw_buf = [], bw_out = []\<rparr>" msgs] by (simp add: chat_wire_def)

section \<open>The readers of a client\<close>

text \<open>A message that a reader takes as one line.\<close>

definition one_line :: "string \<Rightarrow> bool" where
  "one_line m \<longleftrightarrow> 1 < length m \<and> last m = newline \<and> newline \<notin> set (butlast m)"

lemma one_line_split: "one_line m \<Longrightarrow> \<exists>t. m = t @ [newline] \<and> t \<noteq> [] \<and> newline \<notin> set t"
  by (rule exI [of _ "butlast m"]) (cases m rule: rev_cases, auto simp: one_line_def)

text \<open>Of any part of a stream that has arrived, a reader delivers a prefix of the messages.\<close>

lemma chat_read_prefix:
  "\<forall>m \<in> set msgs. one_line m \<Longrightarrow> prefix s (concat msgs) \<Longrightarrow> prefix (chat_read n s) msgs"
proof (induction n arbitrary: s msgs)
  case 0
  then show ?case by simp
next
  case (Suc n)
  have none: "newline \<notin> set t \<Longrightarrow> chat_read k t = []" for k t
    by (induction k arbitrary: t) (simp_all add: read_line_eof)
  show ?case
  proof (cases msgs)
    case Nil
    with Suc.prems(2) none [of s "Suc n"] show ?thesis by simp
  next
    case (Cons m ms)
    obtain t where t: "m = t @ [newline]" "t \<noteq> []" "newline \<notin> set t"
      using one_line_split Suc.prems(1) Cons by auto
    show ?thesis
    proof (cases "prefix m s")
      case True
      then obtain r where r: "s = t @ newline # r" by (auto simp: t(1) prefix_def)
      with Suc.prems(2) have "prefix r (concat ms)" by (simp add: Cons t(1))
      with Suc.IH [of ms r] Suc.prems(1) Cons show ?thesis
        by (simp add: r read_line_newline [OF t(3)] t(1,2))
    next
      case False
      with Suc.prems(2) have "prefix s t"
        by (auto simp: Cons t(1) prefix_append prefix_Cons)
      then have "newline \<notin> set s" using t(3) by (meson set_mono_prefix subsetD)
      then show ?thesis using none [of s "Suc n"] by simp
    qed
  qed
qed

lemma chat_read_all:
  "\<forall>m \<in> set msgs. one_line m \<Longrightarrow> length msgs \<le> n \<Longrightarrow> chat_read n (concat msgs) = msgs"
proof (induction msgs arbitrary: n)
  case Nil
  then show ?case by (induction n) simp_all
next
  case (Cons m ms)
  obtain t where t: "m = t @ [newline]" "t \<noteq> []" "newline \<notin> set t"
    using one_line_split Cons.prems(1) by auto
  obtain k where "n = Suc k" using Cons.prems(2) by (cases n) auto
  with Cons.IH [of k] Cons.prems show ?case by (simp add: t read_line_newline)
qed

section \<open>What reaches the consumer\<close>

text \<open>
  The channel \<open>incoming\<close> of the client: at each moment any reader that has a message next may be the
  one whose send goes through. \<open>arrivals xss rest ys\<close>: from readers that deliver \<open>xss\<close> in total,
  \<open>ys\<close> has arrived and \<open>rest\<close> is still to come.
\<close>

inductive arrivals :: "string list list \<Rightarrow> string list list \<Rightarrow> string list \<Rightarrow> bool" for xss where
  arr_none: "arrivals xss xss []"
| arr_next: "arrivals xss rest ys \<Longrightarrow> i < length rest \<Longrightarrow> rest ! i = v # vs \<Longrightarrow>
     arrivals xss (rest[i := vs]) (ys @ [v])"

inductive_cases arrivals_snocE: "arrivals xss rest (ys @ [v])"

lemma firsts_snoc: "firsts (ys @ [v]) = (if v \<in> set ys then firsts ys else firsts ys @ [v])"
  by (induction ys) auto

text \<open>
  Readers that deliver prefixes of one list without repetitions: what has arrived, copies left out, is
  a prefix of it, as far as the reader that is furthest.
\<close>

lemma arrivals_prefix:
  assumes "arrivals xss rest ys" and "distinct L" and "\<forall>xs \<in> set xss. prefix xs L"
  shows "\<exists>k. k \<le> length L \<and> firsts ys = take k L \<and> length rest = length xss \<and>
    (\<forall>i < length xss. \<exists>n \<le> k. rest ! i = drop n (xss ! i))"
  using assms(1)
proof (induction rule: arrivals.induct)
  case arr_none
  show ?case by (intro exI [of _ 0]) auto
next
  case (arr_next rest ys i v vs)
  then obtain k where k: "k \<le> length L" "firsts ys = take k L" "length rest = length xss"
    "\<forall>i < length xss. \<exists>n \<le> k. rest ! i = drop n (xss ! i)" by blast
  have i: "i < length xss" using arr_next.hyps(2) k(3) by simp
  then obtain n where n: "n \<le> k" "v # vs = drop n (xss ! i)" using k(4) arr_next.hyps(3) by metis
  obtain zs where zs: "L = xss ! i @ zs" using assms(3) i by (metis nth_mem prefix_def)
  have nl: "n < length (xss ! i)" using n(2) by (metis drop_all linorder_not_le list.distinct(1))
  have "v # vs = xss ! i ! n # drop (Suc n) (xss ! i)" using n(2) Cons_nth_drop_Suc [OF nl] by simp
  then have vn: "v = xss ! i ! n" and v2: "vs = drop (Suc n) (xss ! i)" by blast+
  have "L ! n = xss ! i ! n" using nl by (subst zs) (simp only: nth_append if_True)
  moreover have "n < length L" using nl by (subst zs) (simp only: length_append trans_less_add1)
  ultimately have v: "v = L ! n" "vs = drop (Suc n) (xss ! i)" "n < length L"
    by (simp_all only: vn v2)
  have ys: "set ys = set (take k L)" using firsts_set [of ys] k(2) by simp
  let ?k = "if n < k then k else Suc k"
  have "firsts (ys @ [v]) = take ?k L"
  proof (cases "n < k")
    case True
    then have "v \<in> set ys" using v k(1) by (auto simp: ys in_set_conv_nth)
    with True k(2) show ?thesis by (simp add: firsts_snoc)
  next
    case False
    with n(1) have "n = k" by simp
    then have "v \<notin> set ys"
      using v(1,3) assms(2) by (auto simp: ys in_set_conv_nth nth_eq_iff_index_eq)
    with \<open>n = k\<close> v k(2) show ?thesis by (simp add: firsts_snoc take_Suc_conv_app_nth)
  qed
  moreover have "?k \<le> length L" using k(1) n(1) v(3) by auto
  moreover have "\<exists>m \<le> ?k. rest[i := vs] ! j = drop m (xss ! j)" if j: "j < length xss" for j
  proof (cases "j = i")
    case True
    then show ?thesis using v(2) n(1) i k(3) by (intro exI [of _ "Suc n"]) auto
  next
    case False
    obtain m where "m \<le> k" "rest ! j = drop m (xss ! j)" using k(4) j by blast
    with False show ?thesis by (intro exI [of _ m]) auto
  qed
  ultimately show ?case using k(3) by (intro exI [of _ ?k] conjI) simp_all
qed

section \<open>The messages of a log\<close>

text \<open>An entry that a session's reader made: a line with its newline.\<close>

definition chat_line :: "raft_log \<Rightarrow> bool" where
  "chat_line e \<longleftrightarrow> one_line (log_data e)"

lemma chat_message_line: "chat_line e \<Longrightarrow> one_line (chat_message e)"
  by (auto simp: chat_line_def one_line_def chat_message_def butlast_append format_uint_def)

lemma chat_message_inject: "chat_message e = chat_message e' \<Longrightarrow> log_index e = log_index e'"
proof -
  assume "chat_message e = chat_message e'"
  then have "go_split dash (chat_message e) ! 0 = go_split dash (chat_message e') ! 0" by simp
  then have "nat_digits (unat (log_index e)) = nat_digits (unat (log_index e'))"
    by (simp add: chat_message_def format_uint_def go_split_append)
  moreover have "unat (log_index e) < 2 ^ LENGTH(64)" "unat (log_index e') < 2 ^ LENGTH(64)"
    by (rule unsigned_less)+
  ultimately show ?thesis using nat_digits_inject by (simp add: word_unat_eq_iff)
qed

lemma chat_messages_distinct: "distinct (map log_index es) \<Longrightarrow> distinct (map chat_message es)"
  by (induction es) (auto dest: chat_message_inject)

section \<open>The client's links to the replicas\<close>

text \<open>
  A link: what the replica did before and after the client joined it, the bytes of its stream that have
  arrived, and the turns that the reader's loop has made.
\<close>

record chat_link =
  lk_before :: "chat_event list"
  lk_after :: "chat_event list"
  lk_arrived :: bytes
  lk_turns :: nat

definition link_stream :: "chat_link \<Rightarrow> bytes" where
  "link_stream lk = chat_wire (ch_outgoing
     (cs_clients (chat_run newChatServer (lk_before lk @ Chat_join # lk_after lk))
        ! length (cs_clients (chat_run newChatServer (lk_before lk)))))"

definition link_ok :: "chat_link \<Rightarrow> bool" where
  "link_ok lk \<longleftrightarrow> prefix (lk_arrived lk) (link_stream lk)"

definition link_lines :: "chat_link \<Rightarrow> string list" where
  "link_lines lk = chat_read (lk_turns lk) (lk_arrived lk)"

lemma link_lines_prefix:
  assumes "link_ok lk" and "\<forall>e \<in> set (applied_of (lk_after lk)). chat_line e"
  shows "prefix (link_lines lk) (map chat_message (applied_of (lk_after lk)))"
  unfolding link_lines_def
  using assms
  by (intro chat_read_prefix)
     (auto simp: link_ok_def link_stream_def client_messages chat_wire_concat intro: chat_message_line)

lemma chat_consume_new:
  assumes "card (set vs) \<le> n" and "[] \<notin> set vs"
  shows "\<exists>mq mq'. newMQ (int n) False = Ret mq \<and> chat_consume mq vs = Ret (mq', firsts vs)"
  using chat_consume_state [of "[]" vs n] assms newMQ_state [of n] by auto

text \<open>A client that joined every replica at the same point prints in the order of the log.\<close>

lemma chat_prints_log:
  assumes "\<forall>lk \<in> set lks. link_ok lk \<and> prefix (applied_of (lk_after lk)) es"
    and "distinct (map log_index es)" and "\<forall>e \<in> set es. chat_line e" and "length es \<le> n"
    and "arrivals (map link_lines lks) rest ys"
  shows "\<exists>mq mq' k. newMQ (int n) False = Ret mq \<and>
    chat_consume mq ys = Ret (mq', take k (map chat_message es))"
proof -
  let ?L = "map chat_message es"
  have "prefix (link_lines lk) ?L" if "lk \<in> set lks" for lk
  proof -
    have p: "prefix (applied_of (lk_after lk)) es" using assms(1) that by blast
    then have "\<forall>e \<in> set (applied_of (lk_after lk)). chat_line e" using assms(3) by (meson set_mono_prefix subsetD)
    with assms(1) that have "prefix (link_lines lk) (map chat_message (applied_of (lk_after lk)))"
      by (intro link_lines_prefix) auto
    also have "prefix (map chat_message (applied_of (lk_after lk))) ?L" using p by (rule map_mono_prefix)
    finally show ?thesis .
  qed
  then obtain k where k: "firsts ys = take k ?L"
    using arrivals_prefix [OF assms(5) chat_messages_distinct [OF assms(2)]] by auto
  have ys: "set ys \<subseteq> set ?L" using firsts_set [of ys] k by (metis set_take_subset)
  have "card (set ys) \<le> n"
    using card_mono [OF _ ys] card_length [of ?L] assms(4) by simp
  moreover have "[] \<notin> set ys" using ys by (auto simp: chat_message_def)
  ultimately show ?thesis using chat_consume_new [of ys n] k by auto
qed

text \<open>From which reader each message came: of each, a prefix has arrived.\<close>

lemma arrivals_tagged:
  assumes "arrivals xss rest ys"
  shows "\<exists>hs. map snd hs = ys \<and> length rest = length xss \<and> (\<forall>(i, v) \<in> set hs. i < length xss) \<and>
    (\<forall>i < length xss. map snd (filter (\<lambda>h. fst h = i) hs) @ rest ! i = xss ! i)"
  using assms
proof (induction rule: arrivals.induct)
  case arr_none
  show ?case by (intro exI [of _ "[]"]) simp
next
  case (arr_next rest ys i v vs)
  then obtain hs where hs: "map snd hs = ys" "length rest = length xss" "\<forall>(i, v) \<in> set hs. i < length xss"
    "\<forall>i < length xss. map snd (filter (\<lambda>h. fst h = i) hs) @ rest ! i = xss ! i" by blast
  have "map snd (filter (\<lambda>h. fst h = j) (hs @ [(i, v)])) @ rest[i := vs] ! j = xss ! j" if "j < length xss" for j
    using that hs(4) arr_next.hyps(2,3) by (cases "j = i") (force simp: hs(2))+
  with hs(1-3) arr_next.hyps(2) show ?case by (intro exI [of _ "hs @ [(i, v)]"]) simp
qed

section \<open>Properties\<close>

text \<open>Total order. A client that joined every replica at the same point of the log, and whose queue
  is no smaller than the number of messages since, prints a prefix of the log's messages, each once and in
  the order of the log, at every moment: however far each replica has applied, however much of each stream
  has arrived (even the middle of a message), and in whatever order the readers' messages reached the
  consumer.\<close>

lemma chat_total_order:
  assumes "\<forall>lk \<in> set lks. link_ok lk \<and> prefix (applied_of (lk_after lk)) es"
    and "distinct (map log_index es)" and "\<forall>e \<in> set es. chat_line e" and "length es \<le> n"
    and "arrivals (map link_lines lks) rest ys"
  shows "\<exists>mq mq' k. newMQ (int n) False = Ret mq \<and>
    chat_consume mq ys = Ret (mq', take k (map chat_message es))"
  using assms by (rule chat_prints_log)

text \<open>Links over which everything has arrived and been read.\<close>

definition full_link :: "chat_event list \<Rightarrow> chat_event list \<Rightarrow> chat_link" where
  "full_link before after = \<lparr>lk_before = before, lk_after = after,
     lk_arrived = concat (map chat_message (applied_of after)), lk_turns = length (applied_of after)\<rparr>"

lemma full_link_simps [simp]:
  "lk_before (full_link evs evs') = evs" "lk_after (full_link evs evs') = evs'"
  by (simp_all add: full_link_def)

lemma full_link_ok: "link_ok (full_link before after)"
  by (simp add: link_ok_def link_stream_def client_messages chat_wire_concat full_link_def)

lemma full_link_lines:
  "\<forall>e \<in> set (applied_of after). chat_line e \<Longrightarrow>
     link_lines (full_link before after) = map chat_message (applied_of after)"
  using chat_read_all [of "map chat_message (applied_of after)" "length (applied_of after)"]
  by (auto simp: link_lines_def full_link_def intro: chat_message_line)

definition hi :: raft_log where "hi = \<lparr>log_index = 7, log_data = ''hi'' @ [newline]\<rparr>"
definition yo :: raft_log where "yo = \<lparr>log_index = 8, log_data = ''yo'' @ [newline]\<rparr>"

lemma hi_yo [simp]: "chat_line hi" "chat_line yo" "log_index hi \<noteq> log_index yo"
  by (simp_all add: hi_def yo_def chat_line_def one_line_def)

lemma arr_two:
  assumes "arrivals xss rest ys" and "xss = [u # us, v # vs]" and "rest = [u # us, v # vs]"
  shows "arrivals xss [us, vs] (ys @ [v] @ [u])"
proof -
  have "arrivals xss (rest[1 := vs]) (ys @ [v])" by (rule arr_next [OF assms(1)]) (simp_all add: assms(3))
  then have "arrivals xss ((rest[1 := vs])[0 := us]) ((ys @ [v]) @ [u])"
    by (rule arr_next) (simp_all add: assms(3))
  then show ?thesis by (simp add: assms(3))
qed

text \<open>Two replicas, of which the second is one entry behind.\<close>

text \<open>C37: but a client connects to the replicas one after the other, and what a replica applied before
  the client's join is never sent to it: when it joined one replica before the entry \<open>a\<close> was applied
  there and another one after, it may print \<open>b\<close>, which comes after \<open>a\<close> in the log, before \<open>a\<close>, with a
  queue of any size that holds them.\<close>

theorem chat_late_join_disorder:
  assumes "chat_line a" "chat_line b" and "log_index a \<noteq> log_index b" and "2 \<le> n"
  shows "\<exists>early late ys mq mq'. link_ok early \<and> link_ok late \<and>
    applied_of (lk_before early @ lk_after early) = [a, b] \<and>
    applied_of (lk_before late @ lk_after late) = [a, b] \<and>
    arrivals [link_lines early, link_lines late] [[chat_message b], []] ys \<and>
    newMQ (int n) False = Ret mq \<and> chat_consume mq ys = Ret (mq', [chat_message b, chat_message a])"
proof -
  let ?early = "full_link [] [Chat_apply a, Chat_apply b]" and ?late = "full_link [Chat_apply a] [Chat_apply b]"
  let ?a = "chat_message a" and ?b = "chat_message b"
  have l: "[link_lines ?early, link_lines ?late] = [[?a, ?b], [?b]]"
    using assms(1,2) by (simp add: full_link_lines)
  have "arrivals [link_lines ?early, link_lines ?late] [[?b], []] ([] @ [?b] @ [?a])"
    unfolding l by (rule arr_two [OF arr_none]) simp_all
  then have arr: "arrivals [link_lines ?early, link_lines ?late] [[?b], []] [?b, ?a]" by simp
  have "?b \<noteq> ?a" using assms(3) chat_message_inject by metis
  then have f: "firsts [?b, ?a] = [?b, ?a]" by auto
  have "card (set [?b, ?a]) \<le> n" using card_length [of "[?b, ?a]"] assms(4) by simp
  moreover have "[] \<notin> set [?b, ?a]" by (auto simp: chat_message_def)
  ultimately obtain mq mq' where "newMQ (int n) False = Ret mq" "chat_consume mq [?b, ?a] = Ret (mq', [?b, ?a])"
    using chat_consume_new [of "[?b, ?a]" n] f by auto
  with arr show ?thesis
    by (intro exI [of _ ?early] exI [of _ ?late] exI [of _ "[?b, ?a]"] exI [of _ mq] exI [of _ mq'])
       (simp add: full_link_ok)
qed

lemma chat_late_join_disorder_witness:
  "\<exists>early late ys mq mq'. arrivals [link_lines early, link_lines late] [[chat_message yo], []] ys \<and>
     newMQ (int 2) False = Ret mq \<and> chat_consume mq ys = Ret (mq', [chat_message yo, chat_message hi])"
  using chat_late_join_disorder [OF hi_yo order_refl] by blast

end
