(* ===== verification/Client_Main.thy ===== *)
theory Client_Main
  imports Instances Chat_Room
begin

text \<open>
  The programs of the two clients (\<open>main\<close> of \<open>client/seqClient.go\<close> and \<open>chatRoom/client/chatClient.go\<close>):
  how they start, and the loop that reads the lines typed, sends each to the replicas and, in the
  sequential client, waits for a reply. The loops need not end; they are partial functions, None when
  they run for ever, and when they end is proved.
\<close>

section \<open>Lines of standard input\<close>

function complete_lines :: "bytes \<Rightarrow> bytes list" where
  "complete_lines s =
     (case read_line s of (line, ok, rest) \<Rightarrow> (if ok then line # complete_lines rest else []))"
  by pat_completeness auto
termination
  by (relation "measure length") (auto dest: read_line_shorter [OF sym])

declare complete_lines.simps [simp del]

section \<open>The sequential client\<close>

text \<open>\<open>StartUDP\<close> on what \<open>net.ListenUDP\<close> returns for the client's address and port.\<close>

definition client_startUDP :: "(string \<Rightarrow> int \<Rightarrow> go_error option) \<Rightarrow> client_info \<Rightarrow> go_error option" where
  "client_startUDP listenUDP ci = listenUDP (ci_localip ci) (ci_udpport ci)"

text \<open>
  The loop on the bytes of standard input and on what the socket receives, one datagram or error per
  read, nothing when they are used up; \<open>out\<close> is what was printed.
\<close>

partial_function (option) client_main_loop ::
  "client_info \<Rightarrow> bytes \<Rightarrow> (go_error + bytes) list \<Rightarrow> string list \<Rightarrow> (client_info \<times> string list outcome) option" where
  "client_main_loop ci s udp out =
     (case read_line s of (text, ok, rest) \<Rightarrow>
        (if \<not> ok then client_main_loop ci rest udp out
         else if prefix ''exit'' text then
           (case client_shutdown ci of (ci', r) \<Rightarrow> Some (ci', outcome_bind r (\<lambda>_. Ret out)))
         else (case client_broadcast ci (text @ [newline]) of (ci', r) \<Rightarrow>
           (case r of
              Ret (Some e) \<Rightarrow> client_main_loop ci' rest udp out
            | Ret None \<Rightarrow>
                (case udp of
                   [] \<Rightarrow> Some (ci', Blocked)
                 | d # udp' \<Rightarrow> client_main_loop ci' rest udp' (out @ [''Received message: '' @ fst (client_readUDP d)]))
            | Panic e \<Rightarrow> Some (ci', Panic e)
            | Fatal e \<Rightarrow> Some (ci', Fatal e)
            | Blocked \<Rightarrow> Some (ci', Blocked)))))"

definition client_main ::
  "string \<Rightarrow> string list option \<Rightarrow> string \<Rightarrow> go_error + client_info \<Rightarrow> (string \<Rightarrow> go_error + conn)
    \<Rightarrow> (string \<Rightarrow> int \<Rightarrow> go_error option) \<Rightarrow> bytes \<Rightarrow> (go_error + bytes) list \<Rightarrow> string list outcome option" where
  "client_main configFilename kubeIps podIP toml dial listenUDP s udp =
     (if configFilename = [] then Some (Fatal (Errorf ''must set a config filepath: ./client -config'' []))
      else (case client_new kubeIps podIP toml of
          Inl e \<Rightarrow> Some (Fatal (Errorf ''failed to find config: %s'' []))
        | Inr ci \<Rightarrow>
            (case client_connect dial ci of (ci', r) \<Rightarrow>
              (case outcome_bind r (\<lambda>err. case err of
                   Some e \<Rightarrow> Fatal (Errorf ''failed to connect to cluster: %s'' [])
                 | None \<Rightarrow> (case client_startUDP listenUDP ci' of
                     Some e \<Rightarrow> Fatal (Errorf ''failed to initialize UDP socket: %s'' [])
                   | None \<Rightarrow> Ret ())) of
                 Ret u \<Rightarrow> map_option snd (client_main_loop ci' s udp [])
               | Panic e \<Rightarrow> Some (Panic e) | Fatal e \<Rightarrow> Some (Fatal e) | Blocked \<Rightarrow> Some Blocked))))"

section \<open>The chat client\<close>

definition chat_disconnect :: "chat_info \<Rightarrow> chat_info \<times> unit outcome" where
  "chat_disconnect ci = (let (cs, r) = close_all (ch_svrs ci) in (ci\<lparr>ch_svrs := cs\<rparr>, r))"

text \<open>
  \<open>Shutdown\<close> closes the channel \<open>incoming\<close> after the connections. Its readers are not stopped: \<open>late\<close>
  says whether one of them still has a line to send, which then panics.
\<close>

definition chat_client_shutdown :: "bool \<Rightarrow> chat_info \<Rightarrow> chat_info \<times> unit outcome" where
  "chat_client_shutdown late ci =
     (let (ci', r) = chat_disconnect ci
      in (ci', outcome_bind r (\<lambda>_. if late then Panic (Lib_error ''send on closed channel'') else Ret ())))"

partial_function (option) chat_main_loop :: "bool \<Rightarrow> chat_info \<Rightarrow> bytes \<Rightarrow> (chat_info \<times> unit outcome) option" where
  "chat_main_loop late ci s =
     (case read_line s of (text, ok, rest) \<Rightarrow>
        (if \<not> ok then chat_main_loop late ci rest
         else if contains_str text ''exit'' then Some (chat_client_shutdown late ci)
         else (case chat_broadcast ci (text @ [newline]) of (ci', r) \<Rightarrow>
           (case r of
              Ret err \<Rightarrow> chat_main_loop late ci' rest
            | Panic e \<Rightarrow> Some (ci', Panic e)
            | Fatal e \<Rightarrow> Some (ci', Fatal e)
            | Blocked \<Rightarrow> Some (ci', Blocked)))))"

definition chat_main ::
  "bool \<Rightarrow> string \<Rightarrow> go_error + (int \<times> string list \<times> int) \<Rightarrow> (string \<Rightarrow> go_error + conn) \<Rightarrow> bytes
    \<Rightarrow> unit outcome option" where
  "chat_main late configFilename toml dial s =
     (if configFilename = [] then Some (Fatal (Errorf ''must set a config filepath: ./client -config'' []))
      else (case chat_new toml of
          Ret (Inr ci) \<Rightarrow>
            (case chat_connect dial ci of
               (ci', Ret None) \<Rightarrow> map_option snd (chat_main_loop late ci' s)
             | (ci', Ret (Some e)) \<Rightarrow> Some (Fatal (Errorf ''failed to connect to cluster: %s'' []))
             | (ci', Panic e) \<Rightarrow> Some (Panic e) | (ci', Fatal e) \<Rightarrow> Some (Fatal e) | (ci', Blocked) \<Rightarrow> Some Blocked)
        | Ret (Inl e) \<Rightarrow> Some (Fatal (Errorf ''failed to find config: %s'' []))
        | Panic e \<Rightarrow> Some (Panic e) | Fatal e \<Rightarrow> Some (Fatal e) | Blocked \<Rightarrow> Some Blocked))"

section \<open>When the loops end\<close>

text \<open>At the end of standard input \<open>ReadString\<close> returns at once, with an error, for ever.\<close>

lemma client_main_loop_eof: "client_main_loop ci [] udp out = None"
proof -
  have "client_main_loop ci s udp out = Some r \<Longrightarrow> s \<noteq> []" for ci s udp out r
  proof (rule client_main_loop.raw_induct [where P = "\<lambda>ci s udp out r. s \<noteq> []"])
    fix f :: "client_info \<Rightarrow> bytes \<Rightarrow> (go_error + bytes) list \<Rightarrow> string list \<Rightarrow> (client_info \<times> string list outcome) option"
      and ci s udp out r
    assume IH: "\<And>ci s udp out r. f ci s udp out = Some r \<Longrightarrow> s \<noteq> []"
    assume eq: "(case read_line s of (text, ok, rest) \<Rightarrow>
        (if \<not> ok then f ci rest udp out
         else if prefix ''exit'' text then
           (case client_shutdown ci of (ci', r) \<Rightarrow> Some (ci', outcome_bind r (\<lambda>_. Ret out)))
         else (case client_broadcast ci (text @ [newline]) of (ci', r) \<Rightarrow>
           (case r of
              Ret (Some e) \<Rightarrow> f ci' rest udp out
            | Ret None \<Rightarrow>
                (case udp of
                   [] \<Rightarrow> Some (ci', Blocked)
                 | d # udp' \<Rightarrow> f ci' rest udp' (out @ [''Received message: '' @ fst (client_readUDP d)]))
            | Panic e \<Rightarrow> Some (ci', Panic e)
            | Fatal e \<Rightarrow> Some (ci', Fatal e)
            | Blocked \<Rightarrow> Some (ci', Blocked))))) = Some r"
    show "s \<noteq> []"
    proof
      assume "s = []"
      with eq have "f ci [] udp out = Some r" by simp
      with IH show False by blast
    qed
  qed
  then show ?thesis by (cases "client_main_loop ci [] udp out") blast+
qed

lemma chat_main_loop_eof: "chat_main_loop late ci [] = None"
proof -
  have "chat_main_loop late ci s = Some r \<Longrightarrow> s \<noteq> []" for late ci s r
  proof (rule chat_main_loop.raw_induct [where P = "\<lambda>late ci s r. s \<noteq> []"])
    fix f :: "bool \<Rightarrow> chat_info \<Rightarrow> bytes \<Rightarrow> (chat_info \<times> unit outcome) option" and late ci s r
    assume IH: "\<And>late ci s r. f late ci s = Some r \<Longrightarrow> s \<noteq> []"
    assume eq: "(case read_line s of (text, ok, rest) \<Rightarrow>
        (if \<not> ok then f late ci rest
         else if contains_str text ''exit'' then Some (chat_client_shutdown late ci)
         else (case chat_broadcast ci (text @ [newline]) of (ci', r) \<Rightarrow>
           (case r of
              Ret err \<Rightarrow> f late ci' rest
            | Panic e \<Rightarrow> Some (ci', Panic e)
            | Fatal e \<Rightarrow> Some (ci', Fatal e)
            | Blocked \<Rightarrow> Some (ci', Blocked))))) = Some r"
    show "s \<noteq> []"
    proof
      assume "s = []"
      with eq have "f late ci [] = Some r" by simp
      with IH show False by blast
    qed
  qed
  then show ?thesis by (cases "chat_main_loop late ci []") blast+
qed

text \<open>Connections that are there and take what is written.\<close>

definition links_ok :: "conn option list \<Rightarrow> bool" where
  "links_ok cs \<longleftrightarrow> (\<forall>c \<in> set cs. \<exists>d. c = Some d \<and> cn_err d = None)"

lemma links_okE:
  assumes "links_ok cs"
  obtains ds where "cs = map Some ds" and "\<forall>d \<in> set ds. cn_err d = None"
  using assms
proof (induction cs arbitrary: thesis)
  case Nil
  from Nil.prems(1) [of "[]"] show ?case by simp
next
  case (Cons c cs)
  then obtain d where d: "c = Some d" "cn_err d = None" by (auto simp: links_ok_def)
  from Cons.prems(2) have "links_ok cs" by (simp add: links_ok_def)
  then obtain ds where "cs = map Some ds" "\<forall>d \<in> set ds. cn_err d = None" using Cons.IH by blast
  with Cons.prems(1) [of "d # ds"] d show ?case by simp
qed

lemma send_all_links:
  assumes "links_ok cs"
  shows "\<exists>cs'. send_all msg cs = (cs', Ret None) \<and> links_ok cs'"
proof -
  obtain ds where ds: "cs = map Some ds" "\<forall>d \<in> set ds. cn_err d = None" by (rule links_okE [OF assms])
  then show ?thesis using send_all_ok [OF ds(2), of msg] by (simp add: links_ok_def)
qed

lemma close_all_links:
  assumes "links_ok cs"
  shows "snd (close_all cs) = Ret ()"
proof -
  obtain ds where "cs = map Some ds" by (rule links_okE [OF assms])
  then show ?thesis by (simp add: close_all_ok)
qed

lemma complete_lines_step:
  "read_line s = (t, ok, rest) \<Longrightarrow> complete_lines s = (if ok then t # complete_lines rest else [])"
  by (simp add: complete_lines.simps [of s])

definition received :: "go_error + bytes \<Rightarrow> string" where
  "received d = ''Received message: '' @ fst (client_readUDP d)"

lemma client_main_loop_ends:
  "links_ok (ci_svrs ci) \<Longrightarrow>
   map_option snd (client_main_loop ci s udp out) =
     (let ls = complete_lines s; n = length (takeWhile (\<lambda>l. \<not> prefix ''exit'' l) ls)
      in if length udp < n then Some Blocked
         else if n < length ls then Some (Ret (out @ map received (take n udp)))
         else None)"
proof (induction s arbitrary: ci udp out rule: complete_lines.induct)
  case (1 s)
  obtain t ok rest where rl: "read_line s = (t, ok, rest)" by (metis prod_cases3)
  note cl = complete_lines_step [OF rl]
  show ?case
  proof (cases ok)
    case False
    then have "rest = []" using read_line_rest [OF rl] by simp
    then have "client_main_loop ci s udp out = None"
      using False client_main_loop_eof by (simp add: client_main_loop.simps [of ci s] rl)
    with False cl show ?thesis by simp
  next
    case True
    show ?thesis
    proof (cases "prefix ''exit'' t")
      case ex: True
      have "snd (client_shutdown ci) = Ret ()"
        using close_all_links [OF "1.prems"]
        by (simp add: client_shutdown_def client_disconnect_def split_beta Let_def)
      then have "map_option snd (client_main_loop ci s udp out) = Some (Ret out)"
        using True ex by (simp add: client_main_loop.simps [of ci s] rl split_beta)
      with ex True cl show ?thesis by simp
    next
      case ex: False
      obtain cs' where b: "send_all (itoa (ci_udpport ci) @ ''-'' @ t @ [newline]) (ci_svrs ci) = (cs', Ret None)"
        and ok': "links_ok cs'" using send_all_links [OF "1.prems"] by blast
      let ?ci = "ci\<lparr>ci_svrs := cs'\<rparr>"
      have loop: "client_main_loop ci s udp out =
          (case udp of [] \<Rightarrow> Some (?ci, Blocked)
           | d # udp' \<Rightarrow> client_main_loop ?ci rest udp' (out @ [received d]))"
        using True ex b
        by (simp add: client_main_loop.simps [of ci s] rl client_broadcast_def received_def split: list.split)
      show ?thesis
      proof (cases udp)
        case Nil
        with loop cl True ex show ?thesis by simp
      next
        case (Cons d udp')
        have "links_ok (ci_svrs ?ci)" using ok' by simp
        from "1.IH" [OF rl [symmetric] refl True this, of udp' "out @ [received d]"] show ?thesis
          using loop cl True ex Cons by (simp add: Let_def)
      qed
    qed
  qed
qed

lemma chat_main_loop_ends:
  "links_ok (ch_svrs ci) \<Longrightarrow>
   map_option snd (chat_main_loop late ci s) =
     (if \<exists>l \<in> set (complete_lines s). contains_str l ''exit''
      then Some (if late then Panic (Lib_error ''send on closed channel'') else Ret ()) else None)"
proof (induction s arbitrary: ci rule: complete_lines.induct)
  case (1 s)
  obtain t ok rest where rl: "read_line s = (t, ok, rest)" by (metis prod_cases3)
  note cl = complete_lines_step [OF rl]
  show ?case
  proof (cases ok)
    case False
    then have "rest = []" using read_line_rest [OF rl] by simp
    then have "chat_main_loop late ci s = None"
      using False chat_main_loop_eof by (simp add: chat_main_loop.simps [of late ci s] rl)
    with False cl show ?thesis by simp
  next
    case True
    show ?thesis
    proof (cases "contains_str t ''exit''")
      case ex: True
      have "snd (chat_disconnect ci) = Ret ()"
        using close_all_links [OF "1.prems"] by (simp add: chat_disconnect_def split_beta Let_def)
      then have "map_option snd (chat_main_loop late ci s) =
          Some (if late then Panic (Lib_error ''send on closed channel'') else Ret ())"
        using True ex by (simp add: chat_main_loop.simps [of late ci s] rl chat_client_shutdown_def split_beta Let_def)
      with ex True cl show ?thesis by simp
    next
      case ex: False
      obtain cs' where b: "send_all (t @ [newline]) (ch_svrs ci) = (cs', Ret None)"
        and ok': "links_ok cs'" using send_all_links [OF "1.prems"] by blast
      let ?ci = "ci\<lparr>ch_svrs := cs'\<rparr>"
      have loop: "chat_main_loop late ci s = chat_main_loop late ?ci rest"
        using True ex b by (simp add: chat_main_loop.simps [of late ci s] rl chat_broadcast_def)
      have "links_ok (ch_svrs ?ci)" using ok' by simp
      from "1.IH" [OF rl [symmetric] refl True this] show ?thesis using loop cl True ex by simp
    qed
  qed
qed

text \<open>Connecting when every dial succeeds and \<open>Rep\<close> is the number of addresses.\<close>

lemma connect_links:
  assumes "\<forall>v \<in> set vs. \<exists>c. dial v = Inr c \<and> cn_err c = None" and "rep = int (length vs)"
  shows "\<exists>cs. connect_loop dial 0 vs (replicate (nat rep) None) = (cs, Ret None) \<and> links_ok cs"
proof -
  have d: "\<forall>v \<in> set vs. \<exists>c. dial v = Inr c" using assms(1) by blast
  have "links_ok (map (\<lambda>v. Some (projr (dial v))) vs)" using assms(1) by (force simp: links_ok_def)
  then show ?thesis using connect_loop_all [OF d, of 0 "replicate (length vs) None"] assms(2) by simp
qed

section \<open>Properties\<close>

text \<open>C18: when the sequential client ends. Connected to all its replicas, and as long as no write fails,
  it asks for one datagram per line typed: with fewer datagrams than lines before the first that starts
  with \<open>exit\<close> it waits for ever; else it ends at that line, having printed what each datagram gave; and
  when standard input ends without such a line it never ends.\<close>

theorem client_main_ends:
  assumes "configFilename \<noteq> []" and "client_new kubeIps podIP toml = Inr ci"
    and "\<forall>v \<in> set (ci_svrIps ci). \<exists>c. dial v = Inr c \<and> cn_err c = None"
    and "ci_rep ci = int (length (ci_svrIps ci))" and "listenUDP (ci_localip ci) (ci_udpport ci) = None"
  shows "client_main configFilename kubeIps podIP toml dial listenUDP s udp =
    (let ls = complete_lines s; n = length (takeWhile (\<lambda>l. \<not> prefix ''exit'' l) ls)
     in if length udp < n then Some Blocked
        else if n < length ls then Some (Ret (map received (take n udp)))
        else None)"
proof -
  obtain cs where cs: "connect_loop dial 0 (ci_svrIps ci) (replicate (nat (ci_rep ci)) None) = (cs, Ret None)"
    "links_ok cs" using connect_links [OF assms(3,4)] by blast
  have "client_main configFilename kubeIps podIP toml dial listenUDP s udp =
      map_option snd (client_main_loop (ci\<lparr>ci_svrs := cs\<rparr>) s udp [])"
    using assms(1,2,4,5) cs(1) by (simp add: client_main_def client_connect_def client_startUDP_def)
  moreover have "links_ok (ci_svrs (ci\<lparr>ci_svrs := cs\<rparr>))" using cs(2) by simp
  ultimately show ?thesis
    using client_main_loop_ends [of "ci\<lparr>ci_svrs := cs\<rparr>" s udp "[]"] by (simp only: append_Nil simp_thms)
qed

lemma demo_stdin: "complete_lines (''get-1'' @ [newline] @ ''exit'' @ [newline]) = [''get-1'' @ [newline], ''exit'' @ [newline]]"
  by (simp add: complete_lines.simps)

lemma client_main_ends_witness:
  "client_main ''c.toml'' None [] (Inr (demo_client\<lparr>ci_svrs := []\<rparr>)) (\<lambda>v. Inr \<lparr>cn_out = [], cn_err = None\<rparr>) (\<lambda>_ _. None)
     (''get-1'' @ [newline] @ ''exit'' @ [newline]) [Inl (Lib_error ''timeout'')] = Some (Ret [''Received message: ''])"
  using client_main_ends [of "''c.toml''" None "[]" "Inr (demo_client\<lparr>ci_svrs := []\<rparr>)" "demo_client\<lparr>ci_svrs := []\<rparr>"
      "\<lambda>v. Inr \<lparr>cn_out = [], cn_err = None\<rparr>" "\<lambda>_ _. None" "''get-1'' @ [newline] @ ''exit'' @ [newline]" "[Inl (Lib_error ''timeout'')]"]
  unfolding demo_stdin
  by (simp add: client_new_def demo_client_def received_def client_readUDP_def)



end
