(* ===== verification/Chat_Typed.thy ===== *)
theory Chat_Typed
  imports Client_Main "HOL-Library.Multiset"
begin

text \<open>
  From the lines typed at a chat client to Raft: what \<open>main\<close> of \<open>chatRoom/client/chatClient.go\<close> writes to
  every connection until it ends, what a session of each replica (\<open>chatRoom/server/sessions.go\<close>) reads from
  it, and which messages \<open>Listen\<close> of \<open>chatRoom/server/chatServer.go\<close> proposes.
\<close>

section \<open>What the client writes\<close>

text \<open>The lines before the one that ends the client.\<close>

definition lines_before_exit :: "bytes \<Rightarrow> bytes list" where
  "lines_before_exit s = takeWhile (\<lambda>l. \<not> contains_str l ''exit'') (complete_lines s)"

text \<open>The messages among them: an empty line is none.\<close>

definition typed :: "bytes \<Rightarrow> string list" where
  "typed s = filter (\<lambda>l. 1 < length l) (lines_before_exit s)"

lemma read_line_body:
  assumes "read_line s = (l, True, rest)"
  shows "\<exists>b. l = b @ [newline] \<and> newline \<notin> set b"
proof (cases "newline \<in> set s")
  case True
  then obtain b t where "s = b @ newline # t" "newline \<notin> set b" by (metis split_list_first)
  with assms have "l = b @ [newline]" by (simp add: read_line_newline)
  with \<open>newline \<notin> set b\<close> show ?thesis by blast
qed (use assms read_line_eof in force)

lemma complete_lines_body: "l \<in> set (complete_lines s) \<Longrightarrow> \<exists>b. l = b @ [newline] \<and> newline \<notin> set b"
proof (induction s rule: complete_lines.induct)
  case (1 s)
  obtain t ok rest where rl: "read_line s = (t, ok, rest)" by (metis prod_cases3)
  with "1.prems" have "ok" by (simp add: complete_lines_step [OF rl] split: if_splits)
  with "1.IH" [OF rl [symmetric] refl] "1.prems" read_line_body [of s t rest] rl show ?case
    by (auto simp: complete_lines_step [OF rl])
qed

lemma chat_main_loop_writes:
  "ch_svrs ci = map Some cs \<Longrightarrow> \<forall>d \<in> set cs. cn_err d = None \<Longrightarrow>
   \<exists>l \<in> set (complete_lines s). contains_str l ''exit'' \<Longrightarrow>
   \<exists>ci' r. chat_main_loop late ci s = Some (ci', r) \<and>
     ch_svrs ci' = map (\<lambda>d. Some (d\<lparr>cn_out := cn_out d @ stream_of (lines_before_exit s), cn_err := Some closed_conn\<rparr>)) cs"
proof (induction s arbitrary: ci cs rule: complete_lines.induct)
  case (1 s)
  obtain t ok rest where rl: "read_line s = (t, ok, rest)" by (metis prod_cases3)
  note cl = complete_lines_step [OF rl]
  have ok using "1.prems"(3) cl by (simp split: if_splits)
  show ?case
  proof (cases "contains_str t ''exit''")
    case True
    with \<open>ok\<close> "1.prems"(1) show ?thesis
      by (simp add: chat_main_loop.simps [of late ci s] rl chat_client_shutdown_def chat_disconnect_def close_all_ok
          lines_before_exit_def cl stream_of_def)
  next
    case False
    let ?cs = "map (\<lambda>d. d\<lparr>cn_out := cn_out d @ t @ [newline]\<rparr>) cs" and ?ci = "\<lambda>cs. ci\<lparr>ch_svrs := map Some cs\<rparr>"
    have "chat_broadcast ci (t @ [newline]) = (?ci ?cs, Ret None)"
      using "1.prems"(1) send_all_ok [OF "1.prems"(2)] by (simp add: chat_broadcast_def comp_def)
    then have loop: "chat_main_loop late ci s = chat_main_loop late (?ci ?cs) rest"
      using \<open>ok\<close> False by (simp add: chat_main_loop.simps [of late ci s] rl)
    have later: "\<exists>l \<in> set (complete_lines rest). contains_str l ''exit''" using "1.prems"(3) \<open>ok\<close> False cl by auto
    have "\<forall>d \<in> set ?cs. cn_err d = None" using "1.prems"(2) by simp
    from "1.IH" [OF rl [symmetric] refl \<open>ok\<close> _ this later, of "?ci ?cs"] show ?thesis
      using \<open>ok\<close> False by (simp add: loop lines_before_exit_def cl stream_of_def comp_def)
  qed
qed

section \<open>What a session reads\<close>

lemma chat_session_turns_eof: "chat_session_turns n [] sent = sent"
  using chat_session_turns_lines [of "[]" "[]" n sent] by simp

text \<open>Each line typed arrives as two: itself and the empty line that \<open>main\<close> adds, which is dropped.\<close>

lemma chat_session_turns_stream:
  "\<forall>l \<in> set ls. \<exists>b. l = b @ [newline] \<and> newline \<notin> set b \<Longrightarrow> 2 * length ls \<le> n \<Longrightarrow>
     chat_session_turns n (stream_of ls) sent = sent @ filter (\<lambda>l. 1 < length l) ls"
proof (induction ls arbitrary: n sent)
  case Nil
  then show ?case by (simp add: stream_of_def chat_session_turns_eof)
next
  case (Cons l ls)
  then obtain b where b: "l = b @ [newline]" "newline \<notin> set b" by auto
  from Cons.prems(2) obtain m where n: "n = Suc (Suc m)" "2 * length ls \<le> m" by (cases n; cases "n - 1") auto
  have "read_line (stream_of (l # ls)) = (l, True, newline # stream_of ls)"
    using read_line_newline [OF b(2)] by (simp add: b(1) stream_of_def)
  moreover have "read_line (newline # stream_of ls) = ([newline], True, stream_of ls)"
    using read_line_newline [of "[]"] by simp
  ultimately show ?case using Cons.IH [OF _ n(2)] Cons.prems(1) by (simp add: n(1))
qed

section \<open>What the replicas propose\<close>

text \<open>A replica that takes one client and then its messages; \<open>leads k\<close> tells whether it leads when it takes
  message \<open>k\<close>.\<close>

definition chat_serve :: "(nat \<Rightarrow> bool) \<Rightarrow> string list \<Rightarrow> chat_server" where
  "chat_serve leads msgs =
     fold (\<lambda>(k, data) s. chat_listen (leads k) s (Chat_incoming data)) (enumerate 0 msgs)
       (chat_listen False newChatServer Chat_conn)"

lemma chat_receives_proposed:
  "cs_proposed (fold (\<lambda>(k, data) s. chat_listen (leads k) s (Chat_incoming data)) ms s) =
     cs_proposed s @ map snd (filter (\<lambda>(k, data). leads k) ms)"
  by (induction ms arbitrary: s) (auto simp: chat_listen_def chat_receive_def)

lemma chat_serve_proposed:
  "cs_proposed (chat_serve leads msgs) = map snd (filter (\<lambda>(k, data). leads k) (enumerate 0 msgs))"
  unfolding chat_serve_def chat_receives_proposed
  by (simp add: chat_listen_def chat_join_def newChatServer_def)

lemma one_taker:
  fixes n :: nat
  assumes "\<exists>!i. i < n \<and> P i"
  shows "(\<Sum>i<n. if P i then {#x#} else {#}) = {#x#}"
proof -
  from assms obtain j where j: "j < n" "P j" "\<And>i. i < n \<Longrightarrow> P i \<Longrightarrow> i = j" by blast
  have "(\<Sum>i<n. if P i then {#x#} else {#}) = (\<Sum>i<n. if i = j then {#x#} else {#})"
  proof (rule sum.cong)
    fix i assume "i \<in> {..<n}"
    then have "P i \<longleftrightarrow> i = j" using j(2) j(3) [of i] by blast
    then show "(if P i then {#x#} else {#}) = (if i = j then {#x#} else {#})" by simp
  qed simp
  also have "\<dots> = {#x#}" using j(1) by simp
  finally show ?thesis .
qed

lemma one_leader_each:
  fixes n :: nat
  shows "\<forall>k. m \<le> k \<and> k < m + length msgs \<longrightarrow> (\<exists>!i. i < n \<and> leads i k) \<Longrightarrow>
     (\<Sum>i<n. mset (map snd (filter (\<lambda>(k, data). leads i k) (enumerate m msgs)))) = mset msgs"
proof (induction msgs arbitrary: m)
  case (Cons x msgs)
  let ?f = "\<lambda>i. mset (map snd (filter (\<lambda>(k, data). leads i k) (enumerate (Suc m) msgs)))"
  have "(\<Sum>i<n. if leads i m then {#x#} else {#}) = {#x#}" by (rule one_taker) (use Cons.prems in simp)
  moreover have "(\<Sum>i<n. ?f i) = mset msgs" by (rule Cons.IH) (use Cons.prems in simp)
  moreover have "(\<Sum>i<n. mset (map snd (filter (\<lambda>(k, data). leads i k) (enumerate m (x # msgs))))) =
      (\<Sum>i<n. (if leads i m then {#x#} else {#}) + ?f i)"
    by (rule sum.cong) simp_all
  ultimately show ?case by (simp add: sum.distrib)
qed simp

section \<open>From every keyboard to every screen\<close>

lemma chat_session_turns_acc: "chat_session_turns n s sent = sent @ chat_session_turns n s []"
proof (induction n arbitrary: s sent)
  case (Suc n)
  obtain line ok rest where rl: "read_line s = (line, ok, rest)" by (metis prod_cases3)
  show ?case using Suc [of rest "sent @ [line]"] Suc [of rest sent] Suc [of rest "[line]"] by (simp add: rl)
qed simp

lemma chat_session_turns_mono: "n \<le> m \<Longrightarrow> prefix (chat_session_turns n s []) (chat_session_turns m s [])"
proof (induction n arbitrary: m s)
  case (Suc n)
  then obtain m' where m: "m = Suc m'" "n \<le> m'" by (cases m) auto
  obtain line ok rest where rl: "read_line s = (line, ok, rest)" by (metis prod_cases3)
  from Suc.IH [OF m(2), of rest] show ?case
    by (simp add: rl m(1) chat_session_turns_acc [of _ rest "[line]"])
qed simp

text \<open>What a replica's connection carries from a chat client that ended.\<close>

definition chat_sent :: "bytes \<Rightarrow> bytes \<Rightarrow> bool" where
  "chat_sent s stream \<longleftrightarrow>
     (\<exists>ci cs late ci' r d. ch_svrs ci = map Some cs \<and> (\<forall>d \<in> set cs. cn_err d = None \<and> cn_out d = []) \<and>
        chat_main_loop late ci s = Some (ci', r) \<and> Some d \<in> set (ch_svrs ci') \<and> stream = cn_out d \<and>
        (\<exists>l \<in> set (complete_lines s). contains_str l ''exit''))"

lemma lines_before_exit_body:
  "\<forall>l \<in> set (lines_before_exit s). \<exists>b. l = b @ [newline] \<and> newline \<notin> set b"
  using complete_lines_body by (auto simp: lines_before_exit_def dest: set_takeWhileD)

lemma chat_sent_session:
  assumes "chat_sent s stream"
  shows "prefix (chat_session_turns n stream []) (typed s)"
proof -
  obtain ci cs late ci' r d where c: "ch_svrs ci = map Some cs" "\<forall>d \<in> set cs. cn_err d = None \<and> cn_out d = []"
    "chat_main_loop late ci s = Some (ci', r)" "Some d \<in> set (ch_svrs ci')" "stream = cn_out d"
    "\<exists>l \<in> set (complete_lines s). contains_str l ''exit''"
    using assms unfolding chat_sent_def by metis
  have "\<forall>d \<in> set cs. cn_err d = None" using c(2) by simp
  from chat_main_loop_writes [OF c(1) this c(6), of late] c(2-5) have st: "stream = stream_of (lines_before_exit s)"
    by auto
  have "chat_session_turns (max n (2 * length (lines_before_exit s))) stream [] = typed s"
    using chat_session_turns_stream [OF lines_before_exit_body] by (simp add: st typed_def)
  then show ?thesis using chat_session_turns_mono [of n "max n (2 * length (lines_before_exit s))" stream] by simp
qed

lemma typed_line: "l \<in> set (typed s) \<Longrightarrow> one_line l"
  using lines_before_exit_body [of s] by (auto simp: typed_def one_line_def)

text \<open>The leader takes what its forwarders hold, in some order, and proposes it.\<close>

lemma chat_leader_proposes:
  "cs_proposed (fold (\<lambda>data s. chat_listen True s (Chat_incoming data)) ys s) = cs_proposed s @ ys"
  by (induction ys arbitrary: s) (simp_all add: chat_listen_def chat_receive_def)

definition demo_typing :: bytes where
  "demo_typing = ''hi'' @ [newline, newline] @ ''exit'' @ [newline]"

definition demo_chat :: chat_info where
  "demo_chat = \<lparr>ch_rep = 2, ch_svrIps = [''a'', ''b''], ch_svrs = replicate 2 (Some \<lparr>cn_out = [], cn_err = None\<rparr>),
     ch_mq = \<lparr>mq_size = 10, mq_data = replicate 10 [], mq_sync = False, mq_locked = False\<rparr>\<rparr>"

lemma demo_lines:
  "complete_lines demo_typing = [''hi'' @ [newline], [newline], ''exit'' @ [newline]]"
  by (simp add: demo_typing_def complete_lines.simps)

section \<open>Properties\<close>

text \<open>C35: from the keyboard to Raft: a chat client over fresh connections that reads a line with \<open>exit\<close> has by
  then sent every replica the lines before it, from which each session reads exactly the lines that are not
  empty, in the order typed, once it has made two turns for each; and if for each message exactly one replica
  leads when it takes it, every line typed is proposed exactly once, by one replica.\<close>

theorem chat_typed_proposed:
  assumes "ch_svrs ci = map Some cs" and "\<forall>d \<in> set cs. cn_err d = None \<and> cn_out d = []"
    and "\<exists>l \<in> set (complete_lines s). contains_str l ''exit''"
    and "\<forall>k < length (typed s). \<exists>!i. i < length cs \<and> leads i k"
    and "2 * length (complete_lines s) \<le> n"
  shows "\<exists>ci' r. chat_main_loop late ci s = Some (ci', r) \<and> length (ch_svrs ci') = length cs \<and>
    (\<forall>i < length cs. \<exists>d. ch_svrs ci' ! i = Some d \<and> chat_session_turns n (cn_out d) [] = typed s) \<and>
    (\<Sum>i<length cs. mset (cs_proposed (chat_serve (leads i) (typed s)))) = mset (typed s)"
proof -
  have e: "\<forall>d \<in> set cs. cn_err d = None" using assms(2) by simp
  obtain ci' r where loop: "chat_main_loop late ci s = Some (ci', r)" and
    out: "ch_svrs ci' = map (\<lambda>d. Some (d\<lparr>cn_out := cn_out d @ stream_of (lines_before_exit s), cn_err := Some closed_conn\<rparr>)) cs"
    using chat_main_loop_writes [OF assms(1) e assms(3)] by blast
  have lines: "\<forall>l \<in> set (lines_before_exit s). \<exists>b. l = b @ [newline] \<and> newline \<notin> set b"
    using complete_lines_body by (auto simp: lines_before_exit_def dest: set_takeWhileD)
  have "2 * length (lines_before_exit s) \<le> n"
    using assms(5) length_takeWhile_le [of "\<lambda>l. \<not> contains_str l ''exit''" "complete_lines s"]
    by (simp add: lines_before_exit_def)
  then have "chat_session_turns n (stream_of (lines_before_exit s)) [] = typed s"
    using chat_session_turns_stream [OF lines] by (simp add: typed_def)
  then have "\<forall>i < length cs. \<exists>d. ch_svrs ci' ! i = Some d \<and> chat_session_turns n (cn_out d) [] = typed s"
    using assms(2) by (simp add: out)
  with loop show ?thesis using one_leader_each [of 0 "typed s" "length cs" leads] assms(4)
    by (simp add: out chat_serve_proposed)
qed

lemma chat_typed_proposed_witness:
  "\<exists>ci' r. chat_main_loop False demo_chat demo_typing = Some (ci', r) \<and>
     (\<Sum>i<2::nat. mset (cs_proposed (chat_serve (\<lambda>k. i = 1) [''hi'' @ [newline]]))) = {#''hi'' @ [newline]#}"
proof -
  note ls = demo_lines
  then have t: "typed demo_typing = [''hi'' @ [newline]]" by (simp add: typed_def lines_before_exit_def)
  have c: "ch_svrs demo_chat = map Some (replicate 2 \<lparr>cn_out = [], cn_err = None\<rparr>)" by (simp add: demo_chat_def)
  have "\<exists>!i. i < 2 \<and> i = (1::nat)" by auto
  then show ?thesis
    using chat_typed_proposed [OF c, of demo_typing "\<lambda>i k. i = 1" 6 False] by (simp add: ls t) blast
qed

text \<open>The chat from every keyboard to every screen. Clients that ended typed \<open>inputs\<close>; the replica that
  leads has read some of what their connections carry, its forwarders brought it to \<open>Listen\<close> in some
  order, and Raft committed, in that order, a part of what it proposed. Then a client that joined every
  replica before prints a beginning of one sequence of the typed lines, each with its index, in which
  the lines of each client are a beginning of those it typed, in its order; so do all such clients.\<close>

lemma chat_room_order:
  assumes "list_all2 chat_sent inputs streams" and "length turns = length streams"
    and "arrivals (map2 (\<lambda>n s. chat_session_turns n s []) turns streams) left ys"
    and "prefix (map log_data es) (cs_proposed (fold (\<lambda>data s. chat_listen True s (Chat_incoming data)) ys newChatServer))"
    and "distinct (map log_index es)" and "length es \<le> n"
    and "\<forall>lk \<in> set lks. link_ok lk \<and> prefix (applied_of (lk_after lk)) es"
    and "arrivals (map link_lines lks) rest zs"
  shows "\<exists>hs mq mq' k. map snd hs = map log_data es \<and> (\<forall>(i, v) \<in> set hs. i < length inputs) \<and>
    (\<forall>i < length inputs. prefix (map snd (filter (\<lambda>h. fst h = i) hs)) (typed (inputs ! i))) \<and>
    newMQ (int n) False = Ret mq \<and> chat_consume mq zs = Ret (mq', take k (map chat_message es))"
proof -
  let ?xss = "map2 (\<lambda>n s. chat_session_turns n s []) turns streams"
  have len: "length ?xss = length inputs" using assms(2) list_all2_lengthD [OF assms(1)] by simp
  have typed: "prefix (?xss ! i) (typed (inputs ! i))" if "i < length inputs" for i
    using chat_sent_session [OF list_all2_nthD [OF assms(1) that]] that len by simp
  obtain hs where hs: "map snd hs = ys" "\<forall>(i, v) \<in> set hs. i < length inputs"
    "\<forall>i < length inputs. map snd (filter (\<lambda>h. fst h = i) hs) @ left ! i = ?xss ! i"
    using arrivals_tagged [OF assms(3)] unfolding len by blast
  have es: "prefix (map log_data es) (map snd hs)"
    using assms(4) by (simp add: chat_leader_proposes newChatServer_def hs(1))
  let ?hs = "take (length es) hs"
  have e: "map snd ?hs = map log_data es"
    using es by (metis append_eq_conv_conj length_map prefixE take_map)
  have p: "prefix (map snd (filter (\<lambda>h. fst h = i) ?hs)) (typed (inputs ! i))" if i: "i < length inputs" for i
  proof -
    have "prefix (map snd (filter (\<lambda>h. fst h = i) ?hs)) (map snd (filter (\<lambda>h. fst h = i) hs))"
      by (intro map_mono_prefix filter_mono_prefix take_is_prefix)
    also have "prefix (map snd (filter (\<lambda>h. fst h = i) hs)) (?xss ! i)" using hs(3) i by (metis prefixI)
    also note typed [OF i]
    finally show ?thesis .
  qed
  have "chat_line x" if "x \<in> set es" for x
  proof -
    from that have "log_data x \<in> set (map snd ?hs)" by (simp add: e)
    then obtain i where i: "(i, log_data x) \<in> set ?hs" by auto
    with hs(2) have "i < length inputs" by (auto dest: in_set_takeD)
    moreover have "log_data x \<in> set (map snd (filter (\<lambda>h. fst h = i) ?hs))" using i by force
    ultimately have "log_data x \<in> set (typed (inputs ! i))" using p by (meson set_mono_prefix subsetD)
    then show ?thesis by (auto simp: chat_line_def intro: typed_line)
  qed
  then obtain mq mq' k where "newMQ (int n) False = Ret mq" "chat_consume mq zs = Ret (mq', take k (map chat_message es))"
    using chat_prints_log [OF assms(7,5) _ assms(6,8)] by blast
  with e p hs(2) show ?thesis
    by (intro exI [of _ ?hs] exI [of _ mq] exI [of _ mq'] exI [of _ k]) (auto dest: in_set_takeD)
qed

text \<open>One client types, and one that had joined a replica before it sees the line.\<close>

end
