(* ===== verification/Server_Process.thy ===== *)
theory Server_Process
  imports KV_Server
begin

text \<open>
  The goroutines of a replica's server (kvstore and diskstorage: \<open>Session.Read\<close>, the forwarder that
  \<open>Join\<close> starts, \<open>Listen\<close>, \<open>monitor\<close>, the accept loop of \<open>main\<close>) with the contexts that end them, and
  \<open>Exit\<close>. The step relation of \<open>KV_Server\<close>, whose sessions are queues, is what they implement: a
  forward simulation, in which the hand-overs between goroutines are silent.
\<close>

section \<open>Forward simulation\<close>

text \<open>The visible events of a run of steps some of which are silent.\<close>

inductive observed :: "('c \<Rightarrow> 'e option \<Rightarrow> 'c \<Rightarrow> bool) \<Rightarrow> 'c \<Rightarrow> 'e list \<Rightarrow> 'c \<Rightarrow> bool"
  for cstep :: "'c \<Rightarrow> 'e option \<Rightarrow> 'c \<Rightarrow> bool" and c where
  obs_start: "observed cstep c [] c"
| obs_silent: "observed cstep c evs c' \<Longrightarrow> cstep c' None c'' \<Longrightarrow> observed cstep c evs c''"
| obs_visible: "observed cstep c evs c' \<Longrightarrow> cstep c' (Some ev) c'' \<Longrightarrow> observed cstep c (evs @ [ev]) c''"

lemma observed_first:
  assumes "cstep c None c'" and "observed cstep c' evs c''"
  shows "observed cstep c evs c''"
  using assms(2)
proof (induction rule: observed.induct)
  case obs_start
  show ?case by (rule obs_silent [where c' = c]) (simp_all add: observed.obs_start assms(1))
qed (auto intro: obs_silent obs_visible)

lemma observed_trans:
  assumes "observed cstep c evs c'" and "observed cstep c' evs' c''"
  shows "observed cstep c (evs @ evs') c''"
  using assms(2)
proof (induction rule: observed.induct)
  case (obs_visible evs1 c1 ev c2)
  from observed.obs_visible [where cstep = cstep, OF obs_visible.IH obs_visible.hyps(2)] show ?case by simp
qed (use assms(1) in \<open>auto intro: obs_silent\<close>)

locale forward_simulation =
  fixes cstep :: "'c \<Rightarrow> 'e option \<Rightarrow> 'c \<Rightarrow> bool"
    and astep :: "'a \<Rightarrow> 'e \<Rightarrow> 'a \<Rightarrow> bool"
    and arun :: "'a \<Rightarrow> 'e list \<Rightarrow> 'a \<Rightarrow> bool"
    and related :: "'c \<Rightarrow> 'a \<Rightarrow> bool"
  assumes arun_nil: "arun a [] a"
    and arun_snoc: "arun a evs a' \<Longrightarrow> astep a' ev a'' \<Longrightarrow> arun a (evs @ [ev]) a''"
    and silent: "related c a \<Longrightarrow> cstep c None c' \<Longrightarrow> related c' a"
    and visible: "related c a \<Longrightarrow> cstep c (Some ev) c' \<Longrightarrow> \<exists>a'. astep a ev a' \<and> related c' a'"
begin

lemma simulates:
  assumes "observed cstep c evs c'" and "related c a"
  shows "\<exists>a'. arun a evs a' \<and> related c' a'"
  using assms(1)
proof (induction rule: observed.induct)
  case obs_start
  with assms(2) arun_nil show ?case by blast
next
  case (obs_silent evs c' c'')
  with silent show ?case by blast
next
  case (obs_visible evs c' ev c'')
  with visible arun_snoc show ?case by metis
qed

end

section \<open>Sessions\<close>

text \<open>How the bytes of a connection end: the client closed it, or another error.\<close>

datatype stream_end = End_eof | End_reset

datatype reader_state = R_select | R_reading | R_sending request | R_done
datatype forward_state = F_select | F_sending request | F_done

record conn_session =
  ss_remote :: string
  ss_unread :: bytes
  ss_end :: stream_end
  ss_open :: bool
  ss_reader :: reader_state
  ss_forward :: forward_state

definition newSession :: "string \<Rightarrow> bytes \<Rightarrow> stream_end \<Rightarrow> conn_session" where
  "newSession remote stream e =
     \<lparr>ss_remote = remote, ss_unread = stream, ss_end = e, ss_open = True,
      ss_reader = R_select, ss_forward = F_select\<rparr>"

text \<open>\<open>Disconnect\<close> cancels the session's context and closes its connection.\<close>

definition session_disconnect :: "conn_session \<Rightarrow> conn_session" where
  "session_disconnect ss = ss\<lparr>ss_open := False\<rparr>"

text \<open>What \<open>Read\<close> does with what \<open>ReadBytes\<close> returned: only the end of the stream makes it return.\<close>

definition session_next :: "conn_session \<Rightarrow> conn_session" where
  "session_next ss =
     (case read_line (ss_unread ss) of
        (line, ok, rest) \<Rightarrow>
          (if ok \<and> 1 < length line
           then ss\<lparr>ss_unread := rest,
                   ss_reader := R_sending \<lparr>rq_command = line, rq_ip = go_split colon (ss_remote ss) ! 0\<rparr>\<rparr>
           else if \<not> ok \<and> ss_end ss = End_eof then ss\<lparr>ss_unread := rest, ss_reader := R_done\<rparr>
           else ss\<lparr>ss_unread := rest, ss_reader := R_select\<rparr>))"

text \<open>
  The steps of a session's reader and forwarder; \<open>done\<close> says that the server's context is cancelled. The
  channel between the two is unbuffered; a read on a closed connection fails with an error that is not
  the end of the stream.
\<close>

inductive session_step :: "bool \<Rightarrow> conn_session \<Rightarrow> conn_session \<Rightarrow> bool"
  for cancelled :: bool where
  reader_enters: "ss_reader ss = R_select \<Longrightarrow> ss_open ss \<Longrightarrow>
     session_step cancelled ss (ss\<lparr>ss_reader := R_reading\<rparr>)"
| reader_stops: "ss_reader ss = R_select \<Longrightarrow> \<not> ss_open ss \<Longrightarrow>
     session_step cancelled ss (ss\<lparr>ss_reader := R_done\<rparr>)"
| reader_reads: "ss_reader ss = R_reading \<Longrightarrow> session_step cancelled ss (session_next ss)"
| reader_fails: "ss_reader ss = R_reading \<Longrightarrow> \<not> ss_open ss \<Longrightarrow>
     session_step cancelled ss (ss\<lparr>ss_reader := R_select\<rparr>)"
| reader_passes: "ss_reader ss = R_sending rq \<Longrightarrow> ss_forward ss = F_select \<Longrightarrow>
     session_step cancelled ss (ss\<lparr>ss_reader := R_select, ss_forward := F_sending rq\<rparr>)"
| forwarder_stops: "ss_forward ss = F_select \<Longrightarrow> cancelled \<Longrightarrow>
     session_step cancelled ss (ss\<lparr>ss_forward := F_done\<rparr>)"

text \<open>What a session may still hand to the server, in order.\<close>

definition pending :: "conn_session \<Rightarrow> request list" where
  "pending ss =
     (case ss_forward ss of F_sending rq \<Rightarrow> [rq] | _ \<Rightarrow> []) @
     (case ss_reader ss of R_done \<Rightarrow> []
      | R_sending rq \<Rightarrow> rq # session_read (ss_remote ss) (ss_unread ss)
      | _ \<Rightarrow> session_read (ss_remote ss) (ss_unread ss))"

lemma pending_new: "pending (newSession remote stream e) = session_read remote stream"
  by (simp add: pending_def newSession_def)

lemma pending_next:
  assumes "ss_reader ss = R_reading"
  shows "pending (session_next ss) = pending ss"
proof -
  obtain line ok rest where r: "read_line (ss_unread ss) = (line, ok, rest)" by (metis prod_cases3)
  have "ok \<or> rest = []" using read_line_rest [OF r] by blast
  moreover have "session_read (ss_remote ss) [] = []" by (simp add: session_read_tail)
  ultimately show ?thesis
    using r assms session_read.simps [of "ss_remote ss" "ss_unread ss"]
    by (cases "ss_end ss") (auto simp: pending_def session_next_def split: forward_state.split)
qed

lemma session_step_pending:
  "session_step cancelled ss ss' \<Longrightarrow> prefix (pending ss') (pending ss)"
proof (induction rule: session_step.induct)
  case (reader_reads ss)
  then show ?case by (simp add: pending_next)
qed (simp_all add: pending_def split: forward_state.split reader_state.split)

lemma pending_taken:
  "ss_forward ss = F_sending rq \<Longrightarrow> pending ss = rq # pending (ss\<lparr>ss_forward := F_select\<rparr>)"
  by (simp add: pending_def split: reader_state.split)

section \<open>The process\<close>

text \<open>
  What \<open>Exit\<close> does, in order. \<open>Disconnect_all\<close> is the loop over the clients there are when it starts.
\<close>

datatype exit_action = Close_local | Shutdown_raft | Close_log | Disconnect_all | Disconnect_session nat

definition kv_exit :: "kv_store \<Rightarrow> exit_action list" where
  "kv_exit s = [Shutdown_raft] @ (if kv_logging s then [Close_log] else []) @ [Disconnect_all]"

definition disk_exit :: "disk_store \<Rightarrow> exit_action list" where
  "disk_exit s = [Close_local, Shutdown_raft] @ (if ds_logging s then [Close_log] else []) @ [Disconnect_all]"

text \<open>
  The server with its store and what left it; the sessions; a connection that the accept loop holds for
  \<open>joins\<close>; whether the context is cancelled and \<open>Listen\<close> and \<open>monitor\<close> still run; what is left of
  \<open>Exit\<close> once \<open>main\<close> has called it, and what it has closed.
\<close>

record 'st process =
  pc_server :: "'st server"
  pc_sessions :: "conn_session list"
  pc_accepted :: "(string \<times> bytes \<times> stream_end) option"
  pc_cancelled :: bool
  pc_listening :: bool
  pc_monitoring :: bool
  pc_exit :: "exit_action list option"
  pc_local_closed :: bool
  pc_log_closed :: bool
  pc_raft_down :: bool

definition process_init :: "'st \<Rightarrow> go_file option \<Rightarrow> 'st process" where
  "process_init st fd =
     \<lparr>pc_server = newServer st fd, pc_sessions = [], pc_accepted = None, pc_cancelled = False,
      pc_listening = True, pc_monitoring = True, pc_exit = None, pc_local_closed = False,
      pc_log_closed = False, pc_raft_down = False\<rparr>"

fun exit_step :: "exit_action \<Rightarrow> exit_action list \<Rightarrow> 'st process \<Rightarrow> 'st process" where
  "exit_step Close_local as p = p\<lparr>pc_local_closed := True, pc_exit := Some as\<rparr>"
| "exit_step Shutdown_raft as p = p\<lparr>pc_raft_down := True, pc_exit := Some as\<rparr>"
| "exit_step Close_log as p = p\<lparr>pc_log_closed := True, pc_exit := Some as\<rparr>"
| "exit_step Disconnect_all as p =
     p\<lparr>pc_exit := Some (map Disconnect_session [0..<length (pc_sessions p)] @ as)\<rparr>"
| "exit_step (Disconnect_session i) as p =
     p\<lparr>pc_sessions := (pc_sessions p)[i := session_disconnect (pc_sessions p ! i)], pc_exit := Some as\<rparr>"

text \<open>
  \<open>propose closed\<close> is \<open>Propose\<close> of the store, whose own file is closed or not; after the shutdown Raft's
  state is \<open>Shutdown\<close>. A step with None is silent, the others carry the event of \<open>KV_Server\<close>.
\<close>

inductive process_step ::
  "(bool \<Rightarrow> propose_env \<Rightarrow> 'st \<Rightarrow> bytes \<Rightarrow> string \<Rightarrow> 'st \<times> (datagram list \<times> go_error option) outcome)
    \<Rightarrow> ('st \<Rightarrow> exit_action list) \<Rightarrow> 'st process \<Rightarrow> sv_event option \<Rightarrow> 'st process \<Rightarrow> bool"
  for propose and plan where
  main_accepts: "pc_accepted p = None \<Longrightarrow>
     process_step propose plan p None (p\<lparr>pc_accepted := Some (remote, stream, e)\<rparr>)"
| session_runs: "i < length (pc_sessions p) \<Longrightarrow> session_step (pc_cancelled p) (pc_sessions p ! i) ss \<Longrightarrow>
     process_step propose plan p None (p\<lparr>pc_sessions := (pc_sessions p)[i := ss]\<rparr>)"
| listen_joins: "pc_listening p \<Longrightarrow> pc_accepted p = Some (remote, stream, e) \<Longrightarrow>
     process_step propose plan p (Some (Ev_join remote stream))
       (p\<lparr>pc_accepted := None, pc_sessions := pc_sessions p @ [newSession remote stream e],
          pc_server := (pc_server p)\<lparr>sv_writers := sv_writers (pc_server p) @ [\<lparr>bw_buf = [], bw_out = []\<rparr>]\<rparr>\<rparr>)"
| listen_handles: "pc_listening p \<Longrightarrow> i < length (pc_sessions p) \<Longrightarrow>
     ss_forward (pc_sessions p ! i) = F_sending rq \<Longrightarrow> (pc_raft_down p \<Longrightarrow> pe_role E = Shutdown) \<Longrightarrow>
     handleRequest (propose (pc_local_closed p)) E (pc_server p) rq = (sv, Ret ()) \<Longrightarrow>
     process_step propose plan p (Some (Ev_request i rq E))
       (p\<lparr>pc_sessions := (pc_sessions p)[i := (pc_sessions p ! i)\<lparr>ss_forward := F_select\<rparr>], pc_server := sv\<rparr>)"
| monitor_ticks: "pc_monitoring p \<Longrightarrow>
     process_step propose plan p (Some (Ev_tick (sv_req (pc_server p)))) (p\<lparr>pc_server := server_tick (pc_server p)\<rparr>)"
| main_cancels: "\<not> pc_cancelled p \<Longrightarrow> process_step propose plan p None (p\<lparr>pc_cancelled := True\<rparr>)"
| listen_stops: "pc_listening p \<Longrightarrow> pc_cancelled p \<Longrightarrow>
     process_step propose plan p None (p\<lparr>pc_listening := False\<rparr>)"
| monitor_stops: "pc_monitoring p \<Longrightarrow> pc_cancelled p \<Longrightarrow>
     process_step propose plan p None (p\<lparr>pc_monitoring := False\<rparr>)"
| exit_starts: "pc_cancelled p \<Longrightarrow> pc_exit p = None \<Longrightarrow>
     process_step propose plan p None (p\<lparr>pc_exit := Some (plan (sv_store (pc_server p)))\<rparr>)"
| exit_goes_on: "pc_exit p = Some (a # as) \<Longrightarrow> process_step propose plan p None (exit_step a as p)"

section \<open>The simulation\<close>

text \<open>The server of \<open>KV_Server\<close> is this one with queues that begin with what the sessions hold.\<close>

definition process_related :: "'st process \<Rightarrow> 'st server \<Rightarrow> bool" where
  "process_related p sv \<longleftrightarrow> sv = (pc_server p)\<lparr>sv_queues := sv_queues sv\<rparr> \<and>
     list_all2 (\<lambda>ss q. prefix (pending ss) q) (pc_sessions p) (sv_queues sv)"

lemma related_update:
  assumes "process_related p sv" and "i < length (pc_sessions p)" and "prefix (pending ss) (pending (pc_sessions p ! i))"
  shows "process_related (p\<lparr>pc_sessions := (pc_sessions p)[i := ss]\<rparr>) sv"
proof -
  have l: "list_all2 (\<lambda>ss q. prefix (pending ss) q) (pc_sessions p) (sv_queues sv)"
    using assms(1) by (simp add: process_related_def)
  have "prefix (pending ss) (sv_queues sv ! i)"
    using list_all2_nthD [OF l assms(2)] assms(3) prefix_order.trans by blast
  then have "list_all2 (\<lambda>ss q. prefix (pending ss) q) ((pc_sessions p)[i := ss]) ((sv_queues sv)[i := sv_queues sv ! i])"
    by (rule list_all2_update_cong [OF l])
  then show ?thesis using assms(1) by (simp add: process_related_def)
qed

lemma disconnect_pending: "prefix (pending (session_disconnect ss)) (pending ss)"
  by (simp add: session_disconnect_def pending_def cong: reader_state.case_cong forward_state.case_cong)

lemma related_silent:
  assumes r: "process_related p sv" and st: "process_step propose plan p None p'"
  shows "process_related p' sv"
  using st
proof (cases rule: process_step.cases)
  case (session_runs i ss)
  then have "process_related (p\<lparr>pc_sessions := (pc_sessions p)[i := ss]\<rparr>) sv"
    using related_update [OF r] session_step_pending by blast
  with session_runs show ?thesis by simp
next
  case (exit_goes_on a as)
  show ?thesis
  proof (cases a)
    case (Disconnect_session i)
    show ?thesis
    proof (cases "i < length (pc_sessions p)")
      case True
      from related_update [OF r True disconnect_pending] exit_goes_on Disconnect_session show ?thesis
        by (simp add: process_related_def)
    qed (use r exit_goes_on Disconnect_session in \<open>simp add: process_related_def list_update_beyond\<close>)
  qed (use r exit_goes_on in \<open>simp_all add: process_related_def\<close>)
qed (use r in \<open>simp_all add: process_related_def\<close>)

lemma handleRequest_queues:
  "handleRequest propose E (sv\<lparr>sv_queues := q\<rparr>) rq =
     (case handleRequest propose E sv rq of (sv', r) \<Rightarrow> (sv'\<lparr>sv_queues := q\<rparr>, r))"
  by (simp add: handleRequest_def Let_def split: prod.split outcome.split)

text \<open>
  What the simulation needs of \<open>Propose\<close>: a replica that does not lead does nothing, and a closed file
  makes a call that returns at all return the same.
\<close>

locale server_process =
  fixes propose :: "bool \<Rightarrow> propose_env \<Rightarrow> 'st \<Rightarrow> bytes \<Rightarrow> string
          \<Rightarrow> 'st \<times> (datagram list \<times> go_error option) outcome"
    and plan :: "'st \<Rightarrow> exit_action list"
  assumes follower: "pe_role E \<noteq> Leader \<Longrightarrow> propose closed E s msg ip = (s, Ret ([], None))"
    and closed_agrees: "snd (propose closed E s msg ip) = Ret x \<Longrightarrow>
          propose closed E s msg ip = propose False E s msg ip"
begin

lemma handle_agrees:
  assumes "handleRequest (propose closed) E sv rq = (sv', Ret ())"
  shows "handleRequest (propose False) E sv rq = (sv', Ret ())"
proof -
  obtain st r where h: "propose closed E (sv_store sv) (trim_suffix [newline] (rq_command rq)) (rq_ip rq) = (st, r)"
    by fastforce
  with assms obtain x where "r = Ret x" by (cases r) (simp_all add: handleRequest_def)
  with h closed_agrees have "propose False E (sv_store sv) (trim_suffix [newline] (rq_command rq)) (rq_ip rq) = (st, r)"
    by (metis snd_conv)
  with h assms show ?thesis by (simp add: handleRequest_def)
qed

lemma related_visible:
  assumes r: "process_related p sv" and st: "process_step propose plan p (Some ev) p'"
  shows "\<exists>sv'. server_step (propose False) sv ev sv' \<and> process_related p' sv'"
  using st
proof (cases rule: process_step.cases)
  case (listen_joins remote stream e)
  have "server_step (propose False) sv (Ev_join remote stream) (server_join sv remote stream)"
    by (rule server_step.step_join)
  moreover have "process_related p' (server_join sv remote stream)"
  proof -
    have "list_all2 (\<lambda>ss q. prefix (pending ss) q) (pc_sessions p) (sv_queues sv)"
      and sv: "sv = (pc_server p)\<lparr>sv_queues := sv_queues sv\<rparr>" using r by (simp_all add: process_related_def)
    then have "list_all2 (\<lambda>ss q. prefix (pending ss) q) (pc_sessions p @ [newSession remote stream e])
        (sv_queues sv @ [session_read remote stream])"
      by (intro list_all2_appendI) (simp_all add: pending_new)
    then show ?thesis using listen_joins by (subst sv) (simp add: process_related_def server_join_def)
  qed
  ultimately show ?thesis using listen_joins by blast
next
  case (listen_handles i rq E sv1)
  let ?ss = "pc_sessions p ! i"
  have l: "list_all2 (\<lambda>ss q. prefix (pending ss) q) (pc_sessions p) (sv_queues sv)"
    and sv: "sv = (pc_server p)\<lparr>sv_queues := sv_queues sv\<rparr>" using r by (simp_all add: process_related_def)
  have i: "i < length (sv_queues sv)" using list_all2_lengthD [OF l] listen_handles by simp
  have pend: "pending ?ss = rq # pending (?ss\<lparr>ss_forward := F_select\<rparr>)"
    using listen_handles pending_taken by blast
  have "prefix (pending ?ss) (sv_queues sv ! i)" using list_all2_nthD [OF l] listen_handles by blast
  then obtain rqs where q: "sv_queues sv ! i = rq # rqs" "prefix (pending (?ss\<lparr>ss_forward := F_select\<rparr>)) rqs"
    unfolding pend by (auto elim: prefixE)
  let ?qs = "(sv_queues sv)[i := rqs]"
  have "handleRequest (propose False) E (pc_server p) rq = (sv1, Ret ())"
    using listen_handles handle_agrees by blast
  then have "handleRequest (propose False) E (sv\<lparr>sv_queues := ?qs\<rparr>) rq = (sv1\<lparr>sv_queues := ?qs\<rparr>, Ret ())"
    by (subst sv) (simp add: handleRequest_queues)
  with i q(1) have "server_step (propose False) sv (Ev_request i rq E) (sv1\<lparr>sv_queues := ?qs\<rparr>)"
    by (rule server_step.step_request)
  moreover have "process_related p' (sv1\<lparr>sv_queues := ?qs\<rparr>)"
    using listen_handles list_all2_update_cong [OF l, of "?ss\<lparr>ss_forward := F_select\<rparr>" rqs i] q(2)
    by (simp add: process_related_def)
  ultimately show ?thesis using listen_handles by blast
next
  case monitor_ticks
  have t: "sv_req sv = sv_req (pc_server p)" "sv = (pc_server p)\<lparr>sv_queues := sv_queues sv\<rparr>"
    using r unfolding process_related_def by (metis server.ext_inject server.surjective server.update_convs(1))+
  have "server_step (propose False) sv (Ev_tick (sv_req sv)) (server_tick sv)" by (rule server_step.step_tick)
  moreover have "server_tick sv = (server_tick (pc_server p))\<lparr>sv_queues := sv_queues sv\<rparr>"
    by (subst t(2)) (simp add: server_tick_def)
  ultimately show ?thesis using monitor_ticks r t(1) by (auto simp: process_related_def)
qed

text \<open>Once Raft is shut down requests change nothing and are answered by nothing.\<close>

lemma down_step:
  assumes "process_step propose plan p ev p'" and "pc_raft_down p"
  shows "pc_raft_down p' \<and> sv_store (pc_server p') = sv_store (pc_server p) \<and>
    sv_sent (pc_server p') = sv_sent (pc_server p)"
  using assms(1)
proof (cases rule: process_step.cases)
  case (listen_handles i rq E sv)
  with assms(2) have "pe_role E \<noteq> Leader" by simp
  from listen_handles follower [OF this] assms(2) show ?thesis by (auto simp: handleRequest_def Let_def)
next
  case (exit_goes_on a as)
  with assms(2) show ?thesis by (cases a) simp_all
qed (use assms(2) in \<open>simp_all add: server_tick_def\<close>)

lemma down_run:
  assumes "observed (process_step propose plan) p evs p'" and "pc_raft_down p"
  shows "pc_raft_down p' \<and> sv_store (pc_server p') = sv_store (pc_server p) \<and>
    sv_sent (pc_server p') = sv_sent (pc_server p)"
  using assms(1)
proof (induction rule: observed.induct)
  case obs_start
  with assms(2) show ?case by simp
next
  case (obs_silent evs c' c'')
  with down_step [OF obs_silent.hyps(2)] show ?case by simp
next
  case (obs_visible evs c' ev c'')
  with down_step [OF obs_visible.hyps(2)] show ?case by simp
qed

lemma stopped_step:
  assumes "process_step propose plan p ev p'" and "\<not> pc_listening p"
  shows "\<not> pc_listening p' \<and> (\<forall>v. ev = Some v \<longrightarrow> (\<exists>n. v = Ev_tick n))"
  using assms(1)
proof (cases rule: process_step.cases)
  case (exit_goes_on a as)
  with assms(2) show ?thesis by (cases a) simp_all
qed (use assms(2) in simp_all)

lemma stopped_run:
  assumes "observed (process_step propose plan) p evs p'" and "\<not> pc_listening p"
  shows "\<not> pc_listening p' \<and> requests evs = []"
  using assms(1)
proof (induction rule: observed.induct)
  case obs_start
  with assms(2) show ?case by (simp add: requests_def)
next
  case (obs_silent evs c' c'')
  with stopped_step [OF obs_silent.hyps(2)] show ?case by simp
next
  case (obs_visible evs c' ev c'')
  with stopped_step [OF obs_visible.hyps(2)] show ?case by (auto simp: requests_def)
qed

end

sublocale server_process \<subseteq> forward_simulation "process_step propose plan" "server_step (propose False)"
    "server_run (propose False)" process_related
  by unfold_locales (auto intro: run_nil run_snoc related_silent related_visible)

interpretation kv_process: server_process "\<lambda>closed. kv_propose P G" kv_exit
  for P :: pb_codec and G :: gz_lib
  by unfold_locales (simp_all add: kv_propose_def propose_with_def)

section \<open>diskstorage\<close>

text \<open>
  \<open>Exit\<close> of diskstorage closes the store's file before it shuts Raft down: what \<open>Apply\<close> does in between,
  when every read and write of the file fails.
\<close>

definition disk_switch_closed :: "pb_command \<Rightarrow> fsm_response outcome" where
  "disk_switch_closed c =
     (if cmd_op c \<in> {Command_SET, Command_GET}
      then outcome_bind (disk_pos (cmd_key c)) (\<lambda>pos. Panic (Lib_error ''file already closed''))
      else Panic (bad_op c))"

definition disk_apply_closed :: "pb_codec \<Rightarrow> disk_store \<Rightarrow> raft_log \<Rightarrow> disk_store \<times> fsm_response outcome" where
  "disk_apply_closed P s l =
     (case pb_unmarshal P (log_data l) of
        Inl e \<Rightarrow> (s, Ret (Resp_error e))
      | Inr command \<Rightarrow>
          (if ds_logging s then
             (let c = command\<lparr>cmd_id := log_index l\<rparr>
              in (s\<lparr>ds_logfile := disk_log_write (ds_logfile s) (serialize P c)\<rparr>, disk_switch_closed c))
           else (s, disk_switch_closed command)))"

definition disk_propose_at :: "pb_codec \<Rightarrow> nat \<Rightarrow> bool \<Rightarrow> propose_env \<Rightarrow> disk_store \<Rightarrow> bytes \<Rightarrow> string
    \<Rightarrow> disk_store \<times> (datagram list \<times> go_error option) outcome" where
  "disk_propose_at P limit closed =
     propose_with (if closed then disk_apply_closed P else disk_apply P limit)"

lemma disk_propose_at_open: "disk_propose_at P limit False = disk_propose P limit"
  by (rule ext)+ (simp add: disk_propose_at_def disk_propose_def)

lemma disk_switch_closed_panics: "\<exists>e. disk_switch_closed c = Panic e"
  by (auto simp: disk_switch_closed_def disk_pos_def split: prod.split option.split)

lemma disk_apply_closed_ret:
  "snd (disk_apply_closed P s l) = Ret r \<Longrightarrow> disk_apply_closed P s l = disk_apply P limit s l"
  using disk_switch_closed_panics
  by (auto simp: disk_apply_closed_def disk_apply_def Let_def split: sum.splits if_splits)
     (metis outcome.distinct(1))+

interpretation disk_process: server_process "disk_propose_at P limit" disk_exit
  for P :: pb_codec and limit :: nat
proof unfold_locales
  fix E s msg ip x closed
  show "pe_role E \<noteq> Leader \<Longrightarrow> disk_propose_at P limit closed E s msg ip = (s, Ret ([], None))"
    by (simp add: disk_propose_at_def propose_with_def)
  assume a: "snd (disk_propose_at P limit closed E s msg ip) = Ret x"
  show "disk_propose_at P limit closed E s msg ip = disk_propose_at P limit False E s msg ip"
  proof (cases "closed \<and> pe_role E = Leader \<and> (\<exists>i. pe_future E = Future_index i)")
    case True
    then obtain i where i: "pe_future E = Future_index i" by blast
    from True i a obtain r where "snd (disk_apply_closed P s \<lparr>log_index = i, log_data = msg\<rparr>) = Ret r"
      by (auto simp: disk_propose_at_def propose_with_def split: prod.splits)
    from disk_apply_closed_ret [OF this, of limit] True i show ?thesis
      by (simp add: disk_propose_at_def propose_with_def)
  next
    case False
    then show ?thesis by (cases "pe_future E") (auto simp: disk_propose_at_def propose_with_def)
  qed
qed

text \<open>A command that is committed in that window, whatever it is, panics.\<close>

lemma disk_exit_window:
  assumes "pe_role E = Leader" and "pe_future E = Future_index i"
    and "pb_unmarshal P (trim_suffix [newline] (rq_command rq)) = Inr c"
  shows "\<exists>e. snd (handleRequest (disk_propose_at P limit True) E sv rq) = Panic e"
proof -
  let ?l = "\<lparr>log_index = i, log_data = trim_suffix [newline] (rq_command rq)\<rparr>"
  have "\<exists>e. snd (disk_apply_closed P (sv_store sv) ?l) = Panic e"
    using assms(3) disk_switch_closed_panics by (simp add: disk_apply_closed_def Let_def)
  then obtain s' e where "disk_apply_closed P (sv_store sv) ?l = (s', Panic e)"
    by (metis prod.collapse)
  then show ?thesis
    using assms(1,2) by (simp add: handleRequest_def disk_propose_at_def propose_with_def)
qed

section \<open>Properties\<close>

lemma kv_process_run:
  assumes "observed (process_step (\<lambda>closed. kv_propose P G) kv_exit) (process_init st fd) evs p"
  shows "\<exists>sv. server_run (kv_propose P G) (newServer st fd) evs sv \<and> process_related p sv"
proof -
  have "process_related (process_init st fd) (newServer st fd)"
    by (simp add: process_related_def process_init_def newServer_def)
  from kv_process.simulates [OF assms this] show ?thesis .
qed

text \<open>C12: the goroutines of a kvstore server implement the server of queues: in every interleaving of the
  readers, forwarders, \<open>Listen\<close>, the monitor, the accept loop, the cancellation and \<open>Exit\<close>, what happened
  is a run of the server that starts the same, which ends with the same store, counter, datagrams and
  error lines, and whose queues begin with what the sessions still hold.\<close>

theorem process_refines_server:
  assumes "observed (process_step (\<lambda>closed. kv_propose P G) kv_exit) (process_init st fd) evs p"
  shows "\<exists>sv. server_run (kv_propose P G) (newServer st fd) evs sv \<and>
    pc_server p = sv\<lparr>sv_queues := sv_queues (pc_server p)\<rparr> \<and>
    list_all2 (\<lambda>ss q. prefix (pending ss) q) (pc_sessions p) (sv_queues sv)"
proof -
  obtain sv where sv: "server_run (kv_propose P G) (newServer st fd) evs sv" "process_related p sv"
    using kv_process_run [OF assms] by blast
  then have "sv = (pc_server p)\<lparr>sv_queues := sv_queues sv\<rparr>" by (simp add: process_related_def)
  then have "pc_server p = sv\<lparr>sv_queues := sv_queues (pc_server p)\<rparr>"
    by (metis server.surjective server.update_convs(1))
  with sv show ?thesis by (auto simp: process_related_def)
qed

text \<open>A connection with one line, up to the request a follower handles.\<close>

definition demo_env_follower :: propose_env where
  "demo_env_follower = \<lparr>pe_role = Follower, pe_future = Future_index 1, pe_dial = (\<lambda>_. True)\<rparr>"

definition demo_line_request :: request where
  "demo_line_request = \<lparr>rq_command = ''hi'' @ [newline], rq_ip = ''h''\<rparr>"

lemma observed_session:
  "observed (process_step propose plan) c evs p \<Longrightarrow> i < length (pc_sessions p) \<Longrightarrow>
     session_step (pc_cancelled p) (pc_sessions p ! i) ss \<Longrightarrow>
     q = p\<lparr>pc_sessions := (pc_sessions p)[i := ss]\<rparr> \<Longrightarrow> observed (process_step propose plan) c evs q"
  by (simp add: obs_silent session_runs)

lemma observed_then:
  "observed cstep c evs p \<Longrightarrow> cstep p (Some ev) q \<Longrightarrow> evs' = evs @ [ev] \<Longrightarrow> observed cstep c evs' q"
  by (simp add: obs_visible)

definition demo_session :: "bytes \<Rightarrow> reader_state \<Rightarrow> forward_state \<Rightarrow> conn_session" where
  "demo_session u rd fw = \<lparr>ss_remote = ''h:1'', ss_unread = u, ss_end = End_eof, ss_open = True,
     ss_reader = rd, ss_forward = fw\<rparr>"

definition demo_process :: "'st \<Rightarrow> conn_session \<Rightarrow> 'st process" where
  "demo_process st ss =
     (process_init st None)\<lparr>pc_sessions := [ss],
        pc_server := (newServer st None)\<lparr>sv_writers := [\<lparr>bw_buf = [], bw_out = []\<rparr>]\<rparr>\<rparr>"

lemma demo_process_simps [simp]:
  "pc_listening (demo_process st ss)" "\<not> pc_cancelled (demo_process st ss)"
  "\<not> pc_raft_down (demo_process st ss)" "pc_sessions (demo_process st ss) = [ss]"
  "(demo_process st ss)\<lparr>pc_sessions := [ss']\<rparr> = demo_process st ss'"
  by (simp_all add: demo_process_def process_init_def)

lemma demo_process_joined:
  "observed (process_step propose plan) (process_init st None) [Ev_join ''h:1'' ln]
     (demo_process st (demo_session ln R_select F_select))"
proof (rule observed_then)
  let ?a = "(process_init st None)\<lparr>pc_accepted := Some (''h:1'', ln, End_eof)\<rparr>"
  show "observed (process_step propose plan) (process_init st None) [] ?a"
    by (rule obs_silent [OF obs_start]) (rule main_accepts, simp add: process_init_def)
  show "process_step propose plan ?a (Some (Ev_join ''h:1'' ln)) (demo_process st (demo_session ln R_select F_select))"
    using process_step.listen_joins [of ?a "''h:1''" ln End_eof propose plan]
    by (simp add: demo_process_def demo_session_def process_init_def newServer_def newSession_def)
qed simp

lemma demo_process_moves:
  "observed (process_step propose plan) c evs (demo_process st ss) \<Longrightarrow> session_step False ss ss' \<Longrightarrow>
     observed (process_step propose plan) c evs (demo_process st ss')"
  by (rule observed_session [where i = 0 and p = "demo_process st ss" and ss = ss']) simp_all

lemma demo_process_holds:
  "observed (process_step propose plan) (process_init st None) [Ev_join ''h:1'' (''hi'' @ [newline])]
     (demo_process st (demo_session [] R_select (F_sending demo_line_request)))"
proof -
  let ?ln = "''hi'' @ [newline]"
  have "session_step False (demo_session ?ln R_select F_select) (demo_session ?ln R_reading F_select)"
    using reader_enters [of "demo_session ?ln R_select F_select" False] by (simp add: demo_session_def)
  moreover have "session_step False (demo_session ?ln R_reading F_select) (demo_session [] (R_sending demo_line_request) F_select)"
    using reader_reads [of "demo_session ?ln R_reading F_select" False]
    by (simp add: demo_session_def session_next_def demo_line_request_def)
  moreover have "session_step False (demo_session [] (R_sending demo_line_request) F_select)
      (demo_session [] R_select (F_sending demo_line_request))"
    using reader_passes [of "demo_session [] (R_sending demo_line_request) F_select" demo_line_request False]
    by (simp add: demo_session_def)
  ultimately show ?thesis by (rule demo_process_moves [OF demo_process_moves [OF demo_process_moves [OF demo_process_joined]]])
qed

lemma handle_follower_step:
  assumes "pc_listening p" and "0 < length (pc_sessions p)" and "ss_forward (pc_sessions p ! 0) = F_sending rq"
    and "pc_raft_down p \<Longrightarrow> pe_role E = Shutdown" and "pe_role E \<noteq> Leader"
  shows "\<exists>q. process_step (\<lambda>closed. kv_propose P G) plan p (Some (Ev_request 0 rq E)) q"
proof -
  have "handleRequest (kv_propose P G) E (pc_server p) rq =
      ((pc_server p)\<lparr>sv_req := sv_req (pc_server p) + 1\<rparr>, Ret ())"
    by (rule kv_server.handle_follower [OF assms(5)])
  then show ?thesis
    using process_step.listen_handles [of p 0 rq E "\<lambda>closed. kv_propose P G" _ plan] assms(1-4) by blast
qed

lemma demo_process_run:
  "\<exists>p. observed (process_step (\<lambda>closed. kv_propose P G) kv_exit) (process_init st None)
     [Ev_join ''h:1'' (''hi'' @ [newline]), Ev_request 0 demo_line_request demo_env_follower] p"
proof -
  have "\<exists>q. process_step (\<lambda>closed. kv_propose P G) kv_exit
      (demo_process st (demo_session [] R_select (F_sending demo_line_request)))
      (Some (Ev_request 0 demo_line_request demo_env_follower)) q"
    by (rule handle_follower_step) (simp_all add: demo_session_def demo_env_follower_def)
  then obtain q where "process_step (\<lambda>closed. kv_propose P G) kv_exit
      (demo_process st (demo_session [] R_select (F_sending demo_line_request)))
      (Some (Ev_request 0 demo_line_request demo_env_follower)) q" by blast
  from observed_then [OF demo_process_holds this] show ?thesis by auto
qed

lemma process_refines_server_witness:
  "\<exists>p sv. observed (process_step (\<lambda>closed. kv_propose sample_codec sample_gz) kv_exit) (process_init demo_store None)
       [Ev_join ''h:1'' (''hi'' @ [newline]), Ev_request 0 demo_line_request demo_env_follower] p \<and>
     server_run (kv_propose sample_codec sample_gz) (newServer demo_store None)
       [Ev_join ''h:1'' (''hi'' @ [newline]), Ev_request 0 demo_line_request demo_env_follower] sv \<and>
     sv_store (pc_server p) = sv_store sv"
proof -
  obtain p where p: "observed (process_step (\<lambda>closed. kv_propose sample_codec sample_gz) kv_exit) (process_init demo_store None)
       [Ev_join ''h:1'' (''hi'' @ [newline]), Ev_request 0 demo_line_request demo_env_follower] p"
    using demo_process_run by blast
  from process_refines_server [OF p] obtain sv where "server_run (kv_propose sample_codec sample_gz) (newServer demo_store None)
       [Ev_join ''h:1'' (''hi'' @ [newline]), Ev_request 0 demo_line_request demo_env_follower] sv"
    and e: "pc_server p = sv\<lparr>sv_queues := sv_queues (pc_server p)\<rparr>" by blast
  moreover have "sv_store (pc_server p) = sv_store sv" by (subst e) simp
  ultimately show ?thesis using p by blast
qed

text \<open>The reader gets to the next request, over empty lines, and hands it to the forwarder.\<close>

lemma reader_reaches:
  "session_read (ss_remote ss) (ss_unread ss) = rq # rqs \<Longrightarrow> ss_open ss \<Longrightarrow> ss_forward ss = F_select \<Longrightarrow>
     ss_reader ss \<in> {R_select, R_reading} \<Longrightarrow>
     \<exists>ss'. (session_step cancelled)\<^sup>*\<^sup>* ss ss' \<and> ss_forward ss' = F_sending rq \<and> pending ss' = rq # rqs"
proof (induction "length (ss_unread ss)" arbitrary: ss rule: less_induct)
  case (less ss)
  let ?r = "ss\<lparr>ss_reader := R_reading\<rparr>"
  have "(session_step cancelled)\<^sup>*\<^sup>* ss ?r"
  proof (cases "ss_reader ss = R_reading")
    case True
    then have "?r = ss" by simp
    then show ?thesis by simp
  next
    case False
    with less.prems show ?thesis by (auto intro: reader_enters)
  qed
  then have n: "(session_step cancelled)\<^sup>*\<^sup>* ss (session_next ?r)"
    by (rule rtranclp.rtrancl_into_rtrancl) (rule reader_reads, simp)
  obtain line ok rest where rl: "read_line (ss_unread ss) = (line, ok, rest)" by (metis prod_cases3)
  note sr = session_read.simps [of "ss_remote ss" "ss_unread ss"]
  have ok: ok using sr rl less.prems(1) by (cases ok) simp_all
  show ?case
  proof (cases "1 < length line")
    case True
    let ?n = "?r\<lparr>ss_unread := rest, ss_reader := R_sending rq\<rparr>"
    let ?ss' = "?n\<lparr>ss_reader := R_select, ss_forward := F_sending rq\<rparr>"
    have eq: "session_next ?r = ?n" "session_read (ss_remote ss) rest = rqs"
      using sr rl ok True less.prems(1) by (simp_all add: session_next_def)
    have "session_step cancelled ?n ?ss'" by (rule reader_passes) (simp_all add: less.prems(3))
    with n eq have "(session_step cancelled)\<^sup>*\<^sup>* ss ?ss'" by (simp add: rtranclp.rtrancl_into_rtrancl)
    moreover have "pending ?ss' = rq # rqs" using eq(2) by (simp add: pending_def)
    ultimately show ?thesis by (intro exI [of _ ?ss']) simp
  next
    case False
    let ?n = "?r\<lparr>ss_unread := rest, ss_reader := R_select\<rparr>"
    have eq: "session_next ?r = ?n" "session_read (ss_remote ss) rest = rq # rqs"
      using sr rl ok False less.prems(1) by (simp_all add: session_next_def)
    have "\<exists>ss'. (session_step cancelled)\<^sup>*\<^sup>* ?n ss' \<and> ss_forward ss' = F_sending rq \<and> pending ss' = rq # rqs"
      by (rule less.hyps) (use less.prems eq(2) read_line_shorter [of "ss_unread ss" line rest] rl ok in simp_all)
    with n eq(1) show ?thesis by (metis rtranclp_trans)
  qed
qed

lemma observed_session_star:
  assumes "(session_step (pc_cancelled p))\<^sup>*\<^sup>* (pc_sessions p ! i) ss" and "i < length (pc_sessions p)"
  shows "observed (process_step propose plan) p [] (p\<lparr>pc_sessions := (pc_sessions p)[i := ss]\<rparr>)"
  using assms(1)
proof (induction rule: rtranclp_induct)
  case base
  have "p\<lparr>pc_sessions := (pc_sessions p)[i := pc_sessions p ! i]\<rparr> = p" by simp
  then show ?case by (simp only: obs_start)
next
  case (step ss ss')
  show ?case
    by (rule observed_session [OF step.IH, where i = i and ss = ss']) (use assms(2) step.hyps(2) in simp_all)
qed

text \<open>\<open>Exit\<close> runs to its end by its own steps.\<close>

lemma exit_sessions_run:
  assumes "pc_exit p = Some (map Disconnect_session is)"
  shows "\<exists>p'. observed (process_step propose plan) p [] p' \<and> pc_exit p' = Some [] \<and>
    pc_server p' = pc_server p \<and> pc_raft_down p' = pc_raft_down p \<and> pc_log_closed p' = pc_log_closed p \<and>
    length (pc_sessions p') = length (pc_sessions p) \<and>
    (\<forall>i < length (pc_sessions p). i \<in> set is \<or> \<not> ss_open (pc_sessions p ! i) \<longrightarrow> \<not> ss_open (pc_sessions p' ! i))"
  using assms
proof (induction "is" arbitrary: p)
  case Nil
  then show ?case by (intro exI [of _ p]) (simp add: obs_start)
next
  case (Cons i "is")
  let ?q = "exit_step (Disconnect_session i) (map Disconnect_session is) p"
  have step: "process_step propose plan p None ?q"
    using Cons.prems by (intro exit_goes_on) simp
  have "pc_exit ?q = Some (map Disconnect_session is)" by simp
  from Cons.IH [OF this] obtain p' where p': "observed (process_step propose plan) ?q [] p'" "pc_exit p' = Some []"
    "pc_server p' = pc_server ?q" "pc_raft_down p' = pc_raft_down ?q" "pc_log_closed p' = pc_log_closed ?q"
    "length (pc_sessions p') = length (pc_sessions ?q)"
    "\<forall>j < length (pc_sessions ?q). j \<in> set is \<or> \<not> ss_open (pc_sessions ?q ! j) \<longrightarrow> \<not> ss_open (pc_sessions p' ! j)"
    by blast
  have "observed (process_step propose plan) p [] p'" by (rule observed_first [OF step p'(1)])
  moreover have "\<not> ss_open (pc_sessions p' ! j)"
    if "j < length (pc_sessions p)" "j \<in> set (i # is) \<or> \<not> ss_open (pc_sessions p ! j)" for j
  proof -
    from that have "j \<in> set is \<or> \<not> ss_open (pc_sessions ?q ! j)"
      by (cases "j = i") (auto simp: session_disconnect_def)
    with p'(7) that(1) show ?thesis by auto
  qed
  ultimately show ?case using p'(2-6) by (intro exI [of _ p']) simp
qed

lemma exit_all_run:
  assumes "pc_exit p = Some [Disconnect_all]"
  shows "\<exists>p'. observed (process_step propose plan) p [] p' \<and> pc_exit p' = Some [] \<and>
    pc_server p' = pc_server p \<and> pc_raft_down p' = pc_raft_down p \<and> pc_log_closed p' = pc_log_closed p \<and>
    (\<forall>ss \<in> set (pc_sessions p'). \<not> ss_open ss)"
proof -
  let ?q = "exit_step Disconnect_all [] p"
  have step: "process_step propose plan p None ?q" using assms by (rule exit_goes_on)
  have "pc_exit ?q = Some (map Disconnect_session [0..<length (pc_sessions p)])" by simp
  from exit_sessions_run [OF this] obtain p' where p': "observed (process_step propose plan) ?q [] p'" "pc_exit p' = Some []"
    "pc_server p' = pc_server ?q" "pc_raft_down p' = pc_raft_down ?q" "pc_log_closed p' = pc_log_closed ?q"
    "length (pc_sessions p') = length (pc_sessions ?q)"
    "\<forall>j < length (pc_sessions ?q). j \<in> set [0..<length (pc_sessions p)] \<longrightarrow> \<not> ss_open (pc_sessions p' ! j)"
    by blast
  then have "\<forall>ss \<in> set (pc_sessions p'). \<not> ss_open ss" by (auto simp: in_set_conv_nth)
  with observed_first [OF step p'(1)] p'(2-5) show ?thesis by (intro exI [of _ p']) simp
qed

lemma kv_exit_run:
  assumes "pc_cancelled p" and "pc_exit p = None"
  shows "\<exists>p'. observed (process_step propose kv_exit) p [] p' \<and> pc_exit p' = Some [] \<and> pc_raft_down p' \<and>
    pc_server p' = pc_server p \<and> (kv_logging (sv_store (pc_server p)) \<longrightarrow> pc_log_closed p') \<and>
    (\<forall>ss \<in> set (pc_sessions p'). \<not> ss_open ss)"
proof -
  let ?logs = "kv_logging (sv_store (pc_server p))"
  let ?rest = "(if ?logs then [Close_log] else []) @ [Disconnect_all]"
  let ?p1 = "p\<lparr>pc_exit := Some (Shutdown_raft # ?rest)\<rparr>"
  have s1: "process_step propose kv_exit p None ?p1"
    using process_step.exit_starts [OF assms, of propose kv_exit] by (simp add: kv_exit_def)
  let ?p2 = "exit_step Shutdown_raft ?rest ?p1"
  have s2: "process_step propose kv_exit ?p1 None ?p2" by (rule exit_goes_on) simp
  let ?p3 = "if ?logs then exit_step Close_log [Disconnect_all] ?p2 else ?p2"
  have "pc_exit ?p3 = Some [Disconnect_all]" by simp
  from exit_all_run [OF this] obtain p' where p': "observed (process_step propose kv_exit) ?p3 [] p'" "pc_exit p' = Some []"
    "pc_server p' = pc_server ?p3" "pc_raft_down p' = pc_raft_down ?p3" "pc_log_closed p' = pc_log_closed ?p3"
    "\<forall>ss \<in> set (pc_sessions p'). \<not> ss_open ss" by blast
  have "observed (process_step propose kv_exit) ?p2 [] p'"
  proof (cases ?logs)
    case True
    have "process_step propose kv_exit ?p2 None (exit_step Close_log [Disconnect_all] ?p2)"
      by (rule exit_goes_on) (simp add: True)
    from observed_first [where cstep = "process_step propose kv_exit", OF this] p'(1) True show ?thesis by simp
  qed (use p'(1) in simp)
  note observed_first [where cstep = "process_step propose kv_exit", OF s2 this]
  note observed_first [where cstep = "process_step propose kv_exit", OF s1 this]
  then show ?thesis using p'(2-) by (intro exI [of _ p']) simp
qed

text \<open>C29: no request gets stuck below \<open>Listen\<close>: in every state of a server, whatever the other goroutines
  do, the first request that an open session still holds, in its stream, its reader or its forwarder, can
  be brought to \<open>Listen\<close> by steps of that session alone, and nothing else has changed then.\<close>

theorem process_delivers:
  assumes "i < length (pc_sessions p)" and "ss_open (pc_sessions p ! i)"
    and "ss_forward (pc_sessions p ! i) \<noteq> F_done" and "pending (pc_sessions p ! i) = rq # rqs"
  shows "\<exists>ss. observed (process_step (\<lambda>closed. kv_propose P G) kv_exit) p []
      (p\<lparr>pc_sessions := (pc_sessions p)[i := ss]\<rparr>) \<and> ss_forward ss = F_sending rq \<and> pending ss = rq # rqs"
proof -
  let ?ss = "pc_sessions p ! i"
  have "\<exists>ss'. (session_step (pc_cancelled p))\<^sup>*\<^sup>* ?ss ss' \<and> ss_forward ss' = F_sending rq \<and> pending ss' = rq # rqs"
  proof (cases "ss_forward ?ss")
    case (F_sending rq')
    with assms(4) show ?thesis by (intro exI [of _ ?ss]) (simp add: pending_def)
  next
    case F_select
    show ?thesis
    proof (cases "ss_reader ?ss")
      case (R_sending rq')
      let ?ss' = "?ss\<lparr>ss_reader := R_select, ss_forward := F_sending rq'\<rparr>"
      have "session_step (pc_cancelled p) ?ss ?ss'" by (rule reader_passes [OF R_sending F_select])
      moreover have "rq' = rq" "pending ?ss' = rq # rqs"
        using assms(4) F_select R_sending by (simp_all add: pending_def)
      ultimately show ?thesis by (intro exI [of _ ?ss']) auto
    qed (use assms(2,4) F_select reader_reaches [of ?ss rq rqs "pc_cancelled p"] in \<open>simp_all add: pending_def\<close>)
  qed (use assms(3) in simp)
  then show ?thesis using observed_session_star [OF _ assms(1)] by blast
qed

lemma process_delivers_witness:
  "\<exists>ss. observed (process_step (\<lambda>closed. kv_propose sample_codec sample_gz) kv_exit)
       (demo_process demo_store (demo_session (newline # ''hi'' @ [newline]) R_select F_select)) []
       (demo_process demo_store ss) \<and> ss_forward ss = F_sending demo_line_request"
proof -
  let ?p = "demo_process demo_store (demo_session (newline # ''hi'' @ [newline]) R_select F_select)"
  have "pending (pc_sessions ?p ! 0) = [demo_line_request]"
    using session_read_line [of "[]" "''h:1''" "''hi'' @ [newline]"] session_read_line [of "''hi''" "''h:1''" "[]"]
    by (simp add: pending_def demo_session_def demo_line_request_def session_read_tail)
  then obtain ss where "observed (process_step (\<lambda>closed. kv_propose sample_codec sample_gz) kv_exit) ?p []
      (?p\<lparr>pc_sessions := (pc_sessions ?p)[0 := ss]\<rparr>)" "ss_forward ss = F_sending demo_line_request"
    using process_delivers [of 0 ?p demo_line_request "[]" sample_codec sample_gz] by (auto simp: demo_session_def)
  then show ?thesis by auto
qed



end
