(* ===== verification/Chat_Process.thy ===== *)
theory Chat_Process
  imports Chat_Typed Server_Process
begin

text \<open>
  The goroutines of a chat server (\<open>chatRoom/server/\<close>): for each session \<open>Read\<close>, \<open>Write\<close> and the forwarder
  that \<open>Join\<close> starts; \<open>Listen\<close>; the accept loop of \<open>main\<close>; \<open>Apply\<close>, which Raft calls from a goroutine of its
  own; and \<open>Shutdown\<close>. Their channels are unbuffered, so a send waits for its receiver. The sequential
  server of \<open>Chat_Server\<close> is what they implement (an instance of \<open>forward_simulation\<close>).
\<close>

section \<open>Sessions\<close>

datatype room_reader = Rd_reading | Rd_sending string
datatype room_forward = Fw_receiving | Fw_sending string
datatype room_writer = Wr_receiving | Wr_writing string | Wr_done

text \<open>
  A session: what its connection still carries from the client, whether \<open>Disconnect\<close> closed its channels, its
  three goroutines, what its writer has taken from \<open>outgoing\<close>, and the connection's other direction.
\<close>

record room_session =
  rm_unread :: bytes
  rm_closed :: bool
  rm_reader :: room_reader
  rm_forward :: room_forward
  rm_writer :: room_writer
  rm_taken :: "string list"
  rm_conn :: bufwriter

text \<open>\<open>NewSession\<close>, whose \<open>Listen\<close> starts the reader and the writer, and the forwarder of \<open>Join\<close>.\<close>

definition room_newSession :: "bytes \<Rightarrow> room_session" where
  "room_newSession stream =
     \<lparr>rm_unread = stream, rm_closed = False, rm_reader = Rd_reading, rm_forward = Fw_receiving,
      rm_writer = Wr_receiving, rm_taken = [], rm_conn = \<lparr>bw_buf = [], bw_out = []\<rparr>\<rparr>"

definition room_disconnect :: "room_session \<Rightarrow> room_session" where
  "room_disconnect ss = ss\<lparr>rm_closed := True\<rparr>"

text \<open>One turn of \<open>Read\<close>, which goes on whatever \<open>ReadString\<close> returned.\<close>

definition room_next :: "room_session \<Rightarrow> room_session" where
  "room_next ss =
     (case read_line (rm_unread ss) of
        (line, ok, rest) \<Rightarrow>
          ss\<lparr>rm_unread := rest, rm_reader := (if ok \<and> 1 < length line then Rd_sending line else Rd_reading)\<rparr>)"

text \<open>
  The steps inside a session. A receive from a closed channel gives the empty string at once; the writer's
  loop ends there.
\<close>

inductive room_session_step :: "room_session \<Rightarrow> room_session \<Rightarrow> bool" where
  rm_reads: "rm_reader ss = Rd_reading \<Longrightarrow> room_session_step ss (room_next ss)"
| rm_passes: "rm_reader ss = Rd_sending line \<Longrightarrow> rm_forward ss = Fw_receiving \<Longrightarrow> \<not> rm_closed ss \<Longrightarrow>
     room_session_step ss (ss\<lparr>rm_reader := Rd_reading, rm_forward := Fw_sending line\<rparr>)"
| rm_empty: "rm_forward ss = Fw_receiving \<Longrightarrow> rm_closed ss \<Longrightarrow>
     room_session_step ss (ss\<lparr>rm_forward := Fw_sending []\<rparr>)"
| rm_ends: "rm_writer ss = Wr_receiving \<Longrightarrow> rm_closed ss \<Longrightarrow>
     room_session_step ss (ss\<lparr>rm_writer := Wr_done\<rparr>)"

text \<open>The writer takes a message, and writes it when the connection accepts it.\<close>

definition room_take :: "room_session \<Rightarrow> string \<Rightarrow> room_session" where
  "room_take ss msg = ss\<lparr>rm_writer := Wr_writing msg, rm_taken := rm_taken ss @ [msg]\<rparr>"

definition room_write :: "room_session \<Rightarrow> string \<Rightarrow> room_session" where
  "room_write ss msg = ss\<lparr>rm_writer := Wr_receiving, rm_conn := bw_flush (bw_writeString (rm_conn ss) msg)\<rparr>"

section \<open>The process\<close>

text \<open>What \<open>Shutdown\<close> does, in order, and the return of \<open>main\<close>.\<close>

datatype room_exit = Disconnect_client nat | Close_joins | Close_incoming | Main_returns

text \<open>
  The sessions; the connection that the accept loop holds for \<open>joins\<close>; a call of \<open>Apply\<close>: its message, the
  client whose turn it is and how many there were when its loop began; what \<open>Listen\<close> handed to Raft;
  what is left of \<open>Shutdown\<close> once \<open>main\<close> has called it (nothing: the process has ended).
\<close>

record chat_process =
  rp_sessions :: "room_session list"
  rp_accepted :: "bytes option"
  rp_applying :: "(string \<times> nat \<times> nat) option"
  rp_proposed :: "bytes list"
  rp_listening :: bool
  rp_joins_closed :: bool
  rp_incoming_closed :: bool
  rp_exit :: "room_exit list option"

definition room_init :: chat_process where
  "room_init = \<lparr>rp_sessions = [], rp_accepted = None, rp_applying = None, rp_proposed = [], rp_listening = True,
     rp_joins_closed = False, rp_incoming_closed = False, rp_exit = None\<rparr>"

abbreviation room_running :: "chat_process \<Rightarrow> bool" where
  "room_running p \<equiv> rp_exit p \<noteq> Some []"

abbreviation put_session :: "chat_process \<Rightarrow> nat \<Rightarrow> room_session \<Rightarrow> chat_process" where
  "put_session p i ss \<equiv> p\<lparr>rp_sessions := (rp_sessions p)[i := ss]\<rparr>"

text \<open>The steps that the sequential server knows of, and the writes.\<close>

datatype room_event =
    Room_join bytes
  | Room_data nat bool string
  | Room_apply raft_log
  | Room_wrote nat
  | Room_disconnect nat

inductive chat_process_step :: "chat_process \<Rightarrow> room_event option \<Rightarrow> chat_process \<Rightarrow> bool" where
  room_accepts: "room_running p \<Longrightarrow> rp_accepted p = None \<Longrightarrow>
     chat_process_step p None (p\<lparr>rp_accepted := Some stream\<rparr>)"
| room_accept_fails: "room_running p \<Longrightarrow> rp_accepted p = None \<Longrightarrow>
     chat_process_step p None (p\<lparr>rp_exit := Some []\<rparr>)"
| room_joins: "room_running p \<Longrightarrow> rp_listening p \<Longrightarrow> rp_accepted p = Some stream \<Longrightarrow> \<not> rp_joins_closed p \<Longrightarrow>
     chat_process_step p (Some (Room_join stream))
       (p\<lparr>rp_accepted := None, rp_sessions := rp_sessions p @ [room_newSession stream]\<rparr>)"
| room_session_runs: "room_running p \<Longrightarrow> i < length (rp_sessions p) \<Longrightarrow> room_session_step (rp_sessions p ! i) ss \<Longrightarrow>
     chat_process_step p None (put_session p i ss)"
| room_takes: "room_running p \<Longrightarrow> rp_listening p \<Longrightarrow> i < length (rp_sessions p) \<Longrightarrow> \<not> rp_incoming_closed p \<Longrightarrow>
     rm_forward (rp_sessions p ! i) = Fw_sending v \<Longrightarrow>
     chat_process_step p (Some (Room_data i leader v))
       ((put_session p i ((rp_sessions p ! i)\<lparr>rm_forward := Fw_receiving\<rparr>))
          \<lparr>rp_proposed := (if leader then rp_proposed p @ [v] else rp_proposed p)\<rparr>)"
| room_listen_ends: "room_running p \<Longrightarrow> rp_listening p \<Longrightarrow> rp_incoming_closed p \<Longrightarrow>
     chat_process_step p None (p\<lparr>rp_listening := False\<rparr>)"
| room_apply_starts: "room_running p \<Longrightarrow> rp_applying p = None \<Longrightarrow>
     chat_process_step p (Some (Room_apply l)) (p\<lparr>rp_applying := Some (chat_message l, 0, length (rp_sessions p))\<rparr>)"
| room_apply_sends: "room_running p \<Longrightarrow> rp_applying p = Some (msg, i, n) \<Longrightarrow> i < n \<Longrightarrow>
     rm_writer (rp_sessions p ! i) = Wr_receiving \<Longrightarrow> \<not> rm_closed (rp_sessions p ! i) \<Longrightarrow>
     chat_process_step p None
       ((put_session p i (room_take (rp_sessions p ! i) msg))\<lparr>rp_applying := Some (msg, Suc i, n)\<rparr>)"
| room_apply_ends: "room_running p \<Longrightarrow> rp_applying p = Some (msg, n, n) \<Longrightarrow>
     chat_process_step p None (p\<lparr>rp_applying := None\<rparr>)"
| room_writes: "room_running p \<Longrightarrow> i < length (rp_sessions p) \<Longrightarrow> rm_writer (rp_sessions p ! i) = Wr_writing msg \<Longrightarrow>
     chat_process_step p (Some (Room_wrote i)) (put_session p i (room_write (rp_sessions p ! i) msg))"
| room_shutdown: "rp_exit p = None \<Longrightarrow>
     chat_process_step p None
       (p\<lparr>rp_exit := Some (map Disconnect_client [0..<length (rp_sessions p)] @ [Close_joins, Close_incoming, Main_returns])\<rparr>)"
| room_disconnects: "rp_exit p = Some (Disconnect_client i # as) \<Longrightarrow> i < length (rp_sessions p) \<Longrightarrow>
     chat_process_step p (Some (Room_disconnect i))
       ((put_session p i (room_disconnect (rp_sessions p ! i)))\<lparr>rp_exit := Some as\<rparr>)"
| room_closes_joins: "rp_exit p = Some (Close_joins # as) \<Longrightarrow>
     chat_process_step p None (p\<lparr>rp_joins_closed := True, rp_exit := Some as\<rparr>)"
| room_closes_incoming: "rp_exit p = Some (Close_incoming # as) \<Longrightarrow>
     chat_process_step p None (p\<lparr>rp_incoming_closed := True, rp_exit := Some as\<rparr>)"
| room_returns: "rp_exit p = Some [Main_returns] \<Longrightarrow> chat_process_step p None (p\<lparr>rp_exit := Some []\<rparr>)"

text \<open>
  A goroutine's next step panics: a send on a closed channel by a reader, a forwarder, \<open>Apply\<close> or the accept loop, or
  \<open>Listen\<close> takes the nil connection that a closed \<open>joins\<close> gives and starts a session on it.
\<close>

definition chat_panics :: "chat_process \<Rightarrow> bool" where
  "chat_panics p \<longleftrightarrow> room_running p \<and>
     ((\<exists>i < length (rp_sessions p). rm_closed (rp_sessions p ! i) \<and> rm_reader (rp_sessions p ! i) \<noteq> Rd_reading) \<or>
      (rp_incoming_closed p \<and> (\<exists>i < length (rp_sessions p). rm_forward (rp_sessions p ! i) \<noteq> Fw_receiving)) \<or>
      (\<exists>msg i n. rp_applying p = Some (msg, i, n) \<and> i < n \<and> rm_closed (rp_sessions p ! i)) \<or>
      (rp_joins_closed p \<and> (rp_accepted p \<noteq> None \<or> rp_listening p)))"

section \<open>The simulation\<close>

text \<open>The sequential server on the same events: \<open>Listen\<close>, \<open>Apply\<close> and \<open>Disconnect\<close> at once.\<close>

definition chat_disconnect :: "chat_server \<Rightarrow> nat \<Rightarrow> chat_server" where
  "chat_disconnect s i = s\<lparr>cs_clients := (cs_clients s)[i := (cs_clients s ! i)\<lparr>ch_closed := True\<rparr>]\<rparr>"

fun room_step :: "chat_server \<Rightarrow> room_event \<Rightarrow> chat_server" where
  "room_step s (Room_join stream) = chat_listen False s Chat_conn"
| "room_step s (Room_data i leader v) = chat_listen leader s (Chat_incoming v)"
| "room_step s (Room_apply l) = fst (chat_apply s l)"
| "room_step s (Room_wrote i) = s"
| "room_step s (Room_disconnect i) = chat_disconnect s i"

definition room_spec :: "room_event list \<Rightarrow> chat_server" where
  "room_spec evs = foldl room_step newChatServer evs"

text \<open>What a call of \<open>Apply\<close> in progress will still send to client \<open>j\<close>: a closed one before it stops the loop.\<close>

definition room_due :: "chat_process \<Rightarrow> nat \<Rightarrow> string list" where
  "room_due p j = (case rp_applying p of None \<Rightarrow> []
     | Some (msg, i, n) \<Rightarrow>
         (if i \<le> j \<and> j < n \<and> (\<forall>c \<in> {i..j}. \<not> rm_closed (rp_sessions p ! c)) then [msg] else []))"

definition writer_ok :: "room_session \<Rightarrow> bool" where
  "writer_ok ss \<longleftrightarrow> bw_buf (rm_conn ss) = [] \<and>
     concat (rm_taken ss) = bw_out (rm_conn ss) @ (case rm_writer ss of Wr_writing msg \<Rightarrow> msg | _ \<Rightarrow> [])"

definition session_related :: "chat_process \<Rightarrow> chat_server \<Rightarrow> nat \<Rightarrow> bool" where
  "session_related p s j \<longleftrightarrow>
     ch_closed (cs_clients s ! j) = rm_closed (rp_sessions p ! j) \<and> writer_ok (rp_sessions p ! j) \<and>
     prefix (rm_taken (rp_sessions p ! j) @ room_due p j) (ch_outgoing (cs_clients s ! j)) \<and>
     ((\<forall>c \<le> j. \<not> rm_closed (rp_sessions p ! c)) \<longrightarrow>
        ch_outgoing (cs_clients s ! j) = rm_taken (rp_sessions p ! j) @ room_due p j)"

definition room_related :: "chat_process \<Rightarrow> chat_server \<Rightarrow> bool" where
  "room_related p s \<longleftrightarrow> cs_proposed s = rp_proposed p \<and> length (cs_clients s) = length (rp_sessions p) \<and>
     (\<forall>msg i n. rp_applying p = Some (msg, i, n) \<longrightarrow> i \<le> n \<and> n \<le> length (rp_sessions p)) \<and>
     (\<forall>j < length (rp_sessions p). session_related p s j)"

lemma room_due_idle: "rp_applying p = None \<Longrightarrow> room_due p j = []"
  by (simp add: room_due_def)

lemma room_write_ok:
  assumes "writer_ok ss" and "rm_writer ss = Wr_writing msg"
  shows "writer_ok (room_write ss msg)"
  using assms bw_writeString_keeps [of "rm_conn ss" msg]
  by (simp add: writer_ok_def room_write_def bw_flush_def)

text \<open>A session may change as long as nothing that the relation reads does.\<close>

lemma related_put:
  assumes "room_related p s" and "i < length (rp_sessions p)"
    and "rm_closed ss = rm_closed (rp_sessions p ! i)" "rm_taken ss = rm_taken (rp_sessions p ! i)"
    and "writer_ok (rp_sessions p ! i) \<Longrightarrow> writer_ok ss"
  shows "room_related (put_session p i ss) s"
proof -
  have c: "rm_closed ((rp_sessions p)[i := ss] ! j) = rm_closed (rp_sessions p ! j)" for j
    using assms(2,3) by (cases "j = i") simp_all
  have t: "rm_taken ((rp_sessions p)[i := ss] ! j) = rm_taken (rp_sessions p ! j)" for j
    using assms(2,4) by (cases "j = i") simp_all
  have d: "room_due (put_session p i ss) = room_due p"
    by (rule ext) (simp add: room_due_def c split: option.split)
  have "writer_ok ((rp_sessions p)[i := ss] ! j)" if "j < length (rp_sessions p)" for j
    using assms(1,2,5) that by (cases "j = i") (simp_all add: room_related_def session_related_def)
  then show ?thesis
    using assms(1) by (simp add: room_related_def session_related_def c t d)
qed

lemma session_step_keeps:
  "room_session_step ss ss' \<Longrightarrow> rm_closed ss' = rm_closed ss \<and> rm_taken ss' = rm_taken ss \<and> (writer_ok ss \<longrightarrow> writer_ok ss')"
  by (induction rule: room_session_step.induct) (auto simp: room_next_def writer_ok_def split: prod.splits)

text \<open>Fields that the relation does not read.\<close>

lemma related_cong:
  assumes "room_related p s" and "rp_sessions p' = rp_sessions p" "rp_applying p' = rp_applying p" "rp_proposed p' = rp_proposed p"
  shows "room_related p' s"
proof -
  have "room_due p' = room_due p"
    by (rule ext) (simp add: room_due_def assms(2,3) split: option.split)
  with assms show ?thesis by (simp add: room_related_def session_related_def)
qed

lemma send_clients_outgoing:
  "length (fst (send_clients msg cs)) = length cs"
  "j < length cs \<Longrightarrow> ch_closed (fst (send_clients msg cs) ! j) = ch_closed (cs ! j)"
  "j < length cs \<Longrightarrow> ch_outgoing (fst (send_clients msg cs) ! j) =
     ch_outgoing (cs ! j) @ (if \<forall>c \<le> j. \<not> ch_closed (cs ! c) then [msg] else [])"
proof (induction cs arbitrary: j)
  case (Cons c cs)
  { case 1 show ?case using Cons(1) by (simp add: split_beta) }
  { case 2 then show ?case using Cons(2) by (cases j) (auto simp: split_beta) }
  { case 3
    have "(\<forall>k \<le> Suc i. \<not> ch_closed ((c # cs) ! k)) \<longleftrightarrow> \<not> ch_closed c \<and> (\<forall>k \<le> i. \<not> ch_closed (cs ! k))" for i
      by (auto simp: All_less_Suc2 simp flip: less_Suc_eq_le)
    then show ?case using 3 Cons(3) by (cases j) (auto simp: split_beta) }
qed simp_all

text \<open>\<open>Apply\<close> in the sequential server sends to the open clients before the first closed one.\<close>

lemma related_apply:
  assumes r: "room_related p s" and n: "rp_applying p = None"
  shows "room_related (p\<lparr>rp_applying := Some (chat_message l, 0, length (rp_sessions p))\<rparr>) (fst (chat_apply s l))"
    (is "room_related ?p ?s")
proof -
  have len: "length (cs_clients s) = length (rp_sessions p)" using r by (simp add: room_related_def)
  have s: "cs_clients ?s = fst (send_clients (chat_message l) (cs_clients s))" "cs_proposed ?s = cs_proposed s"
    by (simp_all add: chat_apply_def split_beta)
  have cl: "ch_closed (cs_clients s ! c) = rm_closed (rp_sessions p ! c)" if "c < length (rp_sessions p)" for c
    using r that by (simp add: room_related_def session_related_def)
  have "session_related ?p ?s j" if j: "j < length (rp_sessions p)" for j
  proof -
    have c: "(\<forall>c \<le> j. \<not> ch_closed (cs_clients s ! c)) \<longleftrightarrow> (\<forall>c \<le> j. \<not> rm_closed (rp_sessions p ! c))"
      using cl j by auto
    have d: "room_due ?p j = (if \<forall>c \<le> j. \<not> rm_closed (rp_sessions p ! c) then [chat_message l] else [])"
      using j by (auto simp: room_due_def)
    have o: "ch_outgoing (cs_clients ?s ! j) = ch_outgoing (cs_clients s ! j) @ room_due ?p j"
      using j send_clients_outgoing(3) [of j "cs_clients s" "chat_message l"] by (simp add: s len d c)
    have "ch_closed (cs_clients ?s ! j) = ch_closed (cs_clients s ! j)"
      using j by (simp add: s len send_clients_outgoing(2))
    moreover have "session_related p s j" using r j by (simp add: room_related_def)
    ultimately show ?thesis
      using room_due_idle [OF n, of j] d
      by (cases "\<forall>c \<le> j. \<not> rm_closed (rp_sessions p ! c)") (auto simp: session_related_def o)
  qed
  then show ?thesis
    using r by (simp add: room_related_def s send_clients_outgoing(1))
qed

lemma related_send:
  assumes r: "room_related p s" and a: "rp_applying p = Some (msg, i, n)" "i < n"
    and w: "rm_writer (rp_sessions p ! i) = Wr_receiving" "\<not> rm_closed (rp_sessions p ! i)"
  shows "room_related ((put_session p i (room_take (rp_sessions p ! i) msg))\<lparr>rp_applying := Some (msg, Suc i, n)\<rparr>) s"
    (is "room_related ?p s")
proof -
  have i: "n \<le> length (rp_sessions p)" using r a(1) by (simp add: room_related_def)
  have c: "rm_closed (rp_sessions ?p ! k) = rm_closed (rp_sessions p ! k)" for k
    using i a(2) by (cases "k = i") (simp_all add: room_take_def)
  have "session_related ?p s j" if j: "j < length (rp_sessions p)" for j
  proof -
    have rj: "session_related p s j" using r j by (simp add: room_related_def)
    have "rm_taken (rp_sessions ?p ! j) @ room_due ?p j = rm_taken (rp_sessions p ! j) @ room_due p j"
    proof (cases "j = i")
      case True
      then show ?thesis using i a w by (simp add: room_due_def room_take_def)
    next
      case False
      have "(\<forall>k \<in> {i..j}. \<not> rm_closed (rp_sessions p ! k)) \<longleftrightarrow> (\<forall>k \<in> {Suc i..j}. \<not> rm_closed (rp_sessions p ! k))"
        if "i < j"
        using w(2) that by (auto simp: Suc_le_eq le_less)
      then show ?thesis using False a c by (auto simp: room_due_def)
    qed
    moreover have "writer_ok (rp_sessions ?p ! j)"
      using rj i a(2) w(1) by (cases "j = i") (auto simp: session_related_def writer_ok_def room_take_def)
    ultimately show ?thesis using rj unfolding session_related_def c by metis
  qed
  then show ?thesis using r a by (auto simp: room_related_def)
qed

lemma related_join:
  assumes r: "room_related p s"
  shows "room_related (p\<lparr>rp_accepted := None, rp_sessions := rp_sessions p @ [room_newSession stream]\<rparr>) (chat_join s)"
    (is "room_related ?p ?s")
proof -
  have len: "length (cs_clients s) = length (rp_sessions p)" using r by (simp add: room_related_def)
  have n: "i \<le> n \<and> n \<le> length (rp_sessions p)" if "rp_applying p = Some (msg, i, n)" for msg i n
    using r that by (simp add: room_related_def)
  have d: "room_due ?p j = room_due p j" for j
    using n by (auto simp: room_due_def nth_append split: option.split)
  have d_new: "room_due p (length (rp_sessions p)) = []"
    using n by (auto simp: room_due_def split: option.split)
  have "session_related ?p ?s j" if j: "j < Suc (length (rp_sessions p))" for j
  proof (cases "j = length (rp_sessions p)")
    case True
    have "session_related ?p ?s (length (rp_sessions p))"
      unfolding session_related_def d d_new
      by (simp add: chat_join_def len nth_append room_newSession_def writer_ok_def)
    with True show ?thesis by simp
  next
    case False
    then have k: "j < length (rp_sessions p)" using j by simp
    then have "session_related p s j" using r by (simp add: room_related_def)
    moreover have "rm_closed ((rp_sessions p @ [room_newSession stream]) ! c) = rm_closed (rp_sessions p ! c)" if "c \<le> j" for c
      using k that by (simp add: nth_append)
    ultimately show ?thesis
      using k by (simp add: session_related_def d chat_join_def len nth_append)
  qed
  then show ?thesis
    using r n by (fastforce simp: room_related_def chat_join_def)
qed

lemma related_disconnect:
  assumes r: "room_related p s" and i: "i < length (rp_sessions p)"
  shows "room_related (put_session p i (room_disconnect (rp_sessions p ! i))) (chat_disconnect s i)"
    (is "room_related ?p ?s")
proof -
  have len: "length (cs_clients s) = length (rp_sessions p)" using r by (simp add: room_related_def)
  have c: "rm_closed (rp_sessions ?p ! k) \<longleftrightarrow> k = i \<or> rm_closed (rp_sessions p ! k)" for k
    using i by (cases "k = i") (simp_all add: room_disconnect_def)
  have d: "room_due ?p j = (if (\<exists>m k n. rp_applying p = Some (m, k, n) \<and> k \<le> i) \<and> i \<le> j then [] else room_due p j)" for j
    using c by (auto simp: room_due_def split: option.split)
  have "session_related ?p ?s j" if j: "j < length (rp_sessions p)" for j
  proof -
    have rj: "session_related p s j" using r j by (simp add: room_related_def)
    have t: "rm_taken (rp_sessions ?p ! j) = rm_taken (rp_sessions p ! j)" "writer_ok (rp_sessions ?p ! j) = writer_ok (rp_sessions p ! j)"
      using i by (cases "j = i", simp_all add: room_disconnect_def writer_ok_def)+
    have o: "ch_outgoing (cs_clients ?s ! j) = ch_outgoing (cs_clients s ! j)"
      "ch_closed (cs_clients ?s ! j) \<longleftrightarrow> j = i \<or> ch_closed (cs_clients s ! j)"
      using i len by (cases "j = i", simp_all add: chat_disconnect_def)+
    have "prefix (rm_taken (rp_sessions p ! j) @ room_due ?p j) (rm_taken (rp_sessions p ! j) @ room_due p j)"
      by (simp add: d)
    then have p: "prefix (rm_taken (rp_sessions p ! j) @ room_due ?p j) (ch_outgoing (cs_clients s ! j))"
      using rj unfolding session_related_def by (meson prefix_order.trans)
    have e: "ch_outgoing (cs_clients s ! j) = rm_taken (rp_sessions p ! j) @ room_due ?p j"
      if "\<forall>k \<le> j. \<not> (k = i \<or> rm_closed (rp_sessions p ! k))"
    proof -
      have "\<not> i \<le> j" "\<forall>k \<le> j. \<not> rm_closed (rp_sessions p ! k)" using that by blast+
      then show ?thesis using rj by (simp add: d session_related_def)
    qed
    show ?thesis unfolding session_related_def c t o using rj p e by (simp add: session_related_def)
  qed
  then show ?thesis using r by (simp add: room_related_def chat_disconnect_def)
qed

lemma related_silent_step:
  assumes r: "room_related p s" and st: "chat_process_step p None p'"
  shows "room_related p' s"
  using st
proof (cases rule: chat_process_step.cases)
  case (room_session_runs i ss)
  then have "room_related (put_session p i ss) s"
    using session_step_keeps [of "rp_sessions p ! i" ss] by (intro related_put [OF r]) simp_all
  with room_session_runs show ?thesis by simp
next
  case (room_apply_sends msg i n)
  with related_send [OF r] show ?thesis by simp
next
  case (room_apply_ends msg n)
  have "room_due p j = []" for j using room_apply_ends by (auto simp: room_due_def)
  then show ?thesis
    using r room_apply_ends by (simp add: room_related_def session_related_def room_due_idle)
qed (simp_all add: related_cong [OF r])

lemma related_visible_step:
  assumes r: "room_related p s" and st: "chat_process_step p (Some ev) p'"
  shows "room_related p' (room_step s ev)"
  using st
proof (cases rule: chat_process_step.cases)
  case (room_joins stream)
  with related_join [OF r] show ?thesis by (simp add: chat_listen_def)
next
  case (room_takes i v leader)
  let ?ss = "(rp_sessions p ! i)\<lparr>rm_forward := Fw_receiving\<rparr>"
  have "room_related (put_session p i ?ss) s"
    by (rule related_put [OF r]) (use room_takes in \<open>simp_all add: writer_ok_def\<close>)
  then have "room_related ((put_session p i ?ss)\<lparr>rp_proposed := (if leader then rp_proposed p @ [v] else rp_proposed p)\<rparr>)
      (chat_receive leader s v)"
    by (auto simp: room_related_def session_related_def chat_receive_def room_due_def cong: option.case_cong)
  with room_takes show ?thesis by (simp add: chat_listen_def)
next
  case (room_apply_starts l)
  with related_apply [OF r] show ?thesis by simp
next
  case (room_writes i msg)
  have "room_related (put_session p i (room_write (rp_sessions p ! i) msg)) s"
    by (rule related_put [OF r]) (use room_writes in \<open>auto simp: room_write_ok, simp_all add: room_write_def\<close>)
  with room_writes show ?thesis by simp
next
  case (room_disconnects i as)
  have "room_related (put_session p i (room_disconnect (rp_sessions p ! i))) (chat_disconnect s i)"
    by (rule related_disconnect [OF r room_disconnects(4)])
  from related_cong [OF this] room_disconnects show ?thesis by simp
qed

interpretation chat_goroutines: forward_simulation chat_process_step "\<lambda>s ev s'. s' = room_step s ev"
    "\<lambda>s evs s'. s' = foldl room_step s evs" room_related
  by unfold_locales (simp_all add: related_silent_step related_visible_step)

lemma room_init_related: "room_related room_init newChatServer"
  by (simp add: room_related_def room_init_def newChatServer_def)

lemma room_simulated: "observed chat_process_step room_init evs p \<Longrightarrow> room_related p (room_spec evs)"
  using chat_goroutines.simulates [OF _ room_init_related, of evs p] by (simp add: room_spec_def)

section \<open>What a session's connection carries\<close>

fun room_applied :: "room_event list \<Rightarrow> raft_log list" where
  "room_applied [] = []"
| "room_applied (Room_apply l # evs) = l # room_applied evs"
| "room_applied (ev # evs) = room_applied evs"

fun room_joined :: "room_event list \<Rightarrow> bytes list" where
  "room_joined [] = []"
| "room_joined (Room_join stream # evs) = stream # room_joined evs"
| "room_joined (ev # evs) = room_joined evs"

fun room_taken :: "room_event list \<Rightarrow> (nat \<times> string) list" where
  "room_taken [] = []"
| "room_taken (Room_data i leader v # evs) = (i, v) # room_taken evs"
| "room_taken (ev # evs) = room_taken evs"

lemma room_snoc:
  "room_applied (evs @ [ev]) = room_applied evs @ room_applied [ev]"
  "room_joined (evs @ [ev]) = room_joined evs @ room_joined [ev]"
  "room_taken (evs @ [ev]) = room_taken evs @ room_taken [ev]"
  by (induction evs rule: room_applied.induct) (cases ev; simp)+

lemma foldl_room_length:
  "length (cs_clients (foldl room_step s evs)) = length (cs_clients s) + length (room_joined evs)"
proof (induction evs rule: rev_induct)
  case (snoc ev evs)
  then show ?case
    by (cases ev) (simp_all add: room_snoc chat_listen_def chat_join_def chat_receive_def chat_apply_def
        chat_disconnect_def split_beta send_clients_outgoing)
qed simp

lemma room_spec_length: "length (cs_clients (room_spec evs)) = length (room_joined evs)"
  by (simp add: room_spec_def foldl_room_length newChatServer_def)

text \<open>
  A step of the sequential server gives client \<open>i\<close> the message of an entry, unless a session that comes no later was
  closed; closed sessions stay closed.
\<close>

lemma room_step_client:
  assumes "i < length (cs_clients s)"
  shows "ch_outgoing (cs_clients (room_step s ev) ! i) = ch_outgoing (cs_clients s ! i) @
      (if \<forall>c \<le> i. \<not> ch_closed (cs_clients s ! c) then map chat_message (room_applied [ev]) else [])"
    and "\<forall>c \<le> i. \<not> ch_closed (cs_clients (room_step s ev) ! c) \<Longrightarrow> \<forall>c \<le> i. \<not> ch_closed (cs_clients s ! c)"
proof -
  show "ch_outgoing (cs_clients (room_step s ev) ! i) = ch_outgoing (cs_clients s ! i) @
      (if \<forall>c \<le> i. \<not> ch_closed (cs_clients s ! c) then map chat_message (room_applied [ev]) else [])"
  proof (cases ev)
    case (Room_disconnect j)
    then show ?thesis using assms by (cases "i = j") (simp_all add: chat_disconnect_def)
  qed (use assms in \<open>simp_all add: chat_listen_def chat_join_def chat_receive_def chat_apply_def nth_append
      split_beta send_clients_outgoing\<close>)
  assume o: "\<forall>c \<le> i. \<not> ch_closed (cs_clients (room_step s ev) ! c)"
  have "ch_closed (cs_clients (room_step s ev) ! c)" if "c \<le> i" "ch_closed (cs_clients s ! c)" for c
  proof (cases ev)
    case (Room_disconnect j)
    then show ?thesis using assms that by (cases "c = j") (simp_all add: chat_disconnect_def)
  qed (use assms that in \<open>simp_all add: chat_listen_def chat_join_def chat_receive_def chat_apply_def nth_append
      split_beta send_clients_outgoing\<close>)
  with o show "\<forall>c \<le> i. \<not> ch_closed (cs_clients s ! c)" by blast
qed

lemma foldl_room_client:
  assumes "i < length (cs_clients s)"
  shows "\<exists>ms. ch_outgoing (cs_clients (foldl room_step s evs) ! i) = ch_outgoing (cs_clients s ! i) @ ms \<and>
    prefix ms (map chat_message (room_applied evs)) \<and>
    ((\<forall>c \<le> i. \<not> ch_closed (cs_clients (foldl room_step s evs) ! c)) \<longrightarrow> ms = map chat_message (room_applied evs))"
proof (induction evs rule: rev_induct)
  case (snoc ev evs)
  let ?t = "foldl room_step s evs"
  obtain ms where ms: "ch_outgoing (cs_clients ?t ! i) = ch_outgoing (cs_clients s ! i) @ ms"
    "prefix ms (map chat_message (room_applied evs))"
    "(\<forall>c \<le> i. \<not> ch_closed (cs_clients ?t ! c)) \<longrightarrow> ms = map chat_message (room_applied evs)"
    using snoc by blast
  have i: "i < length (cs_clients ?t)" using assms by (simp add: foldl_room_length)
  have p: "prefix ms (map chat_message (room_applied (evs @ [ev])))"
    using ms(2) unfolding room_snoc map_append by (rule prefix_prefix)
  show ?case
  proof (cases "\<forall>c \<le> i. \<not> ch_closed (cs_clients ?t ! c)")
    case True
    then show ?thesis using ms(1,3) room_step_client(1) [OF i, of ev]
      by (intro exI [of _ "map chat_message (room_applied (evs @ [ev]))"]) (simp add: room_snoc(1))
  next
    case False
    then have "\<not> (\<forall>c \<le> i. \<not> ch_closed (cs_clients (room_step ?t ev) ! c))"
      using room_step_client(2) [OF i, of ev] by blast
    moreover have "ch_outgoing (cs_clients (room_step ?t ev) ! i) = ch_outgoing (cs_clients s ! i) @ ms"
      using False ms(1) room_step_client(1) [OF i, of ev] by (simp only: if_False append_Nil2)
    ultimately show ?thesis using p by (intro exI [of _ ms]) (simp only: foldl_append foldl.simps simp_thms)
  qed
qed simp

lemma room_spec_client:
  assumes "i = length (room_joined before)"
  shows "prefix (ch_outgoing (cs_clients (room_spec (before @ Room_join stream # after)) ! i))
      (map chat_message (room_applied after))"
proof -
  let ?s = "room_step (room_spec before) (Room_join stream)"
  have n: "length (cs_clients (room_spec before)) = i" using assms by (simp add: room_spec_length)
  then have s: "i < length (cs_clients ?s)" "ch_outgoing (cs_clients ?s ! i) = []"
    by (simp_all add: chat_listen_def chat_join_def nth_append)
  have f: "room_spec (before @ Room_join stream # after) = foldl room_step ?s after"
    by (simp add: room_spec_def)
  show ?thesis using foldl_room_client [OF s(1), of after] unfolding f s(2) by auto
qed

text \<open>What has been written on the connection is the wire form of a beginning of what the sequential server sent.\<close>

lemma related_wire:
  assumes "room_related p s" and "j < length (rp_sessions p)"
  shows "prefix (bw_out (rm_conn (rp_sessions p ! j))) (chat_wire (ch_outgoing (cs_clients s ! j)))"
proof -
  have r: "writer_ok (rp_sessions p ! j)" "prefix (rm_taken (rp_sessions p ! j) @ room_due p j) (ch_outgoing (cs_clients s ! j))"
    using assms by (simp_all add: room_related_def session_related_def)
  have "prefix (bw_out (rm_conn (rp_sessions p ! j))) (concat (rm_taken (rp_sessions p ! j)))"
    using r(1) by (simp add: writer_ok_def)
  also have "prefix \<dots> (concat (ch_outgoing (cs_clients s ! j)))"
    using r(2) by (auto simp: prefix_def)
  finally show ?thesis by (simp add: chat_wire_concat)
qed

lemma room_stream:
  assumes "observed chat_process_step room_init (before @ Room_join stream # after) p"
  shows "length (room_joined before) < length (rp_sessions p)"
    and "prefix (bw_out (rm_conn (rp_sessions p ! length (room_joined before))))
      (chat_wire (map chat_message (room_applied after)))"
proof -
  let ?evs = "before @ Room_join stream # after"
  have r: "room_related p (room_spec ?evs)" by (rule room_simulated [OF assms])
  have "length (room_joined (a @ b)) = length (room_joined a) + length (room_joined b)" for a b
    using foldl_room_length [of newChatServer "a @ b"] foldl_room_length [of newChatServer a]
      foldl_room_length [of "foldl room_step newChatServer a" b] by simp
  then show i: "length (room_joined before) < length (rp_sessions p)"
    using r room_spec_length [of ?evs] by (simp add: room_related_def)
  have "prefix (bw_out (rm_conn (rp_sessions p ! length (room_joined before))))
      (chat_wire (ch_outgoing (cs_clients (room_spec ?evs) ! length (room_joined before))))"
    by (rule related_wire [OF r i])
  also have "prefix \<dots> (chat_wire (map chat_message (room_applied after)))"
    using room_spec_client [OF refl, of before stream after] by (auto simp: chat_wire_concat prefix_def)
  finally show "prefix (bw_out (rm_conn (rp_sessions p ! length (room_joined before))))
      (chat_wire (map chat_message (room_applied after)))" .
qed

text \<open>C16: every interleaving of the goroutines of a chat server, \<open>Shutdown\<close> included, is a run of the sequential server
  on the same joins, messages, entries and disconnections: it has proposed the same, it has the same sessions
  with the same channels closed, and the connection of each carries a beginning of what the sequential
  server sent to this client.\<close>

theorem chat_process_refines:
  assumes "observed chat_process_step room_init evs p"
  shows "rp_proposed p = cs_proposed (room_spec evs) \<and>
    map rm_closed (rp_sessions p) = map ch_closed (cs_clients (room_spec evs)) \<and>
    list_all2 (\<lambda>ss c. prefix (bw_out (rm_conn ss)) (chat_wire (ch_outgoing c))) (rp_sessions p) (cs_clients (room_spec evs))"
proof -
  have r: "room_related p (room_spec evs)" by (rule room_simulated [OF assms])
  show ?thesis
    using r related_wire [OF r]
    by (auto simp: room_related_def session_related_def list_all2_conv_all_nth intro!: nth_equalityI)
qed

section \<open>Before the shutdown\<close>

lemma observed_invariant:
  assumes "observed cstep c evs c'" and "I c" and "\<And>x ev y. I x \<Longrightarrow> cstep x ev y \<Longrightarrow> I y"
  shows "I c'"
  using assms by (induction rule: observed.induct) auto

definition room_calm :: "chat_process \<Rightarrow> bool" where
  "room_calm p \<longleftrightarrow> (rp_exit p = None \<longrightarrow> \<not> rp_joins_closed p \<and> \<not> rp_incoming_closed p \<and>
     (\<forall>ss \<in> set (rp_sessions p). \<not> rm_closed ss \<and> rm_writer ss \<noteq> Wr_done))"

lemma session_step_calm:
  "room_session_step ss ss' \<Longrightarrow> \<not> rm_closed ss \<Longrightarrow> rm_writer ss \<noteq> Wr_done \<Longrightarrow> \<not> rm_closed ss' \<and> rm_writer ss' \<noteq> Wr_done"
  by (induction rule: room_session_step.induct) (auto simp: room_next_def split: prod.splits)

lemma calm_put:
  assumes "room_calm p" and "i < length (rp_sessions p)"
    and "\<not> rm_closed (rp_sessions p ! i) \<Longrightarrow> rm_writer (rp_sessions p ! i) \<noteq> Wr_done \<Longrightarrow> \<not> rm_closed ss \<and> rm_writer ss \<noteq> Wr_done"
  shows "room_calm (put_session p i ss)"
  using assms by (auto simp: room_calm_def dest!: set_update_subset_insert [THEN subsetD])

lemma room_calm_step:
  assumes "room_calm p" and "chat_process_step p ev p'"
  shows "room_calm p'"
  using assms(2)
proof (cases rule: chat_process_step.cases)
  case (room_session_runs i ss)
  then have "room_calm (put_session p i ss)"
    using session_step_calm by (intro calm_put [OF assms(1)]) blast+
  with room_session_runs show ?thesis by simp
next
  case (room_takes i v leader)
  let ?ss = "(rp_sessions p ! i)\<lparr>rm_forward := Fw_receiving\<rparr>"
  have "room_calm (put_session p i ?ss)" by (rule calm_put [OF assms(1) room_takes(5)]) simp
  with room_takes show ?thesis by (simp add: room_calm_def)
next
  case (room_apply_sends msg i n)
  show ?thesis
  proof (cases "i < length (rp_sessions p)")
    case True
    have "room_calm (put_session p i (room_take (rp_sessions p ! i) msg))"
      by (rule calm_put [OF assms(1) True]) (simp add: room_take_def)
    with room_apply_sends show ?thesis by (simp add: room_calm_def)
  qed (use assms(1) room_apply_sends in \<open>simp add: room_calm_def list_update_beyond\<close>)
next
  case (room_writes i msg)
  have "room_calm (put_session p i (room_write (rp_sessions p ! i) msg))"
    by (rule calm_put [OF assms(1) room_writes(4)]) (simp add: room_write_def)
  with room_writes show ?thesis by simp
qed (use assms(1) in \<open>auto simp: room_calm_def room_newSession_def\<close>)

lemma room_calm_reached:
  assumes "observed chat_process_step room_init evs p"
  shows "room_calm p"
  using assms by (rule observed_invariant) (simp add: room_calm_def room_init_def, rule room_calm_step)

text \<open>C34: no goroutine of a chat server panics on a channel before \<open>Shutdown\<close> has begun: the send on a closed channel and
  the session on a nil connection happen between the interrupt and the end of \<open>main\<close> only.\<close>

theorem chat_panics_at_shutdown:
  assumes "observed chat_process_step room_init evs p" and "chat_panics p"
  shows "rp_exit p \<noteq> None \<and> rp_exit p \<noteq> Some []"
proof (rule ccontr)
  assume "\<not> ?thesis"
  moreover have "rp_exit p \<noteq> Some []" using assms(2) by (simp add: chat_panics_def)
  ultimately have e: "rp_exit p = None" by blast
  then have c: "\<not> rp_joins_closed p" "\<not> rp_incoming_closed p" "\<forall>ss \<in> set (rp_sessions p). \<not> rm_closed ss"
    using room_calm_reached [OF assms(1)] by (simp_all add: room_calm_def)
  have "i < length (rp_sessions p)" if "rp_applying p = Some (msg, i, n)" "i < n" for msg i n
    using room_simulated [OF assms(1)] that by (auto simp: room_related_def)
  with assms(2) c show False by (auto simp: chat_panics_def)
qed

lemma chat_panics_at_shutdown_witness:
  "\<exists>p. observed chat_process_step room_init [] p \<and> chat_panics p \<and> rp_exit p \<noteq> None"
proof -
  let ?a = "room_init\<lparr>rp_exit := Some [Close_joins, Close_incoming, Main_returns]\<rparr>"
  let ?p = "room_init\<lparr>rp_exit := Some [Close_incoming, Main_returns], rp_joins_closed := True\<rparr>"
  have "chat_process_step room_init None ?a" using room_shutdown [of room_init] by (simp add: room_init_def)
  then have "observed chat_process_step room_init [] ?a" by (rule obs_silent [OF obs_start])
  moreover have "chat_process_step ?a None ?p"
    using room_closes_joins [of ?a "[Close_incoming, Main_returns]"] by (simp add: room_init_def)
  ultimately have o: "observed chat_process_step room_init [] ?p" by (rule obs_silent)
  have p: "chat_panics ?p" by (simp add: chat_panics_def room_init_def)
  from chat_panics_at_shutdown [OF o p] have "rp_exit ?p \<noteq> None" by (rule conjunct1)
  with o p show ?thesis by (intro exI [of _ ?p] conjI)
qed

text \<open>The runs of the witnesses: one client joins, and then an entry is sent to it.\<close>

definition room_one :: "bytes \<Rightarrow> chat_process" where
  "room_one stream = room_init\<lparr>rp_sessions := [room_newSession stream]\<rparr>"

lemma room_one_joined: "observed chat_process_step room_init [Room_join stream] (room_one stream)"
proof -
  have "observed chat_process_step room_init [] (room_init\<lparr>rp_accepted := Some stream\<rparr>)"
    by (rule obs_silent [OF obs_start], rule room_accepts) (simp_all add: room_init_def)
  moreover have "chat_process_step (room_init\<lparr>rp_accepted := Some stream\<rparr>) (Some (Room_join stream)) (room_one stream)"
    using room_joins [of "room_init\<lparr>rp_accepted := Some stream\<rparr>" stream] by (simp add: room_one_def room_init_def)
  ultimately show ?thesis using obs_visible by fastforce
qed

definition room_sent :: "bytes \<Rightarrow> raft_log \<Rightarrow> chat_process" where
  "room_sent stream l = room_init\<lparr>rp_sessions := [room_take (room_newSession stream) (chat_message l)]\<rparr>"

lemma room_one_sent: "observed chat_process_step (room_one stream) [Room_apply l] (room_sent stream l)"
proof -
  let ?a = "(room_one stream)\<lparr>rp_applying := Some (chat_message l, 0, Suc 0)\<rparr>"
  let ?b = "(room_sent stream l)\<lparr>rp_applying := Some (chat_message l, Suc 0, Suc 0)\<rparr>"
  have "chat_process_step (room_one stream) (Some (Room_apply l)) ?a"
    using room_apply_starts [of "room_one stream" l] by (simp add: room_one_def room_init_def)
  then have "observed chat_process_step (room_one stream) ([] @ [Room_apply l]) ?a"
    by (rule obs_visible [OF obs_start])
  moreover have "chat_process_step ?a None ?b"
    using room_apply_sends [of ?a "chat_message l" 0 "Suc 0"]
    by (simp add: room_one_def room_sent_def room_init_def room_newSession_def)
  moreover have "chat_process_step ?b None (room_sent stream l)"
    using room_apply_ends [of ?b "chat_message l" "Suc 0"] by (simp add: room_sent_def room_init_def)
  ultimately show ?thesis using obs_silent by (metis append_Nil)
qed

section \<open>A client that stops reading\<close>

text \<open>
  How many more entries a replica can begin to apply before the connection of client \<open>i\<close> accepts another message: one
  while the writer of \<open>i\<close> is free, and one unless \<open>Apply\<close> has still to pass \<open>i\<close>.
\<close>

definition room_credit :: "chat_process \<Rightarrow> nat \<Rightarrow> nat" where
  "room_credit p i =
     (if rm_writer (rp_sessions p ! i) = Wr_receiving then 1 else 0) +
     (case rp_applying p of Some (msg, k, n) \<Rightarrow> if k \<le> i \<and> i < n then 0 else 1 | None \<Rightarrow> 1)"

lemma session_step_writer:
  "room_session_step ss ss' \<Longrightarrow> rm_writer ss' = Wr_receiving \<Longrightarrow> rm_writer ss = Wr_receiving"
  by (induction rule: room_session_step.induct) (auto simp: room_next_def split: prod.splits)

lemma room_credit_step:
  assumes "chat_process_step p ev p'" and "i < length (rp_sessions p)" and "ev \<noteq> Some (Room_wrote i)"
    and "\<forall>msg k n. rp_applying p = Some (msg, k, n) \<longrightarrow> k \<le> n \<and> n \<le> length (rp_sessions p)"
  shows "room_credit p' i + (case ev of Some (Room_apply l) \<Rightarrow> 1 | _ \<Rightarrow> 0) \<le> room_credit p i"
  using assms(1)
proof (cases rule: chat_process_step.cases)
  case (room_session_runs j ss)
  then show ?thesis
    using session_step_writer [of "rp_sessions p ! j" ss] by (cases "i = j") (auto simp: room_credit_def)
next
  case (room_takes j v leader)
  then show ?thesis by (cases "i = j") (auto simp: room_credit_def)
next
  case (room_apply_sends msg j n)
  then show ?thesis using assms(2,4) by (cases "i = j") (auto simp: room_credit_def room_take_def)
next
  case (room_writes j msg)
  then show ?thesis using assms(3) by (cases "i = j") (auto simp: room_credit_def)
next
  case (room_disconnects j as)
  then show ?thesis by (cases "i = j") (auto simp: room_credit_def room_disconnect_def)
qed (use assms(2) in \<open>auto simp: room_credit_def nth_append\<close>)

definition room_wf :: "chat_process \<Rightarrow> bool" where
  "room_wf p \<longleftrightarrow> (\<exists>s. room_related p s)"

lemma room_wf_step: "room_wf p \<Longrightarrow> chat_process_step p ev p' \<Longrightarrow> room_wf p'"
  unfolding room_wf_def using related_silent_step related_visible_step by (cases ev) blast+

lemma room_wf_reached: "observed chat_process_step room_init evs p \<Longrightarrow> room_wf p"
  using room_simulated unfolding room_wf_def by blast

lemma room_sessions_grow: "chat_process_step p ev p' \<Longrightarrow> length (rp_sessions p) \<le> length (rp_sessions p')"
  by (induction rule: chat_process_step.induct) simp_all

lemma room_credit_run:
  assumes "observed chat_process_step p evs p'" and "room_wf p" and "i < length (rp_sessions p)"
    and "Room_wrote i \<notin> set evs"
  shows "room_wf p' \<and> i < length (rp_sessions p') \<and> room_credit p' i + length (room_applied evs) \<le> room_credit p i"
  using assms
proof (induction rule: observed.induct)
  case (obs_silent evs p1 p2)
  then have ih: "room_wf p1" "i < length (rp_sessions p1)" "room_credit p1 i + length (room_applied evs) \<le> room_credit p i"
    by blast+
  moreover have "room_credit p2 i \<le> room_credit p1 i"
    using room_credit_step [OF obs_silent.hyps(2) ih(2)] ih(1) by (fastforce simp: room_wf_def room_related_def)
  ultimately show ?case
    using room_wf_step [OF ih(1) obs_silent.hyps(2)] room_sessions_grow [OF obs_silent.hyps(2)] by simp
next
  case (obs_visible evs p1 ev p2)
  then have ih: "room_wf p1" "i < length (rp_sessions p1)" "room_credit p1 i + length (room_applied evs) \<le> room_credit p i"
    by simp_all
  have "room_credit p2 i + (case Some ev of Some (Room_apply l) \<Rightarrow> 1 | _ \<Rightarrow> 0) \<le> room_credit p1 i"
    using room_credit_step [OF obs_visible.hyps(2) ih(2)] ih(1) obs_visible.prems(3)
    by (fastforce simp: room_wf_def room_related_def)
  then have "room_credit p2 i + length (room_applied [ev]) \<le> room_credit p1 i" by (cases ev) simp_all
  then show ?case
    using ih room_wf_step [OF ih(1) obs_visible.hyps(2)] room_sessions_grow [OF obs_visible.hyps(2)]
    by (simp add: room_snoc(1))
qed simp

text \<open>C17: a client that stops reading stops the room. Whatever a replica has done, once the connection of one of its
  clients accepts nothing more, the replica begins to apply at most two further entries, for ever: \<open>Apply\<close> waits
  for the session's writer, the writer for the connection, and Raft for \<open>Apply\<close>.\<close>

theorem slow_client_stops_room:
  assumes "observed chat_process_step room_init evs p" and "i < length (rp_sessions p)"
    and "observed chat_process_step p evs' p'" and "Room_wrote i \<notin> set evs'"
  shows "length (room_applied evs') \<le> 2"
proof -
  have "room_credit p' i + length (room_applied evs') \<le> room_credit p i"
    using room_credit_run [OF assms(3) room_wf_reached [OF assms(1)] assms(2,4)] by blast
  moreover have "room_credit p i \<le> 2" by (auto simp: room_credit_def split: option.split)
  ultimately show ?thesis by simp
qed

lemma chat_process_refines_witness:
  "room_spec [Room_join [], Room_apply hi] = \<lparr>cs_clients = [\<lparr>ch_outgoing = [chat_message hi], ch_closed = False\<rparr>], cs_proposed = []\<rparr> \<and>
   map rm_closed (rp_sessions (room_sent [] hi)) = [False]"
proof -
  have o: "observed chat_process_step room_init [Room_join [], Room_apply hi] (room_sent [] hi)"
    using observed_trans [OF room_one_joined room_one_sent, of "[]" hi] by simp
  have "room_spec [Room_join [], Room_apply hi] = \<lparr>cs_clients = [\<lparr>ch_outgoing = [chat_message hi], ch_closed = False\<rparr>], cs_proposed = []\<rparr>"
    by (simp add: room_spec_def newChatServer_def chat_listen_def chat_join_def chat_apply_def)
  with chat_process_refines [OF o] show ?thesis by simp
qed

text \<open>Two entries, of which the second is begun and waits.\<close>

lemma slow_client_stops_room_witness:
  "\<exists>p'. observed chat_process_step (room_one []) [Room_apply hi, Room_apply yo] p' \<and> length (room_applied [Room_apply hi, Room_apply yo]) \<le> 2"
proof -
  let ?p = "(room_sent [] hi)\<lparr>rp_applying := Some (chat_message yo, 0, Suc 0)\<rparr>"
  have "chat_process_step (room_sent [] hi) (Some (Room_apply yo)) ?p"
    using room_apply_starts [of "room_sent [] hi" yo] by (simp add: room_sent_def room_init_def)
  from obs_visible [OF room_one_sent this] have o: "observed chat_process_step (room_one []) [Room_apply hi, Room_apply yo] ?p"
    by simp
  have "0 < length (rp_sessions (room_one []))" by (simp add: room_one_def)
  from slow_client_stops_room [OF room_one_joined this o] have "length (room_applied [Room_apply hi, Room_apply yo]) \<le> 2"
    by simp
  with o show ?thesis by (intro exI [of _ ?p] conjI)
qed

section \<open>Every message is delivered\<close>

definition room_writing :: "room_session \<Rightarrow> bool" where
  "room_writing ss = (case rm_writer ss of Wr_writing msg \<Rightarrow> True | _ \<Rightarrow> False)"

definition room_work :: "chat_process \<Rightarrow> nat" where
  "room_work p = (case rp_applying p of None \<Rightarrow> 0 | Some (msg, i, n) \<Rightarrow> Suc (2 * (n - i))) +
     length (filter room_writing (rp_sessions p))"

lemma filter_update:
  "i < length xs \<Longrightarrow> length (filter P (xs[i := x])) + (if P (xs ! i) then 1 else 0) = length (filter P xs) + (if P x then 1 else 0)"
proof (induction xs arbitrary: i)
  case (Cons y ys)
  then show ?case by (cases i) auto
qed simp

text \<open>While something is left to do, a write, a send of \<open>Apply\<close> or its end is possible.\<close>

lemma room_progress:
  assumes "room_wf p" and "room_calm p" and "rp_exit p = None" and "room_work p \<noteq> 0"
  obtains p' ev where "chat_process_step p ev p'" "ev = None \<or> (\<exists>i. ev = Some (Room_wrote i))"
    "room_work p' < room_work p" "rp_exit p' = None"
proof (cases "\<exists>i < length (rp_sessions p). room_writing (rp_sessions p ! i)")
  case True
  then obtain i where "i < length (rp_sessions p)" "room_writing (rp_sessions p ! i)" by blast
  moreover from this(2) obtain msg where "rm_writer (rp_sessions p ! i) = Wr_writing msg"
    by (cases "rm_writer (rp_sessions p ! i)") (simp_all add: room_writing_def)
  ultimately have i: "i < length (rp_sessions p)" "rm_writer (rp_sessions p ! i) = Wr_writing msg" by blast+
  let ?p = "put_session p i (room_write (rp_sessions p ! i) msg)"
  have "chat_process_step p (Some (Room_wrote i)) ?p" by (rule room_writes) (simp_all add: i assms(3))
  moreover have "room_work ?p < room_work p"
    using filter_update [OF i(1), of room_writing "room_write (rp_sessions p ! i) msg"] i(2)
    by (simp add: room_work_def room_writing_def room_write_def)
  ultimately show ?thesis using that assms(3) by simp
next
  case False
  then have "filter room_writing (rp_sessions p) = []" by (auto simp: filter_empty_conv in_set_conv_nth)
  with assms(4) obtain msg i n where a: "rp_applying p = Some (msg, i, n)"
    by (cases "rp_applying p") (auto simp: room_work_def)
  then have n: "i \<le> n" "n \<le> length (rp_sessions p)" using assms(1) by (auto simp: room_wf_def room_related_def)
  show ?thesis
  proof (cases "i = n")
    case True
    have "chat_process_step p None (p\<lparr>rp_applying := None\<rparr>)"
      by (rule room_apply_ends) (use a True assms(3) in simp_all)
    then show ?thesis using that [of None] a assms(3) by (simp add: room_work_def)
  next
    case ne: False
    then have i: "i < n" "i < length (rp_sessions p)" using n by simp_all
    then have o: "\<not> rm_closed (rp_sessions p ! i)" "rm_writer (rp_sessions p ! i) \<noteq> Wr_done"
      using assms(2,3) by (simp_all add: room_calm_def)
    have w: "rm_writer (rp_sessions p ! i) = Wr_receiving"
      using False i(2) o(2) by (cases "rm_writer (rp_sessions p ! i)") (auto simp: room_writing_def)
    let ?p = "(put_session p i (room_take (rp_sessions p ! i) msg))\<lparr>rp_applying := Some (msg, Suc i, n)\<rparr>"
    have "chat_process_step p None ?p" by (rule room_apply_sends) (simp_all add: a i w o assms(3))
    moreover have "room_work ?p < room_work p"
      using filter_update [OF i(2), of room_writing "room_take (rp_sessions p ! i) msg"] i(1) w a
      by (auto simp: room_work_def room_writing_def room_take_def)
    ultimately show ?thesis using that assms(3) by simp
  qed
qed

lemma room_drains:
  assumes "room_wf p" and "room_calm p" and "rp_exit p = None"
  shows "\<exists>evs p'. observed chat_process_step p evs p' \<and> (\<forall>ev \<in> set evs. \<exists>i. ev = Room_wrote i) \<and>
    room_work p' = 0 \<and> rp_exit p' = None"
  using assms
proof (induction "room_work p" arbitrary: p rule: less_induct)
  case less
  show ?case
  proof (cases "room_work p = 0")
    case True
    with less.prems(3) obs_start [of chat_process_step p] show ?thesis by fastforce
  next
    case False
    obtain p1 ev where s: "chat_process_step p ev p1" "ev = None \<or> (\<exists>i. ev = Some (Room_wrote i))"
      "room_work p1 < room_work p" "rp_exit p1 = None"
      using room_progress [OF less.prems False] by blast
    obtain evs p' where d: "observed chat_process_step p1 evs p'" "\<forall>ev \<in> set evs. \<exists>i. ev = Room_wrote i"
      "room_work p' = 0" "rp_exit p' = None"
      using less.hyps [OF s(3) room_wf_step [OF less.prems(1) s(1)] room_calm_step [OF less.prems(2) s(1)] s(4)] by blast
    show ?thesis
    proof (cases ev)
      case None
      with observed_first [of chat_process_step p p1 evs p'] s(1) d show ?thesis by blast
    next
      case (Some e)
      with s(1) have "observed chat_process_step p ([] @ [e]) p1" by (blast intro: obs_start obs_visible)
      from observed_trans [OF this d(1)] d(2-4) s(2) Some show ?thesis
        by (intro exI [of _ "[e] @ evs"] exI [of _ p']) auto
    qed
  qed
qed

lemma room_applied_writes:
  "\<forall>ev \<in> set evs. \<exists>i. ev = Room_wrote i \<Longrightarrow> foldl room_step s evs = s"
  by (induction evs) auto



section \<open>What \<open>Listen\<close> takes from each client\<close>

text \<open>The lines that a session's reader makes of a whole stream.\<close>

definition room_lines :: "bytes \<Rightarrow> string list" where
  "room_lines s = chat_session_turns (length s) s []"

lemma turns_line:
  "read_line s = (line, ok, rest) \<Longrightarrow>
     chat_session_turns (Suc n) s [] = (if ok \<and> 1 < length line then [line] else []) @ chat_session_turns n rest []"
  using chat_session_turns_acc [of n rest "[line]"] by simp

lemma read_line_less: "read_line s = (line, ok, rest) \<Longrightarrow> length rest \<le> length s - 1"
  using read_line_rest [of s line ok rest] read_line_shorter [of s line rest] by (cases ok; cases line) auto

lemma turns_enough: "length s \<le> n \<Longrightarrow> chat_session_turns n s [] = room_lines s"
proof -
  have stable: "length s \<le> n \<Longrightarrow> chat_session_turns (Suc n) s [] = chat_session_turns n s []" for n s
  proof (induction n arbitrary: s)
    case 0
    then show ?case by simp
  next
    case (Suc n)
    obtain line ok rest where r: "read_line s = (line, ok, rest)" by (cases "read_line s")
    have "length rest \<le> n" using read_line_less [OF r] Suc.prems by simp
    from Suc.IH [OF this] show ?case by (simp only: turns_line [OF r])
  qed
  assume "length s \<le> n"
  then show ?thesis
  proof (induction n rule: dec_induct)
    case (step n)
    with stable [of s n] show ?case by (simp only:)
  qed (simp add: room_lines_def)
qed

lemma room_lines_step:
  assumes "read_line s = (line, ok, rest)"
  shows "room_lines s = (if ok \<and> 1 < length line then [line] else []) @ room_lines rest"
proof -
  have "length rest \<le> length s" using read_line_less [OF assms] by simp
  then show ?thesis
    using turns_enough [of s "Suc (length s)"] turns_enough [of rest "length s"] turns_line [OF assms, of "length s"]
    by simp
qed

text \<open>What a session may still hand to \<open>Listen\<close>, in order.\<close>

definition room_ahead :: "room_session \<Rightarrow> string list" where
  "room_ahead ss = (case rm_forward ss of Fw_sending v \<Rightarrow> [v] | Fw_receiving \<Rightarrow> []) @
     (case rm_reader ss of Rd_sending line \<Rightarrow> [line] | Rd_reading \<Rightarrow> []) @ room_lines (rm_unread ss)"

lemma session_step_ahead:
  "room_session_step ss ss' \<Longrightarrow> \<not> rm_closed ss \<Longrightarrow> room_ahead ss' = room_ahead ss \<and> \<not> rm_closed ss'"
proof (induction rule: room_session_step.induct)
  case (rm_reads ss)
  obtain line ok rest where r: "read_line (rm_unread ss) = (line, ok, rest)" by (cases "read_line (rm_unread ss)")
  show ?case using rm_reads room_lines_step [OF r] by (simp add: room_next_def r room_ahead_def)
qed (simp_all add: room_ahead_def)

definition room_undisturbed :: "room_event list \<Rightarrow> bool" where
  "room_undisturbed evs \<longleftrightarrow> (\<forall>i. Room_disconnect i \<notin> set evs)"

definition room_leads :: "room_event list \<Rightarrow> bool" where
  "room_leads evs \<longleftrightarrow> (\<forall>i leader v. Room_data i leader v \<in> set evs \<longrightarrow> leader)"

definition taken_from :: "nat \<Rightarrow> (nat \<times> string) list \<Rightarrow> string list" where
  "taken_from i hs = map snd (filter (\<lambda>h. fst h = i) hs)"

lemma taken_from_simps [simp]:
  "taken_from i [] = []" "taken_from i (hs @ hs') = taken_from i hs @ taken_from i hs'"
  "taken_from i [(j, v)] = (if i = j then [v] else [])"
  by (simp_all add: taken_from_def)

definition room_fed :: "room_event list \<Rightarrow> chat_process \<Rightarrow> bool" where
  "room_fed evs p \<longleftrightarrow> length (rp_sessions p) = length (room_joined evs) \<and>
     (\<forall>i < length (rp_sessions p). \<not> rm_closed (rp_sessions p ! i) \<and>
        taken_from i (room_taken evs) @ room_ahead (rp_sessions p ! i) = room_lines (room_joined evs ! i)) \<and>
     (\<forall>h \<in> set (room_taken evs). fst h < length (rp_sessions p)) \<and>
     (room_leads evs \<longrightarrow> rp_proposed p = map snd (room_taken evs))"

lemma fed_put:
  assumes "room_fed evs p" and "i < length (rp_sessions p)" and "\<not> rm_closed ss" and "room_ahead ss = room_ahead (rp_sessions p ! i)"
  shows "room_fed evs (put_session p i ss)"
  using assms by (auto simp: room_fed_def nth_list_update)

lemma fed_silent:
  assumes f: "room_fed evs p" and st: "chat_process_step p None p'"
  shows "room_fed evs p'"
  using st
proof (cases rule: chat_process_step.cases)
  case (room_session_runs i ss)
  have "room_fed evs (put_session p i ss)"
    using f room_session_runs session_step_ahead [OF room_session_runs(4)] by (intro fed_put [OF f]) (auto simp: room_fed_def)
  with room_session_runs show ?thesis by simp
next
  case (room_apply_sends msg i n)
  show ?thesis
  proof (cases "i < length (rp_sessions p)")
    case True
    have "room_fed evs (put_session p i (room_take (rp_sessions p ! i) msg))"
      by (rule fed_put [OF f True]) (use room_apply_sends in \<open>simp_all add: room_take_def room_ahead_def\<close>)
    with room_apply_sends show ?thesis by (auto simp: room_fed_def)
  qed (use f room_apply_sends in \<open>auto simp: room_fed_def list_update_beyond\<close>)
qed (use f in \<open>auto simp: room_fed_def\<close>)

lemma room_leads_snoc: "room_leads (evs @ [ev]) \<Longrightarrow> room_leads evs"
  by (auto simp: room_leads_def)

lemma fed_visible:
  assumes f: "room_fed evs p" and st: "chat_process_step p (Some ev) p'" and u: "\<nexists>i. ev = Room_disconnect i"
  shows "room_fed (evs @ [ev]) p'"
  using st
proof (cases rule: chat_process_step.cases)
  case (room_joins stream)
  have new: "room_ahead (room_newSession stream) = room_lines stream" by (simp add: room_ahead_def room_newSession_def)
  have none: "taken_from (length (rp_sessions p)) (room_taken evs) = []"
    using f by (auto simp: taken_from_def filter_empty_conv room_fed_def)
  show ?thesis
    using f room_joins(1,2) new none room_leads_snoc [of evs ev]
    by (auto simp: room_fed_def room_snoc nth_append less_Suc_eq) (simp_all add: room_newSession_def)
next
  case (room_takes i v leader)
  let ?ss = "(rp_sessions p ! i)\<lparr>rm_forward := Fw_receiving\<rparr>"
  have a: "room_ahead (rp_sessions p ! i) = v # room_ahead ?ss" using room_takes(7) by (simp add: room_ahead_def)
  have l: "room_leads (evs @ [ev]) \<Longrightarrow> leader" using room_takes(1) by (auto simp: room_leads_def)
  show ?thesis
    using f room_takes(1,2,5) a l room_leads_snoc [of evs ev]
    by (auto simp: room_fed_def room_snoc nth_list_update)
next
  case (room_apply_starts l)
  then show ?thesis using f room_leads_snoc [of evs ev] by (auto simp: room_fed_def room_snoc)
next
  case (room_writes i msg)
  have "room_fed evs (put_session p i (room_write (rp_sessions p ! i) msg))"
    by (rule fed_put [OF f room_writes(4)]) (use f room_writes in \<open>simp_all add: room_write_def room_ahead_def room_fed_def\<close>)
  then show ?thesis using room_writes(1,2) room_leads_snoc [of evs ev] by (auto simp: room_fed_def room_snoc)
qed (use u in blast)

lemma room_fed_reached:
  assumes "observed chat_process_step room_init evs p" and "room_undisturbed evs"
  shows "room_fed evs p"
  using assms
proof (induction rule: observed.induct)
  case obs_start
  show ?case by (simp add: room_fed_def room_init_def)
next
  case (obs_silent evs p1 p2)
  then show ?case using fed_silent by blast
next
  case (obs_visible evs p1 ev p2)
  then show ?case using fed_visible [of evs p1 ev p2] by (auto simp: room_undisturbed_def)
qed

section \<open>From the keyboards, through the goroutines, to the screens\<close>

text \<open>
  A client's view of one replica: what the replica's goroutines did before the client joined it, and since; how
  many bytes of the connection have arrived, and the turns that the client's reader has made.
\<close>

record chat_view =
  vw_before :: "room_event list"
  vw_stream :: bytes
  vw_after :: "room_event list"
  vw_process :: chat_process
  vw_arrived :: nat
  vw_turns :: nat

definition view_conn :: "chat_view \<Rightarrow> bytes" where
  "view_conn vw = bw_out (rm_conn (rp_sessions (vw_process vw) ! length (room_joined (vw_before vw))))"

definition view_ok :: "chat_view \<Rightarrow> bool" where
  "view_ok vw \<longleftrightarrow> observed chat_process_step room_init (vw_before vw @ Room_join (vw_stream vw) # vw_after vw) (vw_process vw)"

definition view_lines :: "chat_view \<Rightarrow> string list" where
  "view_lines vw = chat_read (vw_turns vw) (take (vw_arrived vw) (view_conn vw))"

text \<open>Seen from the sequential server, such a view is a link.\<close>

definition view_link :: "chat_view \<Rightarrow> chat_link" where
  "view_link vw = \<lparr>lk_before = [], lk_after = map Chat_apply (room_applied (vw_after vw)),
     lk_arrived = take (vw_arrived vw) (view_conn vw), lk_turns = vw_turns vw\<rparr>"

lemma applied_of_applies [simp]: "applied_of (map Chat_apply es) = es"
  by (induction es) simp_all

lemma view_link:
  assumes "view_ok vw"
  shows "link_ok (view_link vw)" and "link_lines (view_link vw) = view_lines vw"
    and "applied_of (lk_after (view_link vw)) = room_applied (vw_after vw)"
proof -
  have "link_stream (view_link vw) = chat_wire (map chat_message (room_applied (vw_after vw)))"
    by (simp only: link_stream_def client_messages) (simp add: view_link_def)
  moreover have "prefix (take (vw_arrived vw) (view_conn vw)) (chat_wire (map chat_message (room_applied (vw_after vw))))"
    using room_stream(2) [OF assms [unfolded view_ok_def]] take_is_prefix unfolding view_conn_def
    by (rule prefix_order.trans [rotated])
  ultimately show "link_ok (view_link vw)" by (simp add: link_ok_def) (simp add: view_link_def)
  show "link_lines (view_link vw) = view_lines vw" by (simp add: link_lines_def view_lines_def view_link_def)
  show "applied_of (lk_after (view_link vw)) = room_applied (vw_after vw)" by (simp add: view_link_def)
qed

lemma chat_sent_lines: "chat_sent input stream \<Longrightarrow> prefix (room_lines stream) (typed input)"
  unfolding room_lines_def by (rule chat_sent_session)


text \<open>One client types a line that the leader takes; another had joined a replica before, and sees it.\<close>

lemma room_one_takes:
  assumes "read_line stream = (line, True, rest)" and "1 < length line"
  shows "\<exists>p. observed chat_process_step room_init [Room_join stream, Room_data 0 True line] p \<and> rp_proposed p = [line]"
proof -
  let ?a = "room_init\<lparr>rp_sessions := [room_next (room_newSession stream)]\<rparr>"
  let ?ss = "(room_next (room_newSession stream))\<lparr>rm_reader := Rd_reading, rm_forward := Fw_sending line\<rparr>"
  let ?b = "room_init\<lparr>rp_sessions := [?ss]\<rparr>"
  have n: "rm_reader (room_next (room_newSession stream)) = Rd_sending line"
    "rm_forward (room_next (room_newSession stream)) = Fw_receiving" "\<not> rm_closed (room_next (room_newSession stream))"
    using assms by (simp_all add: room_next_def room_newSession_def)
  have "chat_process_step (room_one stream) None ?a"
    using room_session_runs [of "room_one stream" 0 "room_next (room_newSession stream)"] rm_reads [of "room_newSession stream"]
    by (simp add: room_one_def room_init_def) (simp add: room_newSession_def)
  then have "observed chat_process_step room_init [Room_join stream] ?a" by (rule obs_silent [OF room_one_joined])
  moreover have "chat_process_step ?a None ?b"
    using room_session_runs [of ?a 0 ?ss] rm_passes [OF n] by (simp add: room_init_def)
  ultimately have o: "observed chat_process_step room_init [Room_join stream] ?b" by (rule obs_silent)
  have "\<exists>p. chat_process_step ?b (Some (Room_data 0 True line)) p \<and> rp_proposed p = [line]"
    using room_takes [of ?b 0 line True] by (fastforce simp: room_init_def)
  with obs_visible [OF o] show ?thesis by fastforce
qed


end
