(* ===== verification/Command_Line.thy ===== *)
theory Command_Line
  imports Go_Prelude
begin

text \<open>
  Package \<open>flag\<close> as the programs use it: string and boolean flags with defaults, and \<open>flag.Parse\<close>
  on the arguments, which ends the process on a mistake. What the programs make of it is in \<open>Programs\<close>.
\<close>

section \<open>Flags\<close>

datatype flag_value = Str_flag string | Bool_flag bool

text \<open>The flags that are defined, with their current values.\<close>

type_synonym flag_set = "string \<rightharpoonup> flag_value"

definition str_flag :: "flag_set \<Rightarrow> string \<Rightarrow> string" where
  "str_flag F name = (case F name of Some (Str_flag s) \<Rightarrow> s | _ \<Rightarrow> [])"

definition bool_flag :: "flag_set \<Rightarrow> string \<Rightarrow> bool" where
  "bool_flag F name = (case F name of Some (Bool_flag b) \<Rightarrow> b | _ \<Rightarrow> False)"

definition same_kind :: "flag_value \<Rightarrow> flag_value \<Rightarrow> bool" where
  "same_kind v w = (case v of Str_flag _ \<Rightarrow> (case w of Str_flag _ \<Rightarrow> True | _ \<Rightarrow> False)
                    | Bool_flag _ \<Rightarrow> (case w of Bool_flag _ \<Rightarrow> True | _ \<Rightarrow> False))"

lemma same_kind_trans: "same_kind d v \<Longrightarrow> same_kind d w \<Longrightarrow> same_kind v w"
  by (cases d; cases v; cases w) (simp_all add: same_kind_def)

section \<open>Parse\<close>

text \<open>What one argument is: an equals sign cannot come first in a name, and ends it anywhere else.\<close>

datatype flag_token = Not_flag | Terminator | Bad_syntax | Flag_arg string "string option"

abbreviation equals :: char where "equals \<equiv> CHR ''=''"

definition flag_token :: "string \<Rightarrow> flag_token" where
  "flag_token s =
     (case s of
        c1 # c2 # cs \<Rightarrow>
          (if c1 \<noteq> dash then Not_flag
           else if c2 = dash \<and> cs = [] then Terminator
           else (let name = (if c2 = dash then cs else c2 # cs)
                 in if hd name = dash \<or> hd name = equals then Bad_syntax
                    else Flag_arg (takeWhile (\<lambda>c. c \<noteq> equals) name)
                           (case dropWhile (\<lambda>c. c \<noteq> equals) name of [] \<Rightarrow> None | _ # v \<Rightarrow> Some v)))
      | _ \<Rightarrow> Not_flag)"

text \<open>\<open>strconv.ParseBool\<close> with its error.\<close>

definition parse_bool_flag :: "string \<Rightarrow> bool option" where
  "parse_bool_flag s =
     (if parse_bool s then Some True
      else if s \<in> set [''0'', ''f'', ''F'', ''FALSE'', ''false'', ''False''] then Some False else None)"

text \<open>
  \<open>flag.Parse\<close> stops at the first argument that is no flag, or after two dashes; a boolean flag takes no
  argument of its own. Every mistake, and a request for help, prints the usage and ends the process.
\<close>

fun flag_parse :: "flag_set \<Rightarrow> string list \<Rightarrow> (flag_set \<times> string list) outcome" where
  "flag_parse F [] = Ret (F, [])"
| "flag_parse F (s # args) =
     (case flag_token s of
        Not_flag \<Rightarrow> Ret (F, s # args)
      | Terminator \<Rightarrow> Ret (F, args)
      | Bad_syntax \<Rightarrow> Fatal (Errorf ''bad flag syntax: %s'' [s])
      | Flag_arg name value \<Rightarrow>
          (case F name of
             None \<Rightarrow>
               (if name = ''help'' \<or> name = ''h'' then Fatal (Lib_error ''flag: help requested'')
                else Fatal (Errorf ''flag provided but not defined: -%s'' [name]))
           | Some (Bool_flag b) \<Rightarrow>
               (case value of
                  None \<Rightarrow> flag_parse (F(name \<mapsto> Bool_flag True)) args
                | Some v \<Rightarrow>
                    (case parse_bool_flag v of
                       None \<Rightarrow> Fatal (Errorf ''invalid boolean value %q for -%s'' [v, name])
                     | Some b' \<Rightarrow> flag_parse (F(name \<mapsto> Bool_flag b')) args))
           | Some (Str_flag old) \<Rightarrow>
               (case value of
                  Some v \<Rightarrow> flag_parse (F(name \<mapsto> Str_flag v)) args
                | None \<Rightarrow>
                    (case args of
                       [] \<Rightarrow> Fatal (Errorf ''flag needs an argument: -%s'' [name])
                     | v # args' \<Rightarrow> flag_parse (F(name \<mapsto> Str_flag v)) args'))))"

section \<open>Writing flags\<close>

text \<open>The spellings of a flag: one dash or two, the value after an equals sign or as the next argument.\<close>

datatype flag_style = Joined bool | Apart bool

definition dashes :: "bool \<Rightarrow> string" where
  "dashes two = (if two then [dash, dash] else [dash])"

fun flag_words :: "flag_style \<times> string \<times> flag_value \<Rightarrow> string list" where
  "flag_words (Joined two, name, Str_flag v) = [dashes two @ name @ equals # v]"
| "flag_words (Apart two, name, Str_flag v) = [dashes two @ name, v]"
| "flag_words (Joined two, name, Bool_flag b) = [dashes two @ name @ equals # (if b then ''true'' else ''false'')]"
| "flag_words (Apart two, name, Bool_flag b) = [dashes two @ name @ (if b then [] else equals # ''false'')]"

definition flag_name_ok :: "string \<Rightarrow> bool" where
  "flag_name_ok name \<longleftrightarrow> name \<noteq> [] \<and> hd name \<noteq> dash \<and> equals \<notin> set name"

lemma flag_token_dashes:
  assumes "flag_name_ok name"
  shows "flag_token (dashes two @ name) = Flag_arg name None"
    and "flag_token (dashes two @ name @ equals # v) = Flag_arg name (Some v)"
proof -
  from assms obtain c cs where n: "name = c # cs" "c \<noteq> dash" "c \<noteq> equals" "equals \<notin> set cs"
    by (cases name) (auto simp: flag_name_ok_def)
  have tw: "takeWhile (\<lambda>x. x \<noteq> equals) cs = cs" "dropWhile (\<lambda>x. x \<noteq> equals) cs = []"
    "takeWhile (\<lambda>x. x \<noteq> equals) (cs @ equals # v) = cs" "dropWhile (\<lambda>x. x \<noteq> equals) (cs @ equals # v) = equals # v"
    using n(4) by (induction cs) auto
  then show "flag_token (dashes two @ name) = Flag_arg name None"
    and "flag_token (dashes two @ name @ equals # v) = Flag_arg name (Some v)"
    using n(2,3) by (simp_all add: flag_token_def dashes_def n(1) tw)
qed

lemma flag_token_words [simp]:
  assumes "flag_name_ok name"
  shows "flag_token (dash # name) = Flag_arg name None"
    and "flag_token (dash # name @ equals # v) = Flag_arg name (Some v)"
  using flag_token_dashes [OF assms, of False] by (simp_all add: dashes_def)

definition assigns :: "flag_set \<Rightarrow> (flag_style \<times> string \<times> flag_value) list \<Rightarrow> bool" where
  "assigns F ws \<longleftrightarrow>
     (\<forall>(st, name, v) \<in> set ws. flag_name_ok name \<and> (\<exists>d. F name = Some d \<and> same_kind d v))"

abbreviation assign_flags :: "(flag_style \<times> string \<times> flag_value) list \<Rightarrow> flag_set \<Rightarrow> flag_set" where
  "assign_flags ws \<equiv> fold (\<lambda>(st, name, v) F. F(name \<mapsto> v)) ws"

lemma assigns_upd: "assigns F ws \<Longrightarrow> F name = Some d \<Longrightarrow> same_kind d v \<Longrightarrow> assigns (F(name \<mapsto> v)) ws"
proof -
  assume a: "assigns F ws" and d: "F name = Some d" "same_kind d v"
  have "\<exists>d'. (F(name \<mapsto> v)) n = Some d' \<and> same_kind d' w" if "(st, n, w) \<in> set ws" for st n w
  proof -
    from a that obtain d' where "F n = Some d'" "same_kind d' w" by (auto simp: assigns_def)
    with d show ?thesis by (cases "n = name") (auto intro: same_kind_trans)
  qed
  with a show ?thesis by (fastforce simp: assigns_def)
qed

lemma parse_bool_flag_written:
  "parse_bool_flag ''true'' = Some True" "parse_bool_flag ''false'' = Some False"
  by (simp_all add: parse_bool_flag_def parse_bool_def)

text \<open>Flags that are written in any of the spellings are read back, in order.\<close>

lemma flag_parse_one:
  assumes "flag_name_ok name" and "F name = Some d" and "same_kind d v"
  shows "flag_parse F (flag_words (st, name, v) @ args) = flag_parse (F(name \<mapsto> v)) args"
proof (cases v)
  case (Str_flag x)
  with assms(2,3) obtain y where "F name = Some (Str_flag y)" by (cases d) (simp_all add: same_kind_def)
  with Str_flag show ?thesis by (cases st) (simp_all add: flag_token_dashes [OF assms(1)])
next
  case (Bool_flag b)
  with assms(2,3) obtain y where "F name = Some (Bool_flag y)" by (cases d) (simp_all add: same_kind_def)
  with Bool_flag show ?thesis
    by (cases st; cases b) (simp_all add: flag_token_dashes [OF assms(1)] parse_bool_flag_written)
qed

lemma flag_parse_written:
  "assigns F ws \<Longrightarrow> flag_parse F (concat (map flag_words ws) @ rest) = flag_parse (assign_flags ws F) rest"
proof (induction ws arbitrary: F)
  case (Cons w ws)
  obtain st name v where w: "w = (st, name, v)" by (cases w)
  with Cons.prems obtain d where d: "flag_name_ok name" "F name = Some d" "same_kind d v"
    by (auto simp: assigns_def)
  have "assigns F ws" using Cons.prems by (simp add: assigns_def)
  from Cons.IH [OF assigns_upd [OF this d(2,3)]] show ?case
    by (simp add: w flag_parse_one [where F = F, OF d] del: fun_upd_apply)
qed simp

text \<open>A flag that is not defined is refused, wherever the flags before it are right.\<close>

lemma flag_parse_unknown:
  assumes "assigns F ws" and "flag_token s = Flag_arg name v" and "F name = None"
  shows "\<exists>e. flag_parse F (concat (map flag_words ws) @ s # args) = Fatal e"
proof -
  have "assign_flags ws F name = None"
    using assms(1,3)
  proof (induction ws arbitrary: F)
    case (Cons w ws)
    obtain st n x where w: "w = (st, n, x)" by (cases w)
    with Cons.prems obtain d where d: "F n = Some d" "same_kind d x" by (auto simp: assigns_def)
    have "assigns F ws" using Cons.prems(1) by (simp add: assigns_def)
    have "n \<noteq> name" using d(1) Cons.prems(2) by auto
    with Cons.prems(2) have "(F(n \<mapsto> x)) name = None" by simp
    from Cons.IH [OF assigns_upd [OF \<open>assigns F ws\<close> d] this] show ?case by (simp add: w del: fun_upd_apply)
  qed simp
  then show ?thesis using assms(2) by (simp add: flag_parse_written [OF assms(1)])
qed

text \<open>Parsing never panics.\<close>

lemma flag_parse_no_panic: "flag_parse F args \<noteq> Panic e \<and> flag_parse F args \<noteq> Blocked"
proof (induction F args rule: flag_parse.induct)
  case (2 F s args)
  show ?case
  proof (cases "flag_token s")
    case (Flag_arg name v)
    show ?thesis
    proof (cases "F name")
      case (Some d)
      show ?thesis
      proof (cases d)
        case (Str_flag x)
        show ?thesis
        proof (cases v)
          case None
          with 2 Flag_arg Some Str_flag show ?thesis by (cases args) (simp_all del: fun_upd_apply flag_parse.simps add: flag_parse.simps(2) [of F])
        qed (use 2 Flag_arg Some Str_flag in \<open>simp del: fun_upd_apply\<close>)
      next
        case (Bool_flag b)
        show ?thesis
        proof (cases v)
          case (Some w)
          with 2 Flag_arg \<open>F name = Some d\<close> Bool_flag show ?thesis by (cases "parse_bool_flag w") (simp_all del: fun_upd_apply)
        qed (use 2 Flag_arg \<open>F name = Some d\<close> Bool_flag in \<open>simp del: fun_upd_apply\<close>)
      qed
    qed (use Flag_arg in simp)
  qed simp_all
qed simp

end
