(* ===== verification/Start_Stop.thy ===== *)
theory Start_Stop
  imports Instances Server_Process
begin

text \<open>
  What starts and stops the programs, where it is not part of the theories before: the copies of the
  kvstore sessions in diskstorage, the \<open>main\<close> of the chat server with its join listeners and what its
  forwarders do after \<open>Shutdown\<close>, and the snapshots that are none.
\<close>

section \<open>diskstorage\<close>

definition disk_newSession :: "string \<Rightarrow> bytes \<Rightarrow> stream_end \<Rightarrow> conn_session" where
  "disk_newSession = newSession"

definition disk_session_disconnect :: "conn_session \<Rightarrow> conn_session" where
  "disk_session_disconnect = session_disconnect"

definition disk_process_step ::
  "pb_codec \<Rightarrow> nat \<Rightarrow> disk_store process \<Rightarrow> sv_event option \<Rightarrow> disk_store process \<Rightarrow> bool" where
  "disk_process_step P limit = process_step (disk_propose_at P limit) disk_exit"

definition disk_isLeader :: "kube_env \<Rightarrow> bool" where "disk_isLeader = is_leader"

text \<open>\<open>Snapshot\<close> of diskstorage, logger and chat server: no state, or no snapshot at all.\<close>

definition disk_snapshot :: "disk_store \<Rightarrow> bytes \<times> go_error option" where
  "disk_snapshot s = ([], None)"

definition logger_snapshot :: "logger \<Rightarrow> bytes option \<times> go_error option" where
  "logger_snapshot lg = (None, None)"

definition chat_snapshot :: "chat_server \<Rightarrow> bytes option \<times> go_error option" where
  "chat_snapshot s = (None, None)"

definition chat_restore :: "chat_server \<Rightarrow> bytes \<Rightarrow> chat_server \<times> go_error option" where
  "chat_restore s rc = (s, None)"

lemma disk_process_refines:
  assumes "observed (disk_process_step P limit) (process_init st fd) evs p"
  shows "\<exists>sv. server_run (disk_propose P limit) (newServer st fd) evs sv \<and> process_related p sv"
proof -
  have "process_related (process_init st fd) (newServer st fd)"
    by (simp add: process_related_def process_init_def newServer_def)
  from disk_process.simulates [OF assms [unfolded disk_process_step_def] this]
  show ?thesis by (simp add: disk_propose_at_open)
qed

section \<open>The chat server's program\<close>

record chat_flags =
  cf_svrID :: string
  cf_svrPort :: string
  cf_raftAddr :: string
  cf_joinHandlerAddr :: string
  cf_joinAddr :: string

text \<open>
  \<open>net.Listen\<close> on an address, given those bound before it. \<open>NewServer\<close> listens for join requests where
  the flag says, and \<open>NewServerListenRJ\<close> on its argument too; the result is what is bound.
\<close>

definition bind_addr :: "(string list \<Rightarrow> string \<Rightarrow> go_error option) \<Rightarrow> string list \<Rightarrow> string \<Rightarrow> string list outcome" where
  "bind_addr listen bound addr =
     (case listen bound addr of
        Some e \<Rightarrow> Fatal (Errorf ''failed to bind connection at %s: %s'' [addr])
      | None \<Rightarrow> Ret (bound @ [addr]))"

definition chat_newServer :: "(string list \<Rightarrow> string \<Rightarrow> go_error option) \<Rightarrow> string \<Rightarrow> (chat_server \<times> string list) outcome" where
  "chat_newServer listen joinHandlerAddr =
     (if joinHandlerAddr \<noteq> [] then
        outcome_bind (bind_addr listen [] joinHandlerAddr) (\<lambda>bound. Ret (newChatServer, bound))
      else Ret (newChatServer, []))"

definition newServerListenRJ :: "(string list \<Rightarrow> string \<Rightarrow> go_error option) \<Rightarrow> string \<Rightarrow> string
    \<Rightarrow> (chat_server \<times> string list) outcome" where
  "newServerListenRJ listen joinHandlerAddr addr =
     outcome_bind (chat_newServer listen joinHandlerAddr) (\<lambda>(svr, bound).
     outcome_bind (bind_addr listen bound addr) (\<lambda>bound'. Ret (svr, bound')))"

text \<open>
  \<open>main\<close> up to the accept loop: the server, the configuration it bootstraps and the request it sends;
  the error of closing the connection is dropped.
\<close>

definition chat_server_main :: "(string list \<Rightarrow> string \<Rightarrow> go_error option) \<Rightarrow> raft_lib \<Rightarrow> join_conn \<Rightarrow> chat_flags
    \<Rightarrow> (chat_server \<times> raft_server list \<times> string) outcome" where
  "chat_server_main listen L N fl =
     (if cf_svrID fl = [] then Fatal (Errorf ''must set a server ID, run with: ./server -id'' [])
      else outcome_bind (chat_newServer listen (cf_joinHandlerAddr fl)) (\<lambda>(svr, bound).
        case listen bound (cf_svrPort fl) of
          Some e \<Rightarrow> Fatal (Errorf ''failed to start connection: %s'' [])
        | None \<Rightarrow>
       (case chat_startRaft L (cf_joinAddr fl = []) (cf_svrID fl) (cf_raftAddr fl) of
          Inl e \<Rightarrow> Fatal (Errorf ''failed to start raft cluster: %s'' [])
        | Inr bootstrapped \<Rightarrow>
            (if cf_joinAddr fl \<noteq> [] then
               (case jc_dial N of
                  Some e \<Rightarrow> Fatal (Errorf ''failed to connect to leader node at %s: %s'' [cf_joinAddr fl])
                | None \<Rightarrow>
               (case jc_write N of
                  Some e \<Rightarrow> Fatal (Errorf ''failed to send join request to node at %s: %s'' [cf_joinAddr fl])
                | None \<Rightarrow> Ret (svr, bootstrapped, join_request (cf_svrID fl) (cf_raftAddr fl))))
             else Ret (svr, bootstrapped, [])))))"

text \<open>
  A node of the chat started with \<open>-join\<close> bootstraps nothing, and when the node it asks has served its
  request it is a voting member there, whatever closing the connection returned.
\<close>

lemma chat_node_joins:
  assumes "chat_server_main listen L N fl = Ret (svr, bootstrapped, sent)" and "cf_joinAddr fl \<noteq> []"
    and "dash \<notin> set (cf_svrID fl)" "dash \<notin> set (cf_raftAddr fl)"
    and "api_laws A cfg" "api_readable A cfg" "cfg_wf (cfg r)"
    and "chat_listenRaftJoins A [sent] r = (r', Ret ())"
  shows "bootstrapped = [] \<and> member_of (cf_svrID fl) (cf_raftAddr fl) (cfg r')"
proof -
  have b: "bootstrapped = []" and s: "sent = join_request (cf_svrID fl) (cf_raftAddr fl)"
    using assms(1,2)
    by (auto simp: chat_server_main_def chat_startRaft_def startRaft_def split: if_splits option.splits sum.splits)
  have "parse_join_request sent = Ret (cf_svrID fl, cf_raftAddr fl, True)"
    using parse_request_of [of "\<lparr>srv_id = cf_svrID fl, srv_addr = cf_raftAddr fl, srv_voter = True\<rparr>"] assms(3,4)
    by (simp add: s request_of_def)
  then have "joinRaft A (cf_svrID fl) (cf_raftAddr fl) True r = (r', None)"
    using assms(8) by (auto simp: chat_listenRaftJoins_def handle_join_def split: prod.splits option.splits)
  from joinRaft_result [OF assms(5-7) this] b show ?thesis by blast
qed

text \<open>Listening for join requests where the flag says already, as a test may do, ends the process.\<close>

lemma listen_twice_fatal:
  assumes "listen [] addr = None" and "listen [addr] addr = Some e" and "addr \<noteq> []"
  shows "\<exists>e. newServerListenRJ listen addr addr = Fatal e"
  using assms by (simp add: newServerListenRJ_def chat_newServer_def bind_addr_def)

section \<open>The chat server's forwarders\<close>

text \<open>
  One turn of the goroutine that \<open>Join\<close> starts for client \<open>i\<close>: from a closed channel it receives the empty
  string at once; \<open>line\<close> is what an open one delivers. \<open>stopped\<close> says that \<open>Shutdown\<close> has closed
  \<open>svr.incoming\<close>; else \<open>Listen\<close> takes the value.
\<close>

definition chat_forward :: "bool \<Rightarrow> bool \<Rightarrow> chat_server \<Rightarrow> nat \<Rightarrow> string \<Rightarrow> chat_server \<times> unit outcome" where
  "chat_forward stopped leader s i line =
     (let v = (if ch_closed (cs_clients s ! i) then [] else line)
      in if stopped then (s, Panic (Lib_error ''send on closed channel'')) else (chat_receive leader s v, Ret ()))"

lemma disconnect_all_closes:
  "disconnect_all cs = (cs', Ret u) \<Longrightarrow> length cs' = length cs \<and> (\<forall>c \<in> set cs'. ch_closed c)"
  by (induction cs arbitrary: cs') (auto split: if_splits prod.splits)

text \<open>
  While \<open>Shutdown\<close> runs, a leader with a client proposes an empty message at every turn of the client's
  forwarder; when it has closed the channel, the next turn panics.
\<close>

lemma chat_forward_after_shutdown:
  assumes "chat_shutdown s = (s', Ret u)" and "i < length (cs_clients s)"
  shows "cs_proposed (fst (chat_forward False True s' i line)) = cs_proposed s @ [[]]"
    and "\<exists>e. snd (chat_forward True leader s' i line) = Panic e"
proof -
  obtain cs r where d: "disconnect_all (cs_clients s) = (cs, r)" by fastforce
  with assms(1) have s': "s' = s\<lparr>cs_clients := cs\<rparr>" "r = Ret u" by (simp_all add: chat_shutdown_def)
  have "length cs = length (cs_clients s)" "\<forall>c \<in> set cs. ch_closed c"
    using disconnect_all_closes d s'(2) by blast+
  then have "ch_closed (cs ! i)" using assms(2) by simp
  then show "cs_proposed (fst (chat_forward False True s' i line)) = cs_proposed s @ [[]]"
    and "\<exists>e. snd (chat_forward True leader s' i line) = Panic e"
    by (simp_all add: chat_forward_def s'(1) chat_receive_def)
qed

end
