(* ===== verification/Logger_Main.thy ===== *)
theory Logger_Main
  imports Instances "HOL-Library.Multiset"
begin

text \<open>
  The logger's \<open>init\<close> and \<open>main\<close> on Kubernetes: the environment, the search of every leader, the
  names it draws, and one goroutine per leader that makes a logger, starts Raft and asks that leader to
  be taken in. The goroutines run in any order of their steps; an interrupt may arrive at any moment.
\<close>

section \<open>Start-up\<close>

record logger_env =
  le_podIP :: string
  le_podName :: string
  le_podNamespace :: string

definition logger_loadEnvVariables :: "(string \<rightharpoonup> string) \<Rightarrow> logger_env outcome" where
  "logger_loadEnvVariables env =
     (case env ''MY_POD_IP'' of
        None \<Rightarrow> Fatal (Errorf ''could not load environment variable MY_POD_IP'' [])
      | Some ip \<Rightarrow>
     (case env ''MY_POD_NAME'' of
        None \<Rightarrow> Fatal (Errorf ''could not load environment variable MY_POD_NAME'' [])
      | Some name \<Rightarrow>
     (case env ''MY_POD_NAMESPACE'' of
        None \<Rightarrow> Fatal (Errorf ''could not load environment variable MY_POD_NAMESPACE'' [])
      | Some ns \<Rightarrow> Ret \<lparr>le_podIP = ip, le_podName = name, le_podNamespace = ns\<rparr>)))"

text \<open>\<open>init\<close> with \<open>staticIPs\<close> false; \<open>baseRand\<close> is the number it draws.\<close>

definition logger_init :: "(string \<rightharpoonup> string) \<Rightarrow> go_error + pod list \<Rightarrow> nat \<Rightarrow> logger_config outcome" where
  "logger_init env pods baseRand =
     outcome_bind (logger_loadEnvVariables env) (\<lambda>e.
     outcome_bind (logger_requestKubeConfig pods) (\<lambda>r.
       case r of
         Inl err \<Rightarrow> Fatal (Errorf ''failed to retrieve Kubernetes config, err:'' [])
       | Inr joinAddrs \<Rightarrow>
           Ret \<lparr>lc_logIDs = logger_ids baseRand joinAddrs,
                lc_raftAddrs = logger_raft_addrs (le_podIP e) joinAddrs,
                lc_joinAddrs = joinAddrs, lc_numApps = length joinAddrs\<rparr>))"

definition logger_sendJoinRequest :: "join_conn \<Rightarrow> string \<Rightarrow> string \<Rightarrow> string \<times> go_error option" where
  "logger_sendJoinRequest N logID raftAddr =
     (case jc_dial N of
        Some e \<Rightarrow> ([], Some e)
      | None \<Rightarrow>
     (case jc_write N of
        Some e \<Rightarrow> ([], Some e)
      | None \<Rightarrow> (logger_join_request logID raftAddr, jc_close N)))"

section \<open>The goroutines\<close>

text \<open>
  \<open>loggerInstances\<close>, how far each goroutine is (0: not run, 1: the logger is made, 2: Raft runs,
  3: the request is sent), and the requests sent, each with the address it went to.
\<close>

record logger_proc =
  lp_instances :: "logger option list"
  lp_pc :: "nat \<Rightarrow> nat"
  lp_sent :: "(string \<times> string) list"

definition logger_proc_init :: "logger_config \<Rightarrow> logger_proc" where
  "logger_proc_init c = \<lparr>lp_instances = replicate (lc_numApps c) None, lp_pc = (\<lambda>_. 0), lp_sent = []\<rparr>"

definition logger_goroutine :: "(string \<Rightarrow> logger outcome) \<Rightarrow> raft_lib \<Rightarrow> (string \<Rightarrow> join_conn)
    \<Rightarrow> logger_config \<Rightarrow> nat \<Rightarrow> logger_proc \<Rightarrow> logger_proc outcome" where
  "logger_goroutine new L N c j p =
     outcome_bind (go_index (lc_logIDs c) j) (\<lambda>logID.
       if lp_pc p j = 0 then
         outcome_bind (new logID) (\<lambda>lg.
         outcome_bind (go_index (lp_instances p) j) (\<lambda>_.
           Ret (p\<lparr>lp_instances := (lp_instances p)[j := Some lg], lp_pc := (lp_pc p)(j := 1)\<rparr>)))
       else outcome_bind (go_index (lc_raftAddrs c) j) (\<lambda>raftAddr.
         if lp_pc p j = 1 then
           (case logger_startRaft L logID raftAddr of
              Inl e \<Rightarrow> Fatal (Errorf ''failed to start raft cluster: %s'' [])
            | Inr _ \<Rightarrow> Ret (p\<lparr>lp_pc := (lp_pc p)(j := 2)\<rparr>))
         else if lp_pc p j = 2 then
           outcome_bind (go_index (lc_joinAddrs c) j) (\<lambda>joinAddr.
             case logger_sendJoinRequest (N joinAddr) logID raftAddr of
               (sent, Some e) \<Rightarrow> Fatal (Errorf ''failed to send join request to node at %s: %s'' [joinAddr])
             | (sent, None) \<Rightarrow>
                 Ret (p\<lparr>lp_pc := (lp_pc p)(j := 3), lp_sent := lp_sent p @ [(joinAddr, sent)]\<rparr>))
         else Ret p))"

text \<open>A schedule: which goroutine makes its next step, up to the interrupt.\<close>

fun logger_schedule :: "(string \<Rightarrow> logger outcome) \<Rightarrow> raft_lib \<Rightarrow> (string \<Rightarrow> join_conn)
    \<Rightarrow> logger_config \<Rightarrow> nat list \<Rightarrow> logger_proc \<Rightarrow> logger_proc outcome" where
  "logger_schedule new L N c [] p = Ret p"
| "logger_schedule new L N c (j # js) p =
     outcome_bind (logger_goroutine new L N c j p) (logger_schedule new L N c js)"

text \<open>After the interrupt \<open>l.cancel()\<close> and \<open>l.LogFile.Close()\<close> on every entry, made or not.\<close>

fun logger_close_all :: "logger option list \<Rightarrow> unit outcome" where
  "logger_close_all [] = Ret ()"
| "logger_close_all (None # ls) = Panic (Lib_error ''nil pointer dereference'')"
| "logger_close_all (Some lg # ls) = logger_close_all ls"

definition logger_main :: "(string \<Rightarrow> logger outcome) \<Rightarrow> raft_lib \<Rightarrow> (string \<Rightarrow> join_conn)
    \<Rightarrow> logger_config \<Rightarrow> nat list \<Rightarrow> (string \<times> string) list outcome" where
  "logger_main new L N c js =
     outcome_bind (logger_schedule new L N c js (logger_proc_init c)) (\<lambda>p.
     outcome_bind (logger_close_all (lp_instances p)) (\<lambda>_. Ret (lp_sent p)))"

section \<open>What the goroutines have done\<close>

definition logger_request :: "logger_config \<Rightarrow> nat \<Rightarrow> string \<times> string" where
  "logger_request c j = (lc_joinAddrs c ! j, logger_join_request (lc_logIDs c ! j) (lc_raftAddrs c ! j))"

definition logger_config_ok :: "logger_config \<Rightarrow> bool" where
  "logger_config_ok c \<longleftrightarrow> length (lc_logIDs c) = lc_numApps c \<and> length (lc_raftAddrs c) = lc_numApps c \<and>
     length (lc_joinAddrs c) = lc_numApps c"

definition logger_proc_inv :: "logger_config \<Rightarrow> logger_proc \<Rightarrow> bool" where
  "logger_proc_inv c p \<longleftrightarrow> length (lp_instances p) = lc_numApps c \<and>
     (\<forall>j < lc_numApps c. lp_instances p ! j = None \<longleftrightarrow> lp_pc p j = 0) \<and>
     mset (lp_sent p) = image_mset (logger_request c) (mset (filter (\<lambda>j. lp_pc p j = 3) [0..<lc_numApps c]))"

lemma logger_init_Ret:
  assumes "logger_init env pods n = Ret c"
  obtains ip joins where "env ''MY_POD_IP'' = Some ip" "logger_requestKubeConfig pods = Ret (Inr joins)"
    "lc_logIDs c = logger_ids n joins" "lc_raftAddrs c = logger_raft_addrs ip joins"
    "lc_joinAddrs c = joins" "lc_numApps c = length joins"
proof -
  obtain e r where e: "logger_loadEnvVariables env = Ret e" and r: "logger_requestKubeConfig pods = Ret r"
    using assms by (auto simp: logger_init_def)
  have "env ''MY_POD_IP'' = Some (le_podIP e)"
    using e by (auto simp: logger_loadEnvVariables_def split: option.splits)
  with that assms e r show thesis by (cases r) (auto simp: logger_init_def)
qed

lemma logger_init_ok: "logger_init env pods n = Ret c \<Longrightarrow> logger_config_ok c"
  by (erule logger_init_Ret) (simp add: logger_config_ok_def logger_ids_def logger_raft_addrs_def)

lemma logger_proc_init_inv: "logger_proc_inv c (logger_proc_init c)"
  by (simp add: logger_proc_inv_def logger_proc_init_def)

lemma filter_upd_mset:
  assumes "j < n" and "f j \<noteq> v"
  shows "mset (filter (\<lambda>i. (f(j := v)) i = v) [0..<n]) = add_mset j (mset (filter (\<lambda>i. f i = v) [0..<n]))"
proof -
  have "[0..<n] = [0..<j] @ j # [Suc j..<n]"
    using upt_add_eq_append [of 0 j "n - j"] assms(1) by (simp add: upt_conv_Cons)
  moreover have "filter (\<lambda>i. (f(j := v)) i = v) [0..<j] = filter (\<lambda>i. f i = v) [0..<j]"
    and "filter (\<lambda>i. (f(j := v)) i = v) [Suc j..<n] = filter (\<lambda>i. f i = v) [Suc j..<n]"
    by (auto intro!: filter_cong)
  ultimately show ?thesis using assms(2) by simp
qed


lemma logger_goroutine_inv:
  assumes ok: "logger_config_ok c" and inv: "logger_proc_inv c p"
    and st: "logger_goroutine new L N c j p = Ret p'"
  shows "logger_proc_inv c p'"
proof -
  have l: "length (lc_logIDs c) = lc_numApps c" "length (lc_raftAddrs c) = lc_numApps c"
    "length (lc_joinAddrs c) = lc_numApps c" "length (lp_instances p) = lc_numApps c"
    using ok inv by (simp_all add: logger_config_ok_def logger_proc_inv_def)
  have j: "j < lc_numApps c"
    using st l(1) by (auto simp: logger_goroutine_def go_index_def split: if_splits)
  consider (new) lg where "lp_pc p j = 0"
      "p' = p\<lparr>lp_instances := (lp_instances p)[j := Some lg], lp_pc := (lp_pc p)(j := 1)\<rparr>"
    | (raft) "lp_pc p j = 1" "p' = p\<lparr>lp_pc := (lp_pc p)(j := 2)\<rparr>"
    | (join) "lp_pc p j = 2"
      "p' = p\<lparr>lp_pc := (lp_pc p)(j := 3), lp_sent := lp_sent p @ [logger_request c j]\<rparr>"
    | (finished) "p' = p"
    using st j l
    by (auto simp: logger_goroutine_def logger_sendJoinRequest_def logger_request_def
        split: if_splits sum.splits option.splits)
  then show ?thesis
  proof cases
    case new
    then have "filter (\<lambda>i. ((lp_pc p)(j := 1)) i = 3) [0..<lc_numApps c] = filter (\<lambda>i. lp_pc p i = 3) [0..<lc_numApps c]"
      by (intro filter_cong) auto
    with new inv j show ?thesis by (auto simp: logger_proc_inv_def nth_list_update)
  next
    case raft
    then have "filter (\<lambda>i. ((lp_pc p)(j := 2)) i = 3) [0..<lc_numApps c] = filter (\<lambda>i. lp_pc p i = 3) [0..<lc_numApps c]"
      by (intro filter_cong) auto
    with raft inv j show ?thesis by (auto simp: logger_proc_inv_def)
  next
    case join
    with filter_upd_mset [OF j, of "lp_pc p" 3] inv show ?thesis by (auto simp: logger_proc_inv_def)
  qed (use inv in simp)
qed

lemma logger_schedule_inv:
  assumes "logger_config_ok c"
  shows "logger_proc_inv c p \<Longrightarrow> logger_schedule new L N c js p = Ret p' \<Longrightarrow> logger_proc_inv c p'"
proof (induction js arbitrary: p)
  case (Cons j js)
  then obtain q where "logger_goroutine new L N c j p = Ret q" "logger_schedule new L N c js q = Ret p'" by auto
  with Cons.IH Cons.prems(1) logger_goroutine_inv [OF assms] show ?case by blast
qed simp

lemma logger_close_all_ret: "logger_close_all ls = Ret u \<longleftrightarrow> None \<notin> set ls"
  by (induction ls rule: logger_close_all.induct) auto

lemma logger_close_all_panic: "None \<in> set ls \<Longrightarrow> \<exists>e. logger_close_all ls = Panic e"
  by (induction ls rule: logger_close_all.induct) auto

section \<open>Properties\<close>

text \<open>C25: however the goroutines of a logger are interleaved and whenever the interrupt arrives, the
  requests sent by then are those of the goroutines that have come to their end, each of them one
  request, with its own identifier and address, to its own leader; and \<open>main\<close> returns exactly when
  every goroutine had made its logger, and panics when one had not.\<close>

theorem logger_main_requests:
  assumes "logger_init env pods n = Ret c"
    and "logger_schedule new L N c js (logger_proc_init c) = Ret p"
  shows "mset (lp_sent p) = image_mset (logger_request c) (mset (filter (\<lambda>j. lp_pc p j = 3) [0..<lc_numApps c])) \<and>
    (if \<forall>j < lc_numApps c. 0 < lp_pc p j then logger_main new L N c js = Ret (lp_sent p)
     else \<exists>e. logger_main new L N c js = Panic e)"
proof -
  have inv: "logger_proc_inv c p"
    by (rule logger_schedule_inv [OF logger_init_ok [OF assms(1)] logger_proc_init_inv assms(2)])
  have "None \<in> set (lp_instances p) \<longleftrightarrow> (\<exists>j < lc_numApps c. lp_instances p ! j = None)"
    using inv by (auto simp: logger_proc_inv_def in_set_conv_nth)
  also have "\<dots> \<longleftrightarrow> \<not> (\<forall>j < lc_numApps c. 0 < lp_pc p j)"
    using inv by (auto simp: logger_proc_inv_def)
  finally have n: "None \<in> set (lp_instances p) \<longleftrightarrow> \<not> (\<forall>j < lc_numApps c. 0 < lp_pc p j)" .
  have main: "logger_main new L N c js = outcome_bind (logger_close_all (lp_instances p)) (\<lambda>_. Ret (lp_sent p))"
    by (simp add: logger_main_def assms(2))
  have "if \<forall>j < lc_numApps c. 0 < lp_pc p j then logger_main new L N c js = Ret (lp_sent p)
      else \<exists>e. logger_main new L N c js = Panic e"
  proof (cases "\<forall>j < lc_numApps c. 0 < lp_pc p j")
    case True
    with n have "None \<notin> set (lp_instances p)" by blast
    then have "logger_close_all (lp_instances p) = Ret ()" by (simp add: logger_close_all_ret)
    with True show ?thesis by (simp add: main)
  next
    case False
    with n obtain e where "logger_close_all (lp_instances p) = Panic e" using logger_close_all_panic by blast
    with False show ?thesis by (simp add: main)
  qed
  with inv show ?thesis by (simp only: logger_proc_inv_def)
qed

definition demo_logger_pods :: "pod list" where
  "demo_logger_pods = [\<lparr>pod_containers = [''kv''], pod_ip = ''10.0.0.2''\<rparr>,
                       \<lparr>pod_containers = [''leader''], pod_ip = ''10.0.0.1''\<rparr>]"

definition demo_logger_env :: "string \<Rightarrow> string \<rightharpoonup> string" where
  "demo_logger_env ip = (demo_env_of ''logger'')(''MY_POD_IP'' \<mapsto> ip)"

definition demo_logger_config :: "string \<Rightarrow> int \<Rightarrow> logger_config" where
  "demo_logger_config ip n = \<lparr>lc_logIDs = [''log'' @ itoa n], lc_raftAddrs = [ip @ colon # itoa 12000],
                              lc_joinAddrs = [''10.0.0.1:13000''], lc_numApps = 1\<rparr>"

lemma demo_logger_init:
  "logger_init (demo_logger_env ip) (Inr demo_logger_pods) n = Ret (demo_logger_config ip (int n))"
proof -
  have l: "\<not> contains_str ''kv'' ''leader''" "contains_str ''leader'' ''leader''" by (simp_all add: prefix_def)
  show ?thesis
    using l by (simp add: logger_init_def logger_loadEnvVariables_def demo_logger_env_def demo_env_of_def logger_requestKubeConfig_def
        demo_logger_pods_def demo_logger_config_def container_name_ready logger_ids_def logger_raft_addrs_def)
qed

definition demo_new_logger :: "string \<Rightarrow> logger outcome" where
  "demo_new_logger i = newLogger ''/tmp/'' i Stat_not_exist True Stat_not_exist True"

abbreviation demo_logger_conn :: "string \<Rightarrow> join_conn" where
  "demo_logger_conn a \<equiv> \<lparr>jc_dial = None, jc_write = None, jc_close = None\<rparr>"

lemma logger_main_requests_witness:
  "let c = demo_logger_config ''10.0.0.5'' 7 in
     (\<exists>e. logger_main demo_new_logger demo_raft_lib demo_logger_conn c [] = Panic e) \<and>
     logger_main demo_new_logger demo_raft_lib demo_logger_conn c [0, 0, 0] =
       Ret [(''10.0.0.1:13000'', logger_join_request (''log'' @ itoa 7) (''10.0.0.5:'' @ itoa 12000))]"
proof -
  let ?c = "demo_logger_config ''10.0.0.5'' 7"
  have i: "logger_init (demo_logger_env ''10.0.0.5'') (Inr demo_logger_pods) 7 = Ret ?c"
    using demo_logger_init [of _ 7] by simp
  have "\<exists>e. logger_main demo_new_logger demo_raft_lib demo_logger_conn ?c [] = Panic e"
    using logger_main_requests [OF i, of demo_new_logger demo_raft_lib demo_logger_conn "[]"]
    by (simp add: demo_logger_config_def logger_proc_init_def)
  moreover have "\<exists>p. logger_schedule demo_new_logger demo_raft_lib demo_logger_conn ?c [0, 0, 0]
       (logger_proc_init ?c) = Ret p \<and> lp_pc p 0 = 3"
    by (simp add: logger_goroutine_def demo_logger_config_def logger_proc_init_def demo_new_logger_def
        newLogger_def createFile_def logger_startRaft_def startRaft_def demo_raft_lib_def
        logger_sendJoinRequest_def)
  then obtain p where p: "logger_schedule demo_new_logger demo_raft_lib demo_logger_conn ?c [0, 0, 0]
       (logger_proc_init ?c) = Ret p" "lp_pc p 0 = 3" by blast
  have "logger_request ?c 0 = (''10.0.0.1:13000'', logger_join_request (''log'' @ itoa 7) (''10.0.0.5:'' @ itoa 12000))"
    by (simp add: logger_request_def demo_logger_config_def)
  then have "lp_sent p = [(''10.0.0.1:13000'', logger_join_request (''log'' @ itoa 7) (''10.0.0.5:'' @ itoa 12000))]"
    "logger_main demo_new_logger demo_raft_lib demo_logger_conn ?c [0, 0, 0] = Ret (lp_sent p)"
    using logger_main_requests [OF i p(1)] p(2) by (simp_all add: demo_logger_config_def del: append.simps)
  ultimately show ?thesis by (simp only: Let_def)
qed

text \<open>The names of an instance have no dash when the pod's address has none.\<close>

lemma logger_names:
  assumes "logger_init env pods n = Ret c" and "env ''MY_POD_IP'' = Some ip" and "j < lc_numApps c"
  shows "lc_logIDs c ! j = ''log'' @ itoa (int (n + j))" and "lc_raftAddrs c ! j = ip @ colon # itoa (12000 + int j)"
  using assms by (auto elim!: logger_init_Ret simp: logger_ids_def logger_raft_addrs_def)

lemma logger_join_served:
  assumes "logger_init env pods n = Ret c" and "env ''MY_POD_IP'' = Some ip" and "dash \<notin> set ip"
    and "j < lc_numApps c"
  shows "parse_join_request (snd (logger_request c j)) = Ret (lc_logIDs c ! j, lc_raftAddrs c ! j, False)"
  using parse_request_of [of "\<lparr>srv_id = lc_logIDs c ! j, srv_addr = lc_raftAddrs c ! j, srv_voter = False\<rparr>"]
    assms(3) itoa_no_dash
  by (simp add: logger_request_def request_of_def logger_names [OF assms(1,2,4)])

text \<open>Two logger pods that found the same leaders: when a leader has served the request of one and
  then of the other, the second is a member of its cluster, and the first still is exactly when the two
  drew different numbers. With the same number the second takes the identifier of the first, whose
  place in the cluster it removes.\<close>

lemma logger_pods_coexist:
  assumes "logger_init enva pods a = Ret c" and "logger_init envb pods b = Ret d"
    and "enva ''MY_POD_IP'' = Some ip" "envb ''MY_POD_IP'' = Some iq" "ip \<noteq> iq" "dash \<notin> set ip" "dash \<notin> set iq"
    and "a < 10000" "b < 10000" and "j < lc_numApps c" "lc_numApps c < 2 ^ 61"
    and "api_laws A cfg" "api_readable A cfg" "cfg_wf (cfg r)"
    and "listen_joins A [snd (logger_request c j), snd (logger_request d j)] r = (r', Ret ())"
  shows "member_of (lc_logIDs d ! j) (lc_raftAddrs d ! j) (cfg r') \<and>
    (member_of (lc_logIDs c ! j) (lc_raftAddrs c ! j) (cfg r') \<longleftrightarrow> a \<noteq> b)"
proof -
  have nd: "j < lc_numApps d" using assms(1,2,10) by (auto elim!: logger_init_Ret)
  note n = logger_names [OF assms(1,3,10)] logger_names [OF assms(2,4) nd]
  obtain q where q: "joinRaft A (lc_logIDs c ! j) (lc_raftAddrs c ! j) False r = (q, None)"
    and q': "joinRaft A (lc_logIDs d ! j) (lc_raftAddrs d ! j) False q = (r', None)"
    using assms(15) logger_join_served [OF assms(1,3,6,10)] logger_join_served [OF assms(2,4,7) nd]
    by (auto simp: handle_join_def split: prod.splits option.splits)
  note m = joinRaft_result [OF assms(12-14) q]
  then have wf: "cfg_wf (cfg q)" by blast
  note m' = joinRaft_result [OF assms(12,13) wf q']
  have addr: "lc_raftAddrs c ! j \<noteq> lc_raftAddrs d ! j" using assms(5) by (simp add: n)
  have id: "lc_logIDs c ! j = lc_logIDs d ! j \<longleftrightarrow> a = b"
    unfolding n using log_id_inject [of "a + j" "b + j"] assms(8-11) by simp
  show ?thesis
  proof (cases "a = b")
    case True
    have "\<not> member_of (lc_logIDs c ! j) (lc_raftAddrs c ! j) (cfg r')"
    proof
      assume "member_of (lc_logIDs c ! j) (lc_raftAddrs c ! j) (cfg r')"
      then obtain s t where "s \<in> set (cfg r')" "srv_id s = lc_logIDs c ! j" "srv_addr s = lc_raftAddrs c ! j"
        "t \<in> set (cfg r')" "srv_id t = lc_logIDs d ! j" "srv_addr t = lc_raftAddrs d ! j"
        using m' unfolding member_of_def by blast
      with cfg_wf_id [of "cfg r'" s t] m' id True addr show False by metis
    qed
    with m' True show ?thesis by blast
  next
    case False
    with id have ne: "lc_logIDs c ! j \<noteq> lc_logIDs d ! j" by simp
    have "member_of (lc_logIDs c ! j) (lc_raftAddrs c ! j) (cfg q)" using m by blast
    with member_of_others [OF ne addr, of "cfg q"]
    have "member_of (lc_logIDs c ! j) (lc_raftAddrs c ! j) (others (lc_logIDs d ! j) (lc_raftAddrs d ! j) (cfg q))"
      by blast
    then have "member_of (lc_logIDs c ! j) (lc_raftAddrs c ! j) (cfg r')"
      using m m' by (metis member_of_append)
    with m' False show ?thesis by blast
  qed
qed

lemma joinRaft_list_api: "\<exists>r'. joinRaft list_api i a v r = (r', None)"
proof -
  have "join_loop list_api i a reps q = (q', Join_return e) \<Longrightarrow> e = None" for reps q q' e
    by (induction reps arbitrary: q) (auto simp: list_api_def split: if_splits)
  then show ?thesis
    by (auto simp: joinRaft_def list_api_def split: prod.split join_step.split)
qed

end
