(* ===== verification/Programs.thy ===== *)
theory Programs
  imports Command_Line Start_Stop Logger_Main Client_Main Web_Main State_Transfer
begin

text \<open>
  The programs from their command lines: \<open>init\<close> and \<open>main\<close> of kvstore and diskstorage with both values of
  the constant \<open>staticIPs\<close>, their profiles and their end; \<open>init\<close> of the logger; the flags of the chat, of
  webkvstore, of the clients and of the recovery.
\<close>

section \<open>kvstore and diskstorage: init\<close>

text \<open>The package's variables after \<open>init\<close>; identifier, addresses and join addresses as \<open>Kube\<close> has them.\<close>

record replica_globals =
  rg_config :: replica_config
  rg_recovHandlerAddr :: string
  rg_cpuprofile :: string
  rg_memprofile :: string
  rg_logfolder :: string

definition kv_staticIPs :: bool where "kv_staticIPs = False"

definition kv_flags :: flag_set where
  "kv_flags = [''cpuprofile'' \<mapsto> Str_flag [], ''memprofile'' \<mapsto> Str_flag [], ''logfolder'' \<mapsto> Str_flag []]"

text \<open>\<open>parseIPsFromArgsConfig\<close> of kvstore, and that of diskstorage, which has no state transfer.\<close>

definition kv_static_flags :: flag_set where
  "kv_static_flags =
     [''id'' \<mapsto> Str_flag [], ''port'' \<mapsto> Str_flag '':11000'', ''raft'' \<mapsto> Str_flag '':12000'',
      ''join'' \<mapsto> Str_flag [], ''hjoin'' \<mapsto> Str_flag [], ''hrecov'' \<mapsto> Str_flag []]"

definition disk_static_flags :: flag_set where
  "disk_static_flags =
     [''id'' \<mapsto> Str_flag [], ''port'' \<mapsto> Str_flag '':11000'', ''raft'' \<mapsto> Str_flag '':12000'',
      ''join'' \<mapsto> Str_flag [], ''hjoin'' \<mapsto> Str_flag []]"

text \<open>The end of \<open>init\<close>, after \<open>flag.Parse\<close>.\<close>

definition init_globals :: "replica_config \<Rightarrow> string \<Rightarrow> flag_set \<Rightarrow> replica_globals outcome" where
  "init_globals c recov F =
     (if rc_svrID c = [] then Fatal (Errorf ''Must set a server ID, run with: ./server -id'' [])
      else Ret \<lparr>rg_config = c, rg_recovHandlerAddr = recov, rg_cpuprofile = str_flag F ''cpuprofile'',
                rg_memprofile = str_flag F ''memprofile'', rg_logfolder = str_flag F ''logfolder''\<rparr>)"

definition program_init :: "flag_set \<Rightarrow> bool \<Rightarrow> (string \<rightharpoonup> string) \<Rightarrow> go_error + pod list \<Rightarrow> string list
    \<Rightarrow> replica_globals outcome" where
  "program_init static_flags staticIPs env pods args =
     (if staticIPs then
        outcome_bind (flag_parse (static_flags ++ kv_flags) args) (\<lambda>(F, rest).
          init_globals \<lparr>rc_svrID = str_flag F ''id'', rc_svrPort = str_flag F ''port'',
              rc_raftAddr = str_flag F ''raft'',
              rc_kube = \<lparr>kc_joinHandlerAddr = str_flag F ''hjoin'', kc_joinAddr = str_flag F ''join''\<rparr>\<rparr>
            (str_flag F ''hrecov'') F)
      else
        outcome_bind (loadEnvVariables env) (\<lambda>e.
        outcome_bind (server_id (envPodIP e)) (\<lambda>svrID.
        outcome_bind (requestKubeConfig e pods) (\<lambda>r.
          case r of
            Inl err \<Rightarrow> Fatal (Errorf ''Failed to retrieve Kubernetes config, err:'' [])
          | Inr kc \<Rightarrow>
              outcome_bind (flag_parse kv_flags args) (\<lambda>(F, rest).
                init_globals \<lparr>rc_svrID = svrID, rc_svrPort = '':11000'',
                    rc_raftAddr = envPodIP e @ '':12000'', rc_kube = kc\<rparr> [] F)))))"

definition kv_init :: "(string \<rightharpoonup> string) \<Rightarrow> go_error + pod list \<Rightarrow> string list \<Rightarrow> replica_globals outcome" where
  "kv_init = program_init kv_static_flags kv_staticIPs"

definition disk_init :: "(string \<rightharpoonup> string) \<Rightarrow> go_error + pod list \<Rightarrow> string list \<Rightarrow> replica_globals outcome" where
  "disk_init = program_init disk_static_flags kv_staticIPs"

text \<open>\<open>launchPsutilMonitor\<close>, a goroutine of its own: what it prints, given how the script's run ended.\<close>

definition launchPsutilMonitor :: "(string list \<Rightarrow> go_error option) \<Rightarrow> string \<Rightarrow> string list" where
  "launchPsutilMonitor run app =
     (case run [''python3'', ''monit_sys.py'', app] of
        Some e \<Rightarrow> [''could not start monitor:'' @ (case e of Lib_error s \<Rightarrow> s | Errorf f xs \<Rightarrow> f)]
      | None \<Rightarrow> [])"

definition kv_launchPsutilMonitor :: "(string list \<Rightarrow> go_error option) \<Rightarrow> string list" where
  "kv_launchPsutilMonitor run = launchPsutilMonitor run ''kvstore''"

definition disk_launchPsutilMonitor :: "(string list \<Rightarrow> go_error option) \<Rightarrow> string list" where
  "disk_launchPsutilMonitor run = launchPsutilMonitor run ''diskstorage''"

definition logger_launchPsutilMonitor :: "(string list \<Rightarrow> go_error option) \<Rightarrow> string list" where
  "logger_launchPsutilMonitor run = launchPsutilMonitor run ''logger''"

section \<open>kvstore and diskstorage: main\<close>

text \<open>What \<open>os.Create\<close>, \<open>pprof.StartCPUProfile\<close> and \<open>pprof.WriteHeapProfile\<close> return.\<close>

record profile_env =
  pf_create :: "string \<Rightarrow> go_error option"
  pf_start :: "go_error option"
  pf_write :: "go_error option"

definition start_profile :: "profile_env \<Rightarrow> string \<Rightarrow> unit outcome" where
  "start_profile E cpuprofile =
     (if cpuprofile = [] then Ret ()
      else (case pf_create E cpuprofile of
          Some e \<Rightarrow> Fatal (Errorf ''could not create CPU profile: '' [])
        | None \<Rightarrow> (case pf_start E of
            Some e \<Rightarrow> Fatal (Errorf ''could not start CPU profile: '' [])
          | None \<Rightarrow> Ret ())))"

definition write_memprofile :: "profile_env \<Rightarrow> string \<Rightarrow> unit outcome" where
  "write_memprofile E memprofile =
     (if memprofile = [] then Ret ()
      else (case pf_create E memprofile of
          Some e \<Rightarrow> Fatal (Errorf ''could not create memory profile: '' [])
        | None \<Rightarrow> (case pf_write E of
            Some e \<Rightarrow> Fatal (Errorf ''could not write memory profile: '' [])
          | None \<Rightarrow> Ret ())))"

text \<open>The listeners that \<open>New\<close> starts, each in a goroutine.\<close>

datatype listener = Join_listener string | State_listener string

definition kv_listeners :: "replica_globals \<Rightarrow> listener list" where
  "kv_listeners g =
     (let j = kc_joinHandlerAddr (rc_kube (rg_config g)); r = rg_recovHandlerAddr g
      in (if j \<noteq> [] then [Join_listener j] else []) @ (if r \<noteq> [] then [State_listener r] else []))"

definition disk_listeners :: "replica_globals \<Rightarrow> listener list" where
  "disk_listeners g =
     (let j = kc_joinHandlerAddr (rc_kube (rg_config g)) in if j \<noteq> [] then [Join_listener j] else [])"

text \<open>
  \<open>main\<close> up to its accept loop: the store, the listeners, the configuration it bootstraps, the request it
  sends. \<open>main_interrupted\<close>: what it does on the interrupt; the process it returns has its context
  cancelled, and \<open>Exit\<close> comes next.
\<close>

definition kv_main :: "profile_env \<Rightarrow> stat_result \<Rightarrow> bool \<Rightarrow> raft_lib \<Rightarrow> (string \<Rightarrow> go_error option) \<Rightarrow> join_conn
    \<Rightarrow> replica_globals \<Rightarrow> (kv_store \<times> listener list \<times> raft_server list \<times> string) outcome" where
  "kv_main E st openable L listen N g =
     outcome_bind (start_profile E (rg_cpuprofile g)) (\<lambda>_.
     outcome_bind (kv_new (rg_logfolder g) (rc_svrID (rg_config g)) st openable) (\<lambda>s.
     outcome_bind (replica_main L listen N (rg_config g)) (\<lambda>(bootstrapped, sent).
       Ret (s, kv_listeners g, bootstrapped, sent))))"

definition main_interrupted :: "profile_env \<Rightarrow> replica_globals \<Rightarrow> 'st process \<Rightarrow> 'st process outcome" where
  "main_interrupted E g p =
     outcome_bind (write_memprofile E (rg_memprofile g)) (\<lambda>_. Ret (p\<lparr>pc_cancelled := True\<rparr>))"

definition disk_program_main :: "profile_env \<Rightarrow> go_error + bytes \<Rightarrow> stat_result \<Rightarrow> bool \<Rightarrow> raft_lib
    \<Rightarrow> (string \<Rightarrow> go_error option) \<Rightarrow> join_conn \<Rightarrow> replica_globals
    \<Rightarrow> (listener list \<times> raft_server list \<times> string) outcome" where
  "disk_program_main E opened st openable L listen N g =
     outcome_bind (start_profile E (rg_cpuprofile g)) (\<lambda>_.
     outcome_bind (disk_main (disk_new (rg_logfolder g) (rc_svrID (rg_config g)) opened st openable) L listen N
       (rg_config g)) (\<lambda>(bootstrapped, sent).
       Ret (disk_listeners g, bootstrapped, sent)))"

section \<open>The logger\<close>

text \<open>
  \<open>parseIPsFromArgsConfig\<close> from the command line. On Kubernetes the logger never calls \<open>flag.Parse\<close>: its
  arguments are not looked at, and the folder keeps its default.
\<close>

definition logger_flags :: flag_set where "logger_flags = [''logfolder'' \<mapsto> Str_flag ''/tmp/'']"

definition logger_static_flags :: flag_set where
  "logger_static_flags =
     [''id'' \<mapsto> Str_flag [], ''raft'' \<mapsto> Str_flag '':12000'', ''join'' \<mapsto> Str_flag '':13000'',
      ''hrecov'' \<mapsto> Str_flag []]"

record logger_globals =
  lb_config :: logger_config
  lb_recovHandlerAddr :: string
  lb_logfolder :: string

definition logger_parseIPs :: "string list \<Rightarrow> (go_error + logger_globals) outcome" where
  "logger_parseIPs args =
     outcome_bind (flag_parse (logger_static_flags ++ logger_flags) args) (\<lambda>(F, rest).
       Ret (case parseIPsFromArgs (str_flag F ''id'') (str_flag F ''raft'') (str_flag F ''join'') of
              Inl e \<Rightarrow> Inl e
            | Inr c \<Rightarrow> Inr \<lparr>lb_config = c, lb_recovHandlerAddr = str_flag F ''hrecov'',
                            lb_logfolder = str_flag F ''logfolder''\<rparr>))"

text \<open>\<open>debugLoggerState\<close>: the lines it prints, one block per application.\<close>

fun debug_blocks :: "logger_config \<Rightarrow> nat list \<Rightarrow> string list outcome" where
  "debug_blocks c [] = Ret []"
| "debug_blocks c (i # is) =
     outcome_bind (go_index (lc_logIDs c) i) (\<lambda>logID.
     outcome_bind (go_index (lc_raftAddrs c) i) (\<lambda>raftAddr.
     outcome_bind (go_index (lc_joinAddrs c) i) (\<lambda>joinAddr.
     outcome_bind (debug_blocks c is) (\<lambda>blocks.
       Ret (go_join '' '' [''=========='', newline # ''Application #:'', itoa (int i), newline # ''loggerID:'', logID,
              newline # ''raft:'', raftAddr, newline # ''appIP:'', joinAddr, newline # ''==========''] # blocks)))))"

definition debugLoggerState :: "logger_config \<Rightarrow> string list outcome" where
  "debugLoggerState c = debug_blocks c [0..<lc_numApps c]"

text \<open>The whole of the logger's \<open>init\<close>: its globals and what it prints.\<close>

definition logger_program_init :: "bool \<Rightarrow> (string \<rightharpoonup> string) \<Rightarrow> go_error + pod list \<Rightarrow> nat \<Rightarrow> string list
    \<Rightarrow> (logger_globals \<times> string list) outcome" where
  "logger_program_init staticIPs env pods baseRand args =
     outcome_bind
       (if staticIPs then
          outcome_bind (logger_parseIPs args) (\<lambda>r.
            case r of
              Inl e \<Rightarrow> Fatal (Errorf ''could not parse cmdli args, err:'' [])
            | Inr g \<Rightarrow> Ret g)
        else
          outcome_bind (logger_init env pods baseRand) (\<lambda>c.
            Ret \<lparr>lb_config = c, lb_recovHandlerAddr = [], lb_logfolder = str_flag logger_flags ''logfolder''\<rparr>))
       (\<lambda>g. outcome_bind (debugLoggerState (lb_config g)) (\<lambda>blocks. Ret (g, blocks)))"

definition logger_listeners :: "logger_globals \<Rightarrow> listener list" where
  "logger_listeners g =
     (if lb_recovHandlerAddr g \<noteq> [] then [State_listener (lb_recovHandlerAddr g)] else [])"

section \<open>The other programs\<close>

definition chat_flag_set :: flag_set where
  "chat_flag_set =
     [''id'' \<mapsto> Str_flag [], ''port'' \<mapsto> Str_flag '':11000'', ''raft'' \<mapsto> Str_flag '':12000'',
      ''hjoin'' \<mapsto> Str_flag [], ''join'' \<mapsto> Str_flag []]"

definition chat_program :: "(string list \<Rightarrow> string \<Rightarrow> go_error option) \<Rightarrow> raft_lib \<Rightarrow> join_conn \<Rightarrow> string list
    \<Rightarrow> (chat_server \<times> raft_server list \<times> string) outcome" where
  "chat_program listen L N args =
     outcome_bind (flag_parse chat_flag_set args) (\<lambda>(F, rest).
       chat_server_main listen L N
         \<lparr>cf_svrID = str_flag F ''id'', cf_svrPort = str_flag F ''port'', cf_raftAddr = str_flag F ''raft'',
          cf_joinHandlerAddr = str_flag F ''hjoin'', cf_joinAddr = str_flag F ''join''\<rparr>)"

text \<open>webkvstore; its defaults are those of \<open>DefaultHTTPAddr\<close> and \<open>DefaultRaftAddr\<close>.\<close>

definition web_flag_set :: flag_set where
  "web_flag_set =
     [''inmem'' \<mapsto> Bool_flag True, ''haddr'' \<mapsto> Str_flag '':11000'', ''raddr'' \<mapsto> Str_flag '':12000'',
      ''join'' \<mapsto> Str_flag [], ''id'' \<mapsto> Str_flag []]"

definition web_program :: "raft_lib \<Rightarrow> (string \<Rightarrow> go_error option) \<Rightarrow> (string \<Rightarrow> go_error option)
    \<Rightarrow> ((string \<times> string) list \<Rightarrow> go_error + bytes) \<Rightarrow> (string \<Rightarrow> bytes \<Rightarrow> go_error + http_response)
    \<Rightarrow> string list \<Rightarrow> raft_server list outcome" where
  "web_program L bolt listen marshal post args =
     outcome_bind (flag_parse web_flag_set args) (\<lambda>(F, rest).
       web_main L bolt listen marshal post
         \<lparr>wf_args = rest, wf_inmem = bool_flag F ''inmem'', wf_httpAddr = str_flag F ''haddr'',
          wf_raftAddr = str_flag F ''raddr'', wf_joinAddr = str_flag F ''join'', wf_nodeID = str_flag F ''id''\<rparr>)"

definition client_flags :: flag_set where
  "client_flags = [''config'' \<mapsto> Str_flag ''client-config.toml'']"

definition chat_client_flags :: flag_set where "chat_client_flags = [''config'' \<mapsto> Str_flag []]"

text \<open>The clients, whose configuration is the result of decoding the file that the flag names.\<close>

definition client_program :: "(string \<Rightarrow> go_error + client_info) \<Rightarrow> string list option \<Rightarrow> string
    \<Rightarrow> (string \<Rightarrow> go_error + conn) \<Rightarrow> (string \<Rightarrow> int \<Rightarrow> go_error option) \<Rightarrow> bytes \<Rightarrow> (go_error + bytes) list
    \<Rightarrow> string list \<Rightarrow> string list outcome option" where
  "client_program decode kubeIps podIP dial listenUDP s udp args =
     (case flag_parse client_flags args of
        Ret (F, rest) \<Rightarrow>
          (let name = str_flag F ''config''
           in client_main name kubeIps podIP (decode name) dial listenUDP s udp)
      | Panic e \<Rightarrow> Some (Panic e) | Fatal e \<Rightarrow> Some (Fatal e) | Blocked \<Rightarrow> Some Blocked)"

definition chat_client_program :: "bool \<Rightarrow> (string \<Rightarrow> go_error + (int \<times> string list \<times> int))
    \<Rightarrow> (string \<Rightarrow> go_error + conn) \<Rightarrow> bytes \<Rightarrow> string list \<Rightarrow> unit outcome option" where
  "chat_client_program late decode dial s args =
     (case flag_parse chat_client_flags args of
        Ret (F, rest) \<Rightarrow> (let name = str_flag F ''config'' in chat_main late name (decode name) dial s)
      | Panic e \<Rightarrow> Some (Panic e) | Fatal e \<Rightarrow> Some (Fatal e) | Blocked \<Rightarrow> Some Blocked)"

definition recovery_flags :: flag_set where "recovery_flags = [''recov'' \<mapsto> Str_flag []]"

definition recovery_program :: "pb_codec \<Rightarrow> (string \<Rightarrow> state_conn) \<Rightarrow> string list
    \<Rightarrow> (mock_state \<times> int \<times> nat) outcome" where
  "recovery_program P dial args =
     outcome_bind (flag_parse recovery_flags args) (\<lambda>(F, rest).
       recovery_main P (str_flag F ''recov'') (dial (str_flag F ''recov'')))"

section \<open>Raft's settings\<close>

text \<open>
  The settings that the programs change over \<open>raft.DefaultConfig\<close>, a parameter; the interval is a
  \<open>time.Duration\<close>, in nanoseconds.
\<close>

record raft_settings =
  rs_LocalID :: string
  rs_SnapshotInterval :: "64 word"
  rs_SnapshotThreshold :: "64 word"
  rs_LogLevel :: string

definition duration :: "nat \<Rightarrow> 64 word" where "duration seconds = word_of_nat (seconds * 10 ^ 9)"

definition kv_configRaft :: "raft_settings \<Rightarrow> raft_settings" where
  "kv_configRaft config =
     config\<lparr>rs_SnapshotInterval := duration (24 * 3600), rs_SnapshotThreshold := push_bit 62 2,
            rs_LogLevel := ''INFO''\<rparr>"

definition disk_configRaft :: "raft_settings \<Rightarrow> raft_settings" where
  "disk_configRaft config =
     config\<lparr>rs_SnapshotInterval := duration (24 * 3600), rs_SnapshotThreshold := push_bit 62 2,
            rs_LogLevel := ''INFO''\<rparr>"

definition logger_configRaft :: "raft_settings \<Rightarrow> raft_settings" where
  "logger_configRaft config =
     config\<lparr>rs_SnapshotInterval := duration (24 * 3600), rs_SnapshotThreshold := push_bit 62 2,
            rs_LogLevel := ''WARN''\<rparr>"

definition chat_configRaft :: "raft_settings \<Rightarrow> raft_settings" where
  "chat_configRaft config =
     config\<lparr>rs_SnapshotInterval := duration (5 * 60), rs_SnapshotThreshold := 1000024,
            rs_LogLevel := ''ERROR''\<rparr>"

text \<open>
  A snapshot is taken once the log holds as many entries as the threshold. The chat server's \<open>Snapshot\<close>
  and the logger's return none; only the logger's settings keep Raft from asking for one.
\<close>

definition snapshot_due :: "raft_settings \<Rightarrow> 64 word \<Rightarrow> bool" where
  "snapshot_due config entries \<longleftrightarrow> rs_SnapshotThreshold config \<le> entries"

lemma snapshot_settings:
  "snapshot_due (kv_configRaft c) n \<longleftrightarrow> 2 ^ 63 \<le> unat n"
  "snapshot_due (disk_configRaft c) n \<longleftrightarrow> 2 ^ 63 \<le> unat n"
  "snapshot_due (logger_configRaft c) n \<longleftrightarrow> 2 ^ 63 \<le> unat n"
  "snapshot_due (chat_configRaft c) n \<longleftrightarrow> 1000024 \<le> unat n"
  by (simp_all add: snapshot_due_def kv_configRaft_def disk_configRaft_def logger_configRaft_def
      chat_configRaft_def word_le_nat_alt)

section \<open>What the command line does\<close>

lemma str_flag_upd [simp]:
  "str_flag (F(n \<mapsto> v)) m = (if m = n then (case v of Str_flag s \<Rightarrow> s | _ \<Rightarrow> []) else str_flag F m)"
  by (simp add: str_flag_def)

lemma outcome_bind_assoc: "outcome_bind (outcome_bind r f) g = outcome_bind r (\<lambda>x. outcome_bind (f x) g)"
  by (cases r) auto

lemma replica_init_id: "replica_init env pods = Ret c \<Longrightarrow> rc_svrID c \<noteq> []"
proof -
  assume a: "replica_init env pods = Ret c"
  then obtain e i r where "server_id (envPodIP e) = Ret i" "requestKubeConfig e pods = Ret r"
    "loadEnvVariables env = Ret e" by (auto simp: replica_init_def)
  with a show ?thesis by (cases r) (auto simp: replica_init_def split: if_splits)
qed

lemma server_id_not_Nil: "server_id ip = Ret i \<Longrightarrow> i \<noteq> []"
  by (auto simp: server_id_def)

lemma program_init_kube:
  "program_init st False env pods args =
     outcome_bind (replica_init env pods) (\<lambda>c.
     outcome_bind (flag_parse kv_flags args) (\<lambda>(F, rest). init_globals c [] F))"
proof (cases "loadEnvVariables env")
  case (Ret e)
  show ?thesis
  proof (cases "server_id (envPodIP e)")
    case id: (Ret i)
    have "i \<noteq> []" using server_id_not_Nil [OF id] .
    show ?thesis
    proof (cases "requestKubeConfig e pods")
      case kc: (Ret r)
      then show ?thesis using Ret id \<open>i \<noteq> []\<close>
        by (cases r) (simp_all add: program_init_def replica_init_def)
    qed (simp_all add: program_init_def replica_init_def Ret id)
  qed (simp_all add: program_init_def replica_init_def Ret)
qed (simp_all add: program_init_def replica_init_def)

text \<open>
  A kvstore replica whose flags are written in any of the accepted spellings starts as its pods say, with
  the profiles and the log that the flags name.
\<close>

lemma kv_program_starts:
  assumes "assigns kv_flags ws" and "rest = [] \<or> flag_token (hd rest) = Not_flag"
  shows "kv_init env pods (concat (map flag_words ws) @ rest) =
    outcome_bind (replica_init env pods) (\<lambda>c.
      let F = assign_flags ws kv_flags
      in Ret \<lparr>rg_config = c, rg_recovHandlerAddr = [], rg_cpuprofile = str_flag F ''cpuprofile'',
              rg_memprofile = str_flag F ''memprofile'', rg_logfolder = str_flag F ''logfolder''\<rparr>)"
proof -
  have "flag_parse (assign_flags ws kv_flags) rest = Ret (assign_flags ws kv_flags, rest)"
    using assms(2) by (cases rest) simp_all
  then show ?thesis
    using replica_init_id [of env pods]
    by (cases "replica_init env pods")
       (simp_all add: kv_init_def kv_staticIPs_def program_init_kube flag_parse_written [OF assms(1)]
          init_globals_def Let_def)
qed

lemma case_sum_Ret: "(case r of Inl e \<Rightarrow> Fatal (h e) | Inr g \<Rightarrow> Ret g) = Ret y \<longleftrightarrow> r = Inr y"
  by (cases r) auto

lemma outcome_bind_Panic: "outcome_bind r f = Panic e \<longleftrightarrow> r = Panic e \<or> (\<exists>x. r = Ret x \<and> f x = Panic e)"
  by (cases r) auto

lemma debug_blocks_all:
  "\<forall>i \<in> set is. i < length (lc_logIDs c) \<and> i < length (lc_raftAddrs c) \<and> i < length (lc_joinAddrs c) \<Longrightarrow>
     \<exists>bs. debug_blocks c is = Ret bs \<and> length bs = length is"
  by (induction "is") auto

definition demo_globals :: replica_globals where
  "demo_globals =
     \<lparr>rg_config = \<lparr>rc_svrID = ''node5'', rc_svrPort = '':11000'', rc_raftAddr = ''10.0.0.5:12000'',
        rc_kube = \<lparr>kc_joinHandlerAddr = '':13000'', kc_joinAddr = []\<rparr>\<rparr>,
      rg_recovHandlerAddr = [], rg_cpuprofile = [], rg_memprofile = [], rg_logfolder = ''/tmp/''\<rparr>"

section \<open>Properties\<close>

text \<open>C23: the command lines of the README, with \<open>-id\<close>, \<open>-port\<close>, \<open>-raft\<close>, \<open>-join\<close>, \<open>-hjoin\<close> or
  \<open>-hrecov\<close>, are refused by kvstore and diskstorage as they are built: one of these flags after any flags
  that are right ends the process, whatever the environment and the pods.\<close>

theorem static_flags_refused:
  assumes "assigns kv_flags ws" and "flag_token s = Flag_arg name v" and "name \<in> dom kv_static_flags"
  shows "kv_init env pods (concat (map flag_words ws) @ s # args) \<noteq> Ret g \<and>
    disk_init env pods (concat (map flag_words ws) @ s # args) \<noteq> Ret g"
proof -
  have "kv_flags name = None" using assms(3) by (auto simp: kv_static_flags_def kv_flags_def)
  from flag_parse_unknown [OF assms(1,2) this, of args] show ?thesis
    by (cases "replica_init env pods") (auto simp: kv_init_def disk_init_def kv_staticIPs_def program_init_kube)
qed

lemma demo_log_flag: "assigns kv_flags [(Joined False, ''logfolder'', Str_flag ''/tmp/'')]"
  by (simp add: assigns_def kv_flags_def flag_name_ok_def same_kind_def)

lemma demo_kv_init:
  "kv_init (demo_env_of ''leader-app'') (Inr []) [''-logfolder=/tmp/''] = Ret demo_globals"
proof -
  let ?e = "\<lparr>envPodIP = ''10.0.0.5'', envPodName = ''leader-app'', envPodNamespace = ''ns'', envPodIndex = -1\<rparr>"
  have "loadEnvVariables (demo_env_of ''leader-app'') = Ret ?e"
    by (simp add: loadEnvVariables_def demo_env_of_def pod_index_def)
  then have "replica_init (demo_env_of ''leader-app'') (Inr []) = Ret (rg_config demo_globals)"
    by (simp add: replica_init_def requestKubeConfig_def server_id_def go_index_def is_leader_def demo_globals_def)
  then show ?thesis
    using kv_program_starts [OF demo_log_flag, of "[]" "demo_env_of ''leader-app''" "Inr []"]
    by (simp add: dashes_def demo_globals_def kv_flags_def str_flag_def)
qed

lemma static_flags_refused_witness:
  "(\<exists>g. kv_init (demo_env_of ''leader-app'') (Inr []) [''-logfolder=/tmp/''] = Ret g) \<and>
   \<not> (\<exists>g. kv_init (demo_env_of ''leader-app'') (Inr []) [''-logfolder=/tmp/'', ''-id'', ''node0''] = Ret g)"
  using static_flags_refused [OF demo_log_flag, of "''-id''" "''id''" None "demo_env_of ''leader-app''" "Inr []"
      "[''node0'']"] demo_kv_init
  by (simp add: flag_token_def kv_static_flags_def dashes_def)

text \<open>C22: a kvstore replica from its command line, as the program is built: one that has started logs its
  commands exactly when the flag names a folder; a pod named leader listens for join requests, bootstraps
  the configuration of itself alone and sends no request; any other listens for nothing, bootstraps
  nothing and sends its request to join. None ever listens for requests for its state.\<close>

theorem kv_program_runs:
  assumes "kv_init env pods args = Ret g" and "kv_main E st openable L listen N g = Ret (s, ls, bootstrapped, sent)"
    and "loadEnvVariables env = Ret e" and "rl_transport L (rc_raftAddr (rg_config g)) = Inr self"
  shows "(kv_logging s \<longleftrightarrow> rg_logfolder g \<noteq> []) \<and>
    (if is_leader e
     then ls = [Join_listener '':13000''] \<and> sent = [] \<and>
       bootstrapped = [\<lparr>srv_id = rc_svrID (rg_config g), srv_addr = self, srv_voter = True\<rparr>]
     else ls = [] \<and> bootstrapped = [] \<and> sent = join_request (rc_svrID (rg_config g)) (envPodIP e @ '':12000''))"
proof -
  have i: "replica_init env pods = Ret (rg_config g)" and r: "rg_recovHandlerAddr g = []"
    using assms(1) by (auto simp: kv_init_def kv_staticIPs_def program_init_kube init_globals_def split: if_splits)
  have m: "replica_main L listen N (rg_config g) = Ret (bootstrapped, sent)" and l: "ls = kv_listeners g"
    and n: "kv_new (rg_logfolder g) (rc_svrID (rg_config g)) st openable = Ret s"
    using assms(2) by (auto simp: kv_main_def)
  have "kv_logging s \<longleftrightarrow> rg_logfolder g \<noteq> []"
    using n by (auto simp: kv_new_def kv_fresh_def split: if_splits)
  moreover have "kc_joinHandlerAddr (rc_kube (rg_config g)) = (if is_leader e then '':13000'' else [])"
    using replica_init_Ret [OF i assms(3)] requestKubeConfig_handler by blast
  ultimately show ?thesis
    using replica_begins [OF i m assms(3,4)] r by (auto simp: l kv_listeners_def)
qed

lemma kv_program_runs_witness:
  "\<exists>s. kv_main \<lparr>pf_create = \<lambda>_. None, pf_start = None, pf_write = None\<rparr> Stat_not_exist True demo_raft_lib (\<lambda>_. None)
       \<lparr>jc_dial = None, jc_write = None, jc_close = None\<rparr> demo_globals =
     Ret (s, [Join_listener '':13000''], [\<lparr>srv_id = ''node5'', srv_addr = ''10.0.0.5:12000'', srv_voter = True\<rparr>], []) \<and>
     kv_logging s"
proof -
  let ?E = "\<lparr>pf_create = \<lambda>_. None, pf_start = None, pf_write = None\<rparr>" and ?N = "\<lparr>jc_dial = None, jc_write = None, jc_close = None\<rparr>"
  let ?e = "\<lparr>envPodIP = ''10.0.0.5'', envPodName = ''leader-app'', envPodNamespace = ''ns'', envPodIndex = -1\<rparr>"
  have e: "loadEnvVariables (demo_env_of ''leader-app'') = Ret ?e"
    by (simp add: loadEnvVariables_def demo_env_of_def pod_index_def)
  obtain s ls b t where m: "kv_main ?E Stat_not_exist True demo_raft_lib (\<lambda>_. None) ?N demo_globals = Ret (s, ls, b, t)"
    by (simp add: kv_main_def start_profile_def kv_new_def createFile_def replica_main_def startRaft_def demo_raft_lib_def
        demo_globals_def)
  show ?thesis
    using kv_program_runs [OF demo_kv_init m e, of "''10.0.0.5:12000''"] m
    by (simp add: is_leader_def demo_raft_lib_def demo_globals_def)
qed

text \<open>C24: the logger's \<open>init\<close>: from the command line it never panics, and whatever it accepts, from there or
  from Kubernetes, is printed and started instance by instance without indexing a list out of range. On
  Kubernetes its arguments are not looked at: it keeps its log under \<open>/tmp/\<close> and listens for no request for
  the state.\<close>

theorem logger_program_starts:
  "(\<nexists>e. logger_program_init True env pods n args = Panic e) \<and>
   (\<forall>st g blocks. logger_program_init st env pods n args = Ret (g, blocks) \<longrightarrow>
      length blocks = lc_numApps (lb_config g) \<and> (\<forall>i \<in> set (logger_instances (lb_config g)). \<exists>x. i = Ret x)) \<and>
   logger_program_init False env pods n args = logger_program_init False env pods n [] \<and>
   (\<forall>g blocks. logger_program_init False env pods n args = Ret (g, blocks) \<longrightarrow>
      lb_logfolder g = ''/tmp/'' \<and> logger_listeners g = [])"
proof -
  define fits :: "logger_config \<Rightarrow> bool" where "fits c \<longleftrightarrow> lc_numApps c \<le> length (lc_logIDs c) \<and> lc_numApps c \<le> length (lc_raftAddrs c) \<and>
      lc_numApps c \<le> length (lc_joinAddrs c)" for c
  have debug: "\<exists>bs. debugLoggerState c = Ret bs \<and> length bs = lc_numApps c" if "fits c" for c
    using debug_blocks_all [of "[0..<lc_numApps c]" c] that by (simp add: debugLoggerState_def fits_def)
  have started: "\<forall>i \<in> set (logger_instances c). \<exists>x. i = Ret x" if "fits c" for c
    using that by (auto simp: logger_instances_def fits_def)
  have parsed: "fits (lb_config g)" if p: "logger_parseIPs args = Ret (Inr g)" for args g
  proof -
    obtain F rest where f: "flag_parse (logger_static_flags ++ logger_flags) args = Ret (F, rest)"
      using p by (auto simp: logger_parseIPs_def)
    have "parseIPsFromArgs (str_flag F ''id'') (str_flag F ''raft'') (str_flag F ''join'') = Inr (lb_config g)"
      using p f
      by (cases "parseIPsFromArgs (str_flag F ''id'') (str_flag F ''raft'') (str_flag F ''join'')")
         (auto simp: logger_parseIPs_def)
    then show ?thesis by (simp add: fits_def parse_ips_lengths)
  qed
  have kube: "fits c" if "logger_init env pods n = Ret c" for c
    using logger_init_ok [OF that] by (simp add: fits_def logger_config_ok_def)
  have "\<nexists>e. logger_program_init True env pods n args = Panic e"
  proof (cases "logger_parseIPs args")
    case (Ret r)
    show ?thesis
    proof (cases r)
      case (Inr g)
      with debug [OF parsed] Ret obtain bs where "debugLoggerState (lb_config g) = Ret bs" by blast
      with Ret Inr show ?thesis by (simp add: logger_program_init_def)
    qed (simp add: logger_program_init_def Ret)
  next
    case (Panic e)
    then show ?thesis using flag_parse_no_panic by (auto simp: logger_parseIPs_def outcome_bind_Panic)
  qed (simp_all add: logger_program_init_def)
  moreover have "fits (lb_config g) \<and> debugLoggerState (lb_config g) = Ret blocks"
    if "logger_program_init st env pods n args = Ret (g, blocks)" for st g blocks
    using that parsed kube by (auto simp: logger_program_init_def case_sum_Ret split: if_splits)
  then have "length blocks = lc_numApps (lb_config g) \<and> (\<forall>i \<in> set (logger_instances (lb_config g)). \<exists>x. i = Ret x)"
    if "logger_program_init st env pods n args = Ret (g, blocks)" for st g blocks
    using that debug [of "lb_config g"] started [of "lb_config g"] by fastforce
  moreover have "lb_logfolder g = ''/tmp/'' \<and> logger_listeners g = []"
    if "logger_program_init False env pods n args = Ret (g, blocks)" for g blocks
    using that by (auto simp: logger_program_init_def logger_listeners_def logger_flags_def str_flag_def)
  moreover have "logger_program_init False env pods n args = logger_program_init False env pods n []"
    by (simp add: logger_program_init_def)
  ultimately show ?thesis by blast
qed

lemma logger_program_starts_witness:
  "\<exists>g blocks. logger_program_init True Map.empty (Inr []) 0 [''-id'', ''a,b'', ''-raft=x,y'', ''--join'', ''u,v''] = Ret (g, blocks) \<and>
     length blocks = 2"
proof -
  let ?ws = "[(Apart False, ''id'', Str_flag ''a,b''), (Joined False, ''raft'', Str_flag ''x,y''), (Apart True, ''join'', Str_flag ''u,v'')]"
  let ?args = "[''-id'', ''a,b'', ''-raft=x,y'', ''--join'', ''u,v'']"
  have w: "concat (map flag_words ?ws) @ [] = ?args" by (simp add: dashes_def)
  have "assigns (logger_static_flags ++ logger_flags) ?ws"
    by (simp add: assigns_def logger_static_flags_def logger_flags_def flag_name_ok_def same_kind_def)
  from flag_parse_written [OF this, of "[]"] obtain F where
    f: "flag_parse (logger_static_flags ++ logger_flags) ?args = Ret (F, [])"
    and v: "str_flag F ''id'' = ''a,b''" "str_flag F ''raft'' = ''x,y''" "str_flag F ''join'' = ''u,v''"
    unfolding w by simp
  have "countDiffStrInSlice [''a'', ''b''] = 2" "countDiffStrInSlice [''x'', ''y''] = 2" "countDiffStrInSlice [''u'', ''v''] = 2"
    by (simp_all add: countDiffStrInSlice_def)
  then obtain g where "logger_parseIPs ?args = Ret (Inr g)" and n: "lc_numApps (lb_config g) = 2"
    "lc_logIDs (lb_config g) = [''a'', ''b'']" "lc_raftAddrs (lb_config g) = [''x'', ''y'']"
    "lc_joinAddrs (lb_config g) = [''u'', ''v'']"
    using f v by (simp add: logger_parseIPs_def parseIPsFromArgs_def Let_def)
  moreover from n obtain bs where "debugLoggerState (lb_config g) = Ret bs"
    by (simp add: debugLoggerState_def numeral_2_eq_2)
  ultimately have p: "logger_program_init True Map.empty (Inr []) 0 ?args = Ret (g, bs)"
    by (simp add: logger_program_init_def)
  then show ?thesis using logger_program_starts [of Map.empty "Inr []" 0 ?args] n(1) by auto
qed

text \<open>C30: how a kvstore replica ends: on the interrupt, when the memory profile is not asked for or can be
  written, \<open>Exit\<close> can run to its end by its own steps from whatever the goroutines have come to: Raft is
  shut down, the log is closed if there is one, every session is disconnected, and the store is as it
  was. When the profile cannot be created or written the process ends before any of it.\<close>

theorem kv_main_exits:
  assumes "pc_exit p = None"
  shows "if rg_memprofile g = [] \<or> pf_create E (rg_memprofile g) = None \<and> pf_write E = None
    then \<exists>p1 p2. main_interrupted E g p = Ret p1 \<and>
      observed (process_step (\<lambda>closed. kv_propose P G) kv_exit) p1 [] p2 \<and> pc_exit p2 = Some [] \<and>
      pc_raft_down p2 \<and> (kv_logging (sv_store (pc_server p)) \<longrightarrow> pc_log_closed p2) \<and>
      (\<forall>ss \<in> set (pc_sessions p2). \<not> ss_open ss) \<and> pc_server p2 = pc_server p
    else \<exists>e. main_interrupted E g p = Fatal e"
proof (cases "rg_memprofile g = [] \<or> pf_create E (rg_memprofile g) = None \<and> pf_write E = None")
  case True
  let ?p1 = "p\<lparr>pc_cancelled := True\<rparr>"
  have m: "main_interrupted E g p = Ret ?p1" using True by (auto simp: main_interrupted_def write_memprofile_def)
  obtain p2 where "observed (process_step (\<lambda>closed. kv_propose P G) kv_exit) ?p1 [] p2" "pc_exit p2 = Some []"
    "pc_raft_down p2" "pc_server p2 = pc_server ?p1" "kv_logging (sv_store (pc_server ?p1)) \<longrightarrow> pc_log_closed p2"
    "\<forall>ss \<in> set (pc_sessions p2). \<not> ss_open ss"
    using kv_exit_run [of ?p1 "\<lambda>closed. kv_propose P G"] assms by auto
  with m True show ?thesis by auto
qed (auto simp: main_interrupted_def write_memprofile_def split: option.split)

lemma kv_main_exits_witness:
  "(\<exists>p2. pc_raft_down p2 \<and> pc_exit p2 = Some [] \<and> sv_store (pc_server p2) = demo_store \<and>
      observed (process_step (\<lambda>closed. kv_propose sample_codec sample_gz) kv_exit)
        ((process_init demo_store None)\<lparr>pc_cancelled := True\<rparr>) [] p2) \<and>
   (\<exists>e. main_interrupted \<lparr>pf_create = \<lambda>_. Some (Lib_error ''permission denied''), pf_start = None, pf_write = None\<rparr>
      (demo_globals\<lparr>rg_memprofile := ''/x''\<rparr>) (process_init demo_store None) = Fatal e)"
proof -
  let ?p = "process_init demo_store None"
  have p: "pc_exit ?p = None" by (simp add: process_init_def)
  from kv_main_exits [OF p, of demo_globals "\<lparr>pf_create = \<lambda>_. None, pf_start = None, pf_write = None\<rparr>" sample_codec sample_gz]
  obtain p1 p2 where "main_interrupted \<lparr>pf_create = \<lambda>_. None, pf_start = None, pf_write = None\<rparr> demo_globals ?p = Ret p1"
    and o: "observed (process_step (\<lambda>closed. kv_propose sample_codec sample_gz) kv_exit) p1 [] p2" "pc_raft_down p2"
      "pc_exit p2 = Some []" "pc_server p2 = pc_server ?p"
    by (auto simp: demo_globals_def)
  then have "p1 = ?p\<lparr>pc_cancelled := True\<rparr>"
    by (simp add: main_interrupted_def write_memprofile_def demo_globals_def)
  with o have "\<exists>p2. pc_raft_down p2 \<and> pc_exit p2 = Some [] \<and> sv_store (pc_server p2) = demo_store \<and>
      observed (process_step (\<lambda>closed. kv_propose sample_codec sample_gz) kv_exit) (?p\<lparr>pc_cancelled := True\<rparr>) [] p2"
    by (intro exI [of _ p2]) (simp add: process_init_def newServer_def)
  moreover have "\<exists>e. main_interrupted \<lparr>pf_create = \<lambda>_. Some (Lib_error ''permission denied''), pf_start = None, pf_write = None\<rparr>
      (demo_globals\<lparr>rg_memprofile := ''/x''\<rparr>) ?p = Fatal e"
    by (simp add: main_interrupted_def write_memprofile_def)
  ultimately show ?thesis by blast
qed

text \<open>Webkvstore reads its flags only up to the directory: a node whose command line has \<open>-join\<close> behind
  the directory sends no request; when it starts it has bootstrapped a cluster of itself alone.\<close>

lemma web_flags_stop:
  assumes "assigns web_flag_set ws" and "\<forall>(st, name, v) \<in> set ws. name \<noteq> ''join''"
    and "flag_token dir = Not_flag" and "dir \<noteq> []"
    and "web_program L bolt listen marshal post (concat (map flag_words ws) @ dir # ignored) = Ret ss"
  shows "\<exists>a. ss = [\<lparr>srv_id = str_flag (assign_flags ws web_flag_set) ''id'', srv_addr = a, srv_voter = True\<rparr>] \<and>
    web_program L bolt listen marshal other (concat (map flag_words ws) @ [dir]) = Ret ss"
proof -
  let ?F = "assign_flags ws web_flag_set"
  have j: "assign_flags ws F ''join'' = F ''join''" for F :: flag_set
    using assms(2) by (induction ws arbitrary: F) auto
  have join: "str_flag ?F ''join'' = []" by (simp add: str_flag_def j web_flag_set_def)
  have p: "flag_parse web_flag_set (concat (map flag_words ws) @ dir # rest) = Ret (?F, dir # rest)" for rest
    using assms(3) by (simp add: flag_parse_written [OF assms(1)])
  show ?thesis
    using assms(4,5) join p [of ignored] p [of "[]"]
    by (auto simp: web_program_def web_main_def web_open_def web_start_def web_newService_def
        split: option.splits sum.splits if_splits)
qed

end
