(* ===== verification/Linearizable.thy ===== *)
theory Linearizable
  imports Server_Process Seq_Client
begin

text \<open>
  Clients, sessions, goroutines, server, store and replies put together: what a replica that leads does
  for any number of clients is what a sequential map does for their commands in some order that keeps
  each client's own.
\<close>

section \<open>The sequential service\<close>

text \<open>The abstract map serving commands, each from a host: the datagrams it sends and the map it leaves.\<close>

definition kv_serve_one :: "datagram list \<times> (string \<rightharpoonup> bytes) \<Rightarrow> string \<times> pb_command
    \<Rightarrow> datagram list \<times> (string \<rightharpoonup> bytes)" where
  "kv_serve_one s h =
     (case h of (host, c) \<Rightarrow>
        (case kv_spec (snd s) (cmd_op c) (cmd_key c) (cmd_value c) of
           (m, None) \<Rightarrow> (fst s, m)
         | (m, Some v) \<Rightarrow>
             (fst s @ [(host @ colon # cmd_ip c, ''OK: '' @ takeWhile (\<lambda>ch. ch \<noteq> dash) v @ [newline])], m)))"

definition kv_serve :: "(string \<rightharpoonup> bytes) \<Rightarrow> (string \<times> pb_command) list \<Rightarrow> datagram list \<times> (string \<rightharpoonup> bytes)" where
  "kv_serve m hs = foldl kv_serve_one ([], m) hs"

lemma kv_serve_snoc: "kv_serve m (hs @ [h]) = kv_serve_one (kv_serve m hs) h"
  by (simp add: kv_serve_def)

section \<open>What a trace shows\<close>

definition joins :: "sv_event list \<Rightarrow> (string \<times> bytes) list" where
  "joins evs = concat (map (\<lambda>ev. case ev of Ev_join remote stream \<Rightarrow> [(remote, stream)] | _ \<Rightarrow> []) evs)"

definition handled :: "sv_event list \<Rightarrow> (nat \<times> request) list" where
  "handled evs = concat (map (\<lambda>ev. case ev of Ev_request i rq E \<Rightarrow> [(i, rq)] | _ \<Rightarrow> []) evs)"

lemma length_handled: "length (handled evs) = length (requests evs)"
  by (induction evs) (simp_all add: handled_def requests_def split: sv_event.split)

text \<open>Every request is handled by a leader that commits it and reaches its clients.\<close>

definition committing :: "sv_event \<Rightarrow> bool" where
  "committing ev = (case ev of
       Ev_request i rq E \<Rightarrow> pe_role E = Leader \<and> (\<exists>n. pe_future E = Future_index n) \<and> (\<forall>a. pe_dial E a)
     | _ \<Rightarrow> True)"

lemma joins_snoc: "joins (evs @ [ev]) = joins evs @ (case ev of Ev_join remote stream \<Rightarrow> [(remote, stream)] | _ \<Rightarrow> [])"
  by (simp add: joins_def)

lemma handled_snoc: "handled (evs @ [ev]) = handled evs @ (case ev of Ev_request i rq E \<Rightarrow> [(i, rq)] | _ \<Rightarrow> [])"
  by (simp add: handled_def)

context proposer
begin

text \<open>From the start of a server: the requests handled for a session, and then its queue, are what the
  bytes of its connection hold.\<close>

lemma run_from_start:
  assumes "server_run propose (newServer st fd) evs sv"
  shows "length (sv_queues sv) = length (joins evs) \<and>
    (\<forall>(i, rq) \<in> set (handled evs). i < length (joins evs)) \<and>
    (\<forall>i < length (joins evs).
       map snd (filter (\<lambda>h. fst h = i) (handled evs)) @ sv_queues sv ! i =
         session_read (fst (joins evs ! i)) (snd (joins evs ! i)))"
  using assms
proof (induction "newServer st fd" evs sv rule: server_run.induct)
  case run_nil
  then show ?case by (simp add: joins_def handled_def newServer_def)
next
  case (run_snoc evs sv' ev sv'')
  show ?case
    using run_snoc.hyps(3)
  proof (cases rule: server_step.cases)
    case (step_join remote stream)
    then have "i < length (joins evs) \<or> i = length (joins evs)" if "i < length (joins (evs @ [ev]))" for i
      using that by (auto simp: joins_snoc)
    moreover have "filter (\<lambda>h. fst h = length (joins evs)) (handled evs) = []"
      using run_snoc.hyps(2) by (fastforce simp: filter_empty_conv)
    ultimately show ?thesis
      using step_join run_snoc.hyps(2) by (fastforce simp: joins_snoc handled_snoc server_join_def nth_append)
  next
    case (step_request i rq rqs E)
    then have "sv_queues sv'' = (sv_queues sv')[i := rqs]" using handle_fields(1) by fastforce
    then show ?thesis
      using step_request run_snoc.hyps(2) by (auto simp: joins_snoc handled_snoc nth_list_update)
  next
    case step_tick
    then show ?thesis using run_snoc.hyps(2) by (simp add: joins_snoc handled_snoc server_tick_def)
  qed
qed

end

section \<open>The server serves like the map\<close>

text \<open>The command of a request.\<close>

definition command_of :: "pb_codec \<Rightarrow> request \<Rightarrow> pb_command" where
  "command_of P rq = projr (pb_unmarshal P (trim_suffix [newline] (rq_command rq)))"

definition request_ok :: "pb_codec \<Rightarrow> request \<Rightarrow> bool" where
  "request_ok P rq \<longleftrightarrow> pb_unmarshal P (trim_suffix [newline] (rq_command rq)) = Inr (command_of P rq) \<and>
     dash \<notin> set (cmd_ip (command_of P rq))"

lemma kv_handle_serves:
  assumes "kv_inv (sv_store sv)" and "committing (Ev_request i rq E)" and "request_ok P rq"
    and "handleRequest (kv_propose P G) E sv rq = (sv', Ret ())"
  shows "kv_inv (sv_store sv') \<and>
    (sv_sent sv', kv_view (sv_store sv')) =
      kv_serve_one (sv_sent sv, kv_view (sv_store sv)) (rq_ip rq, command_of P rq)"
proof -
  let ?msg = "trim_suffix [newline] (rq_command rq)" and ?c = "command_of P rq"
  obtain n where E: "pe_role E = Leader" "pe_future E = Future_index n" "pe_dial E (rq_ip rq @ colon # cmd_ip ?c)"
    using assms(2) by (auto simp: committing_def)
  have d: "pb_unmarshal P ?msg = Inr ?c" "dash \<notin> set (cmd_ip ?c)" using assms(3) by (simp_all add: request_ok_def)
  let ?l = "\<lparr>log_index = n, log_data = ?msg\<rparr>"
  obtain m ans where k: "kv_spec (kv_view (sv_store sv)) (cmd_op ?c) (cmd_key ?c) (cmd_value ?c) = (m, ans)"
    by fastforce
  have st: "sv_store sv' = fst (kv_apply P G (sv_store sv) ?l)"
    using kv_server.handle_store(1) [OF assms(4)] kv_server.committed [OF E(1,2)] by simp
  obtain x where ret: "snd (kv_propose P G E (sv_store sv) ?msg (rq_ip rq)) = Ret x"
    using kv_server.handle_store(2) [OF assms(4)] by blast
  obtain r where "snd (kv_apply P G (sv_store sv) ?l) = Ret r"
    using kv_server.committed_ret [OF E(1,2) ret] by blast
  then obtain v where v: "ans = Some v"
    using kv_apply_response [OF assms(1), of P G ?l] d(1) k by (cases ans) (simp_all add: kv_result_def)
  have "snd (kv_propose P G E (sv_store sv) ?msg (rq_ip rq)) =
      Ret ([(rq_ip rq @ colon # cmd_ip ?c, ''OK: '' @ takeWhile (\<lambda>ch. ch \<noteq> dash) v @ [newline])], None)"
    using kv_propose_reply [OF assms(1) E(1,2) d(1) _ d(2) E(3), of m v G] k v by simp
  then have "sv_sent sv' = sv_sent sv @ [(rq_ip rq @ colon # cmd_ip ?c, ''OK: '' @ takeWhile (\<lambda>ch. ch \<noteq> dash) v @ [newline])]"
    using assms(4) by (cases "kv_propose P G E (sv_store sv) ?msg (rq_ip rq)") (auto simp: handleRequest_def)
  moreover have "kv_view (sv_store sv') = m" using kv_apply_view [OF assms(1), of P G ?l] d(1) k st by simp
  ultimately show ?thesis using kv_apply_inv [OF assms(1)] k v st by (simp add: kv_serve_one_def)
qed

lemma kv_run_serves:
  assumes "server_run (kv_propose P G) (newServer st fd) evs sv" and "kv_inv st"
    and "list_all committing evs" and "\<forall>(i, rq) \<in> set (handled evs). request_ok P rq"
  shows "kv_inv (sv_store sv) \<and> (sv_sent sv, kv_view (sv_store sv)) =
    kv_serve (kv_view st) (map (\<lambda>(i, rq). (rq_ip rq, command_of P rq)) (handled evs))"
  using assms
proof (induction "newServer st fd" evs sv rule: server_run.induct)
  case run_nil
  then show ?case by (simp add: handled_def newServer_def kv_serve_def)
next
  case (run_snoc evs sv' ev sv'')
  then have IH: "kv_inv (sv_store sv')" "(sv_sent sv', kv_view (sv_store sv')) =
      kv_serve (kv_view st) (map (\<lambda>(i, rq). (rq_ip rq, command_of P rq)) (handled evs))"
    by (simp_all add: handled_snoc)
  show ?case
    using run_snoc.hyps(3)
  proof (cases rule: server_step.cases)
    case (step_request i rq rqs E)
    let ?sv = "sv'\<lparr>sv_queues := (sv_queues sv')[i := rqs]\<rparr>"
    have "request_ok P rq" "committing (Ev_request i rq E)"
      using run_snoc.prems step_request(1) by (simp_all add: handled_snoc)
    with kv_handle_serves [of ?sv i rq E P G sv''] IH step_request show ?thesis
      by (simp add: handled_snoc kv_serve_snoc)
  qed (use IH in \<open>simp_all add: handled_snoc server_join_def server_tick_def\<close>)
qed

section \<open>Clients\<close>

text \<open>What a replica's connection carries from a client that broadcast its commands over fresh connections.\<close>

definition sent_stream :: "pb_codec \<Rightarrow> string \<Rightarrow> pb_command list \<Rightarrow> bytes \<Rightarrow> bool" where
  "sent_stream P udp cmds stream \<longleftrightarrow>
     (\<exists>ci cs ci' r d. ci_svrs ci = map Some cs \<and> (\<forall>d \<in> set cs. cn_err d = None \<and> cn_out d = []) \<and>
        client_sends P ci cmds udp = (ci', r) \<and> Some d \<in> set (ci_svrs ci') \<and> stream = cn_out d)"

definition client_joins :: "pb_codec \<Rightarrow> string \<times> pb_command list \<Rightarrow> string \<times> bytes \<Rightarrow> bool" where
  "client_joins P cl j =
     (case cl of (udp, cmds) \<Rightarrow> case j of (remote, stream) \<Rightarrow>
        dash \<notin> set udp \<and> (\<forall>c \<in> set cmds. sendable P udp c) \<and> sent_stream P udp cmds stream)"

lemma client_joins_session:
  assumes "client_joins P (udp, cmds) (remote, stream)"
  shows "session_read remote stream = map (request_for P udp remote) cmds"
proof -
  have a: "\<forall>c \<in> set cmds. sendable P udp c" using assms by (simp add: client_joins_def)
  obtain ci cs ci' r d where s: "ci_svrs ci = map Some cs" "\<forall>d \<in> set cs. cn_err d = None \<and> cn_out d = []"
    "client_sends P ci cmds udp = (ci', r)" "Some d \<in> set (ci_svrs ci')" "stream = cn_out d"
    using assms by (auto simp: client_joins_def sent_stream_def)
  then show ?thesis using client_sends_session [OF a s(1,2), of remote] by auto
qed

lemma command_of_request:
  assumes "sendable P udp c"
  shows "command_of P (request_for P udp remote c) = c\<lparr>cmd_ip := udp\<rparr>"
    and "dash \<notin> set udp \<Longrightarrow> request_ok P (request_for P udp remote c)"
  using request_decodes [OF assms, of remote] by (simp_all add: command_of_def request_ok_def)

text \<open>What the requests handled for a client are.\<close>

lemma handled_of_client:
  assumes "server_run (kv_propose P G) (newServer st fd) evs sv"
    and "list_all2 (client_joins P) clients (joins evs)" and "i < length clients"
  shows "\<exists>n. map snd (filter (\<lambda>h. fst h = i) (handled evs)) =
    map (request_for P (fst (clients ! i)) (fst (joins evs ! i))) (take n (snd (clients ! i)))"
proof -
  have i: "i < length (joins evs)" using list_all2_lengthD [OF assms(2)] assms(3) by simp
  obtain udp cmds where c: "clients ! i = (udp, cmds)" by fastforce
  obtain remote stream where j: "joins evs ! i = (remote, stream)" by fastforce
  have "client_joins P (udp, cmds) (remote, stream)" using list_all2_nthD [OF assms(2,3)] c j by simp
  then have "map snd (filter (\<lambda>h. fst h = i) (handled evs)) @ sv_queues sv ! i = map (request_for P udp remote) cmds"
    using kv_server.run_from_start [OF assms(1)] i j client_joins_session by fastforce
  then show ?thesis using append_eq_map_prefix(1) c j by fastforce
qed

lemma handled_request:
  assumes "server_run (kv_propose P G) (newServer st fd) evs sv"
    and "list_all2 (client_joins P) clients (joins evs)" and "(i, rq) \<in> set (handled evs)"
  shows "i < length clients \<and> request_ok P rq \<and> rq_ip rq = takeWhile (\<lambda>ch. ch \<noteq> colon) (fst (joins evs ! i))"
proof -
  have i: "i < length clients"
    using kv_server.run_from_start [OF assms(1)] assms(3) list_all2_lengthD [OF assms(2)] by fastforce
  obtain n where "map snd (filter (\<lambda>h. fst h = i) (handled evs)) =
      map (request_for P (fst (clients ! i)) (fst (joins evs ! i))) (take n (snd (clients ! i)))"
    using handled_of_client [OF assms(1,2) i] by blast
  moreover have "rq \<in> set (map snd (filter (\<lambda>h. fst h = i) (handled evs)))" using assms(3) by force
  ultimately obtain c where c: "c \<in> set (snd (clients ! i))"
    "rq = request_for P (fst (clients ! i)) (fst (joins evs ! i)) c" by (auto dest: in_set_takeD)
  have "client_joins P (clients ! i) (joins evs ! i)" by (rule list_all2_nthD [OF assms(2) i])
  then have "sendable P (fst (clients ! i)) c" "dash \<notin> set (fst (clients ! i))"
    using c(1) by (auto simp: client_joins_def split: prod.splits)
  with i c(2) command_of_request(2) show ?thesis by (simp add: request_for_def)
qed

text \<open>What replaying a command does depends on neither its identifier nor its address.\<close>

lemma install_cmd_stamp [simp]:
  "install_cmd (c\<lparr>cmd_ip := u, cmd_id := n\<rparr>) = install_cmd c"
  "install_cmd (c\<lparr>cmd_ip := u\<rparr>) = install_cmd c"
  by (rule ext, simp add: install_cmd_def split: pb_op.split)+

text \<open>The commands that a trace served, each with its session.\<close>

definition served_commands :: "pb_codec \<Rightarrow> sv_event list \<Rightarrow> (nat \<times> pb_command) list" where
  "served_commands P evs = map (\<lambda>(i, rq). (i, command_of P rq)) (handled evs)"

lemma handled_requests: "map snd (handled evs) = requests evs"
  by (induction evs) (simp_all add: handled_def requests_def split: sv_event.split)

text \<open>Any number of clients, through the goroutines of the replica that leads.\<close>

lemma process_linearizes:
  assumes "observed (process_step (\<lambda>closed. kv_propose P G) kv_exit) (process_init st fd) evs p"
    and "list_all2 (client_joins P) clients (joins evs)"
    and "list_all committing evs" and "kv_inv st"
  shows "\<forall>(i, rq) \<in> set (handled evs). i < length clients \<and> request_ok P rq"
    and "i < length clients \<Longrightarrow> prefix (map snd (filter (\<lambda>h. fst h = i) (served_commands P evs)))
       (map (\<lambda>c. c\<lparr>cmd_ip := fst (clients ! i)\<rparr>) (snd (clients ! i)))"
    and "(sv_sent (pc_server p), kv_view (sv_store (pc_server p))) =
      kv_serve (kv_view st) (map (\<lambda>(i, c). (takeWhile (\<lambda>ch. ch \<noteq> colon) (fst (joins evs ! i)), c)) (served_commands P evs))"
proof -
  obtain sv where run: "server_run (kv_propose P G) (newServer st fd) evs sv" and rel: "process_related p sv"
    using kv_process_run [OF assms(1)] by blast
  note req = handled_request [OF run assms(2)]
  then show "\<forall>(i, rq) \<in> set (handled evs). i < length clients \<and> request_ok P rq" by auto
  show "prefix (map snd (filter (\<lambda>h. fst h = i) (served_commands P evs))) (map (\<lambda>c. c\<lparr>cmd_ip := fst (clients ! i)\<rparr>) (snd (clients ! i)))"
    if i: "i < length clients"
  proof -
    let ?udp = "fst (clients ! i)" and ?remote = "fst (joins evs ! i)" and ?cmds = "snd (clients ! i)"
    obtain n where n: "map snd (filter (\<lambda>h. fst h = i) (handled evs)) = map (request_for P ?udp ?remote) (take n ?cmds)"
      using handled_of_client [OF run assms(2) i] by blast
    have "client_joins P (clients ! i) (joins evs ! i)" by (rule list_all2_nthD [OF assms(2) i])
    then have s: "\<forall>c \<in> set (take n ?cmds). sendable P ?udp c"
      by (auto simp: client_joins_def split: prod.splits dest: in_set_takeD)
    have "map snd (filter (\<lambda>h. fst h = i) (served_commands P evs)) =
        map (command_of P) (map snd (filter (\<lambda>h. fst h = i) (handled evs)))"
      unfolding served_commands_def by (induction "handled evs") (auto simp: filter_map comp_def split_beta)
    also have "\<dots> = map (\<lambda>c. c\<lparr>cmd_ip := ?udp\<rparr>) (take n ?cmds)"
      unfolding n using s by (simp add: command_of_request(1))
    finally show ?thesis by (simp only: map_mono_prefix [OF take_is_prefix])
  qed
  have "(sv_sent sv, kv_view (sv_store sv)) =
      kv_serve (kv_view st) (map (\<lambda>(i, rq). (rq_ip rq, command_of P rq)) (handled evs))"
    using kv_run_serves [OF run assms(4,3)] req by blast
  moreover have "map (\<lambda>(i, rq). (rq_ip rq, command_of P rq)) (handled evs) =
      map (\<lambda>(i, c). (takeWhile (\<lambda>ch. ch \<noteq> colon) (fst (joins evs ! i)), c)) (served_commands P evs)"
    using req by (auto simp: served_commands_def)
  moreover have "sv_sent (pc_server p) = sv_sent sv" "sv_store (pc_server p) = sv_store sv"
    using rel unfolding process_related_def by (metis server.select_convs server.surjective server.update_convs(1))+
  ultimately show "(sv_sent (pc_server p), kv_view (sv_store (pc_server p))) =
      kv_serve (kv_view st) (map (\<lambda>(i, c). (takeWhile (\<lambda>ch. ch \<noteq> colon) (fst (joins evs ! i)), c)) (served_commands P evs))"
    by simp
qed

text \<open>The map that serving leaves is that of replaying.\<close>

lemma kv_serve_installs: "snd (kv_serve m hs) = fold install_cmd (map snd hs) m"
proof (induction hs rule: rev_induct)
  case (snoc h hs)
  obtain host c where h: "h = (host, c)" by fastforce
  have "fst (kv_spec m' (cmd_op c) (cmd_key c) (cmd_value c)) = install_cmd c m'" for m'
    by (simp add: install_cmd_def split: pb_op.split)
  with snoc h show ?case
    by (auto simp: kv_serve_snoc kv_serve_one_def split: prod.splits option.splits) (metis fst_conv)+
qed (simp add: kv_serve_def)

lemma fold_install_log:
  "list_all2 (\<lambda>e c. pb_unmarshal P (log_data e) = Inr c) es cs \<Longrightarrow>
     fold install_cmd (stamped P es) m = fold install_cmd cs m"
proof (induction es cs arbitrary: m rule: list_all2_induct)
  case (Cons e es c cs)
  have "install_cmd (c\<lparr>cmd_id := log_index e\<rparr>) = install_cmd c"
    by (rule ext) (simp add: install_cmd_def)
  with Cons show ?case by simp
qed simp

end
