(* ===== verification/Replicated_Service.thy ===== *)
theory Replicated_Service
  imports Linearizable
begin

text \<open>
  The whole service: replicas, each a process with its goroutines, sessions and store, over the one log
  that Raft agrees on. Any replica may lead at any moment and leadership may move between two requests;
  the proposals of a replica that leads are committed, fail, or are committed although they failed; the
  others are fed what was committed; a replica whose \<open>Apply\<close> or reply panics is down.
\<close>

section \<open>Steps\<close>

record 'st service =
  se_log :: "raft_log list"
  se_node :: "nat \<Rightarrow> 'st process"
  se_applied :: "nat \<Rightarrow> nat"
  se_up :: "nat \<Rightarrow> bool"

text \<open>
  What is seen: an event of the server of a replica with the entries that it added to the log, a replica
  fed the next entry, a replica that what it was fed ended.
\<close>

datatype service_event = Took nat sv_event "raft_log list" | Fed nat | Died nat

definition service_init :: "(nat \<Rightarrow> 'st) \<Rightarrow> (nat \<Rightarrow> go_file option) \<Rightarrow> 'st service" where
  "service_init seed fds =
     \<lparr>se_log = [], se_node = (\<lambda>i. process_init (seed i) (fds i)), se_applied = (\<lambda>_. 0), se_up = (\<lambda>_. True)\<rparr>"

text \<open>\<open>Listen\<close> takes what the forwarder of a session holds.\<close>

definition node_take :: "'st process \<Rightarrow> nat \<Rightarrow> 'st process" where
  "node_take p k = p\<lparr>pc_sessions := (pc_sessions p)[k := (pc_sessions p ! k)\<lparr>ss_forward := F_select\<rparr>]\<rparr>"

text \<open>What an event gives to Raft: the message of a request that a leader takes, and what becomes of it.\<close>

definition message_of :: "request \<Rightarrow> bytes" where
  "message_of rq = trim_suffix [newline] (rq_command rq)"

definition proposed :: "sv_event \<Rightarrow> (bytes \<times> apply_future) option" where
  "proposed ev = (case ev of
       Ev_request k rq E \<Rightarrow> if pe_role E = Leader then Some (message_of rq, pe_future E) else None
     | _ \<Rightarrow> None)"

definition node_feed :: "'st process \<Rightarrow> 'st \<Rightarrow> 'st process" where
  "node_feed p s = p\<lparr>pc_server := (pc_server p)\<lparr>sv_store := s\<rparr>\<rparr>"

inductive service_step ::
  "(bool \<Rightarrow> propose_env \<Rightarrow> 'st \<Rightarrow> bytes \<Rightarrow> string \<Rightarrow> 'st \<times> (datagram list \<times> go_error option) outcome)
    \<Rightarrow> ('st \<Rightarrow> exit_action list) \<Rightarrow> ('st \<Rightarrow> raft_log \<Rightarrow> 'st \<times> fsm_response outcome)
    \<Rightarrow> 'st service \<Rightarrow> service_event option \<Rightarrow> 'st service \<Rightarrow> bool"
  for propose and plan and apply_entry where
  node_runs: "se_up S i \<Longrightarrow> process_step propose plan (se_node S i) None p \<Longrightarrow>
     service_step propose plan apply_entry S None (S\<lparr>se_node := (se_node S)(i := p)\<rparr>)"
| node_serves: "se_up S i \<Longrightarrow> process_step propose plan (se_node S i) (Some ev) p \<Longrightarrow> proposed ev = None \<Longrightarrow>
     service_step propose plan apply_entry S (Some (Took i ev [])) (S\<lparr>se_node := (se_node S)(i := p)\<rparr>)"
| node_commits: "se_up S i \<Longrightarrow> process_step propose plan (se_node S i) (Some ev) p \<Longrightarrow>
     proposed ev = Some (msg, Future_index n) \<Longrightarrow> se_applied S i = length (se_log S) \<Longrightarrow>
     service_step propose plan apply_entry S (Some (Took i ev [\<lparr>log_index = n, log_data = msg\<rparr>]))
       (S\<lparr>se_node := (se_node S)(i := p), se_log := se_log S @ [\<lparr>log_index = n, log_data = msg\<rparr>],
          se_applied := (se_applied S)(i := Suc (length (se_log S)))\<rparr>)"
| node_fails: "se_up S i \<Longrightarrow> process_step propose plan (se_node S i) (Some ev) p \<Longrightarrow>
     proposed ev = Some (msg, Future_error err) \<Longrightarrow> es = [] \<or> es = [\<lparr>log_index = n, log_data = msg\<rparr>] \<Longrightarrow>
     service_step propose plan apply_entry S (Some (Took i ev es))
       (S\<lparr>se_node := (se_node S)(i := p), se_log := se_log S @ es\<rparr>)"
| node_dies: "se_up S i \<Longrightarrow> pc_listening (se_node S i) \<Longrightarrow> k < length (pc_sessions (se_node S i)) \<Longrightarrow>
     ss_forward (pc_sessions (se_node S i) ! k) = F_sending rq \<Longrightarrow> \<not> pc_raft_down (se_node S i) \<Longrightarrow>
     pe_role E = Leader \<Longrightarrow> pe_future E = Future_index n \<Longrightarrow> se_applied S i = length (se_log S) \<Longrightarrow>
     snd (handleRequest (propose (pc_local_closed (se_node S i))) E (pc_server (se_node S i)) rq) \<noteq> Ret () \<Longrightarrow>
     service_step propose plan apply_entry S (Some (Took i (Ev_request k rq E) [\<lparr>log_index = n, log_data = message_of rq\<rparr>]))
       (S\<lparr>se_node := (se_node S)(i := node_take (se_node S i) k), se_log := se_log S @ [\<lparr>log_index = n, log_data = message_of rq\<rparr>], se_up := (se_up S)(i := False)\<rparr>)"
| node_fed: "se_up S i \<Longrightarrow> \<not> pc_raft_down (se_node S i) \<Longrightarrow> se_applied S i < length (se_log S) \<Longrightarrow>
     apply_entry (sv_store (pc_server (se_node S i))) (se_log S ! se_applied S i) = (s, Ret r) \<Longrightarrow>
     service_step propose plan apply_entry S (Some (Fed i))
       (S\<lparr>se_node := (se_node S)(i := node_feed (se_node S i) s),
          se_applied := (se_applied S)(i := Suc (se_applied S i))\<rparr>)"
| fed_dies: "se_up S i \<Longrightarrow> \<not> pc_raft_down (se_node S i) \<Longrightarrow> se_applied S i < length (se_log S) \<Longrightarrow>
     apply_entry (sv_store (pc_server (se_node S i))) (se_log S ! se_applied S i) = (s, out) \<Longrightarrow> \<forall>r. out \<noteq> Ret r \<Longrightarrow>
     service_step propose plan apply_entry S (Some (Died i)) (S\<lparr>se_up := (se_up S)(i := False)\<rparr>)"

inductive_cases service_step_cases: "service_step propose plan apply_entry S ev S'"

text \<open>What a trace shows of a replica, and the entries it added to the log.\<close>

definition events_at :: "nat \<Rightarrow> service_event list \<Rightarrow> sv_event list" where
  "events_at i trace = concat (map (\<lambda>t. case t of Took j ev es \<Rightarrow> if j = i then [ev] else [] | _ \<Rightarrow> []) trace)"

definition entries :: "service_event list \<Rightarrow> raft_log list" where
  "entries trace = concat (map (\<lambda>t. case t of Took i ev es \<Rightarrow> es | _ \<Rightarrow> []) trace)"

lemma events_at_snoc: "events_at i (trace @ [t]) =
     events_at i trace @ (case t of Took j ev es \<Rightarrow> if j = i then [ev] else [] | _ \<Rightarrow> [])"
  by (simp add: events_at_def)

lemma entries_snoc: "entries (trace @ [t]) =
     entries trace @ (case t of Took i ev es \<Rightarrow> es | _ \<Rightarrow> [])"
  by (simp add: entries_def)

section \<open>Stores follow the log\<close>

lemma silent_server:
  assumes "process_step propose plan p None p'"
  shows "pc_server p' = pc_server p"
  using assms
proof (cases rule: process_step.cases)
  case (exit_goes_on a as)
  then show ?thesis by (cases a) simp_all
qed simp_all

context proposer
begin

text \<open>What a step of a replica does to its store: nothing, unless it commits.\<close>

lemma process_store:
  assumes "process_step (\<lambda>closed. propose) plan p (Some ev) p'"
  shows "(proposed ev = None \<or> (\<exists>msg e. proposed ev = Some (msg, Future_error e)) \<longrightarrow>
      sv_store (pc_server p') = sv_store (pc_server p)) \<and>
    (\<forall>msg n. proposed ev = Some (msg, Future_index n) \<longrightarrow>
      (\<exists>r. apply_entry (sv_store (pc_server p)) \<lparr>log_index = n, log_data = msg\<rparr> = (sv_store (pc_server p'), Ret r)))"
  using assms
proof (cases rule: process_step.cases)
  case (listen_handles k rq E sv)
  note h = handle_store [OF listen_handles(7)]
  show ?thesis
  proof (cases "pe_role E = Leader")
    case False
    with listen_handles h(1) show ?thesis by (simp add: proposed_def not_leader)
  next
    case True
    show ?thesis
    proof (cases "pe_future E")
      case (Future_error e)
      with True listen_handles h(1) show ?thesis by (simp add: proposed_def future_error)
    next
      case (Future_index n)
      let ?e = "\<lparr>log_index = n, log_data = message_of rq\<rparr>"
      obtain r where "snd (apply_entry (sv_store (pc_server p)) ?e) = Ret r"
        using committed_ret [OF True Future_index] h(2) by (fastforce simp: message_of_def)
      moreover have "sv_store sv = fst (apply_entry (sv_store (pc_server p)) ?e)"
        using h(1) committed [OF True Future_index] by (simp add: message_of_def)
      ultimately have "apply_entry (sv_store (pc_server p)) ?e = (sv_store sv, Ret r)" by (metis prod.collapse)
      with True Future_index listen_handles show ?thesis by (auto simp: proposed_def)
    qed
  qed
qed (simp_all add: proposed_def server_tick_def)

definition node_follows :: "(nat \<Rightarrow> 'st) \<Rightarrow> 'st service \<Rightarrow> nat \<Rightarrow> bool" where
  "node_follows seed S i \<longleftrightarrow> se_applied S i \<le> length (se_log S) \<and>
     sv_store (pc_server (se_node S i)) = run_state apply_entry (seed i) (take (se_applied S i) (se_log S)) \<and>
     \<not> run_crashed apply_entry (seed i) (take (se_applied S i) (se_log S))"

lemma follows_next:
  assumes "node_follows seed S i" and "log = take (se_applied S i) (se_log S) @ e # es"
    and "apply_entry (sv_store (pc_server (se_node S i))) e = (s, Ret r)"
  shows "s = run_state apply_entry (seed i) (take (Suc (se_applied S i)) log) \<and>
    \<not> run_crashed apply_entry (seed i) (take (Suc (se_applied S i)) log)"
proof -
  have n: "length (take (se_applied S i) (se_log S)) = se_applied S i"
    using assms(1) by (simp add: node_follows_def)
  then have "take (Suc (se_applied S i)) log = take (se_applied S i) (se_log S) @ [e]"
    by (simp add: assms(2) take_append)
  then show ?thesis
    using assms(1,3) fsm_run_Cons_Ret [of apply_entry _ e s r "[]"]
    by (simp add: node_follows_def fsm_run_append split_beta Let_def)
qed

lemma service_step_follows:
  assumes "service_step (\<lambda>closed. propose) plan apply_entry S ev S'" and "node_follows seed S i"
  shows "node_follows seed S' i"
  using assms(1)
proof (cases rule: service_step.cases)
  case (node_runs j p)
  with assms(2) silent_server [OF node_runs(4)] show ?thesis by (auto simp: node_follows_def)
next
  case (node_serves j ev p)
  with assms(2) process_store [OF node_serves(4)] node_serves(5) show ?thesis by (auto simp: node_follows_def)
next
  case (node_commits j ev p msg n)
  show ?thesis
  proof (cases "j = i")
    case True
    let ?e = "\<lparr>log_index = n, log_data = msg\<rparr>"
    obtain r where "apply_entry (sv_store (pc_server (se_node S i))) ?e = (sv_store (pc_server p), Ret r)"
      using process_store [OF node_commits(4)] node_commits(5) True by blast
    from follows_next [OF assms(2) _ this, of "se_log S @ [?e]" "[]"] node_commits True show ?thesis
      by (simp add: node_follows_def)
  qed (use assms(2) node_commits in \<open>simp add: node_follows_def\<close>)
next
  case (node_fails j ev p msg err es n)
  with assms(2) process_store [OF node_fails(4)] node_fails(5) show ?thesis by (auto simp: node_follows_def)
next
  case (node_fed j s r)
  show ?thesis
  proof (cases "j = i")
    case True
    from follows_next [OF assms(2) _ node_fed(6) [unfolded True], of "se_log S" "drop (Suc (se_applied S i)) (se_log S)"]
      node_fed True show ?thesis
      by (simp add: node_follows_def node_feed_def id_take_nth_drop)
  qed (use assms(2) node_fed in \<open>simp add: node_follows_def\<close>)
qed (use assms(2) in \<open>auto simp: node_follows_def node_take_def\<close>)

lemma service_follows:
  assumes "observed (service_step (\<lambda>closed. propose) plan apply_entry) (service_init seed fds) trace S"
  shows "node_follows seed S i"
  using assms
proof (induction rule: observed.induct)
  case obs_start
  show ?case by (simp add: node_follows_def service_init_def process_init_def newServer_def)
qed (blast intro: service_step_follows)+

end

section \<open>Sessions keep their order\<close>

text \<open>What a replica took from a session, and then what the session holds, is the beginning of its stream.\<close>

definition sessions_ok :: "sv_event list \<Rightarrow> 'st process \<Rightarrow> bool" where
  "sessions_ok evs p \<longleftrightarrow> length (pc_sessions p) = length (joins evs) \<and>
     (\<forall>(k, rq) \<in> set (handled evs). k < length (joins evs)) \<and>
     (\<forall>k < length (joins evs).
        prefix (map snd (filter (\<lambda>h. fst h = k) (handled evs)) @ pending (pc_sessions p ! k))
          (session_read (fst (joins evs ! k)) (snd (joins evs ! k))))"

lemma nth_list_update_if: "(xs[i := x]) ! k = (if k = i \<and> i < length xs then x else xs ! k)"
  by (cases "i < length xs") (auto simp: list_update_beyond not_less)

lemma silent_sessions:
  assumes "process_step propose plan p None p'"
  shows "length (pc_sessions p') = length (pc_sessions p) \<and>
    (\<forall>k < length (pc_sessions p). prefix (pending (pc_sessions p' ! k)) (pending (pc_sessions p ! k)))"
  using assms
proof (cases rule: process_step.cases)
  case (session_runs i ss)
  then show ?thesis using session_step_pending by (auto simp: nth_list_update)
next
  case (exit_goes_on a as)
  then show ?thesis by (cases a) (auto simp: nth_list_update_if disconnect_pending)
qed simp_all

lemma sessions_ok_silent:
  assumes "process_step propose plan p None p'" and "sessions_ok evs p"
  shows "sessions_ok evs p'"
proof -
  note s = silent_sessions [OF assms(1)]
  have "prefix (map snd (filter (\<lambda>h. fst h = k) (handled evs)) @ pending (pc_sessions p' ! k))
      (session_read (fst (joins evs ! k)) (snd (joins evs ! k)))" if k: "k < length (joins evs)" for k
  proof (rule prefix_order.trans)
    show "prefix (map snd (filter (\<lambda>h. fst h = k) (handled evs)) @ pending (pc_sessions p' ! k))
        (map snd (filter (\<lambda>h. fst h = k) (handled evs)) @ pending (pc_sessions p ! k))"
      using s k assms(2) by (simp add: sessions_ok_def)
    show "prefix (map snd (filter (\<lambda>h. fst h = k) (handled evs)) @ pending (pc_sessions p ! k))
        (session_read (fst (joins evs ! k)) (snd (joins evs ! k)))"
      using k assms(2) by (simp add: sessions_ok_def)
  qed
  with s assms(2) show ?thesis by (simp add: sessions_ok_def)
qed

lemma sessions_ok_take:
  assumes "sessions_ok evs p" and "k < length (pc_sessions p)" and "ss_forward (pc_sessions p ! k) = F_sending rq"
  shows "sessions_ok (evs @ [Ev_request k rq E]) (node_take p k)"
  using assms(1,2) pending_taken [OF assms(3)]
  by (auto simp: sessions_ok_def node_take_def joins_snoc handled_snoc nth_list_update)

lemma sessions_ok_visible:
  assumes "process_step propose plan p (Some ev) p'" and ok: "sessions_ok evs p"
  shows "sessions_ok (evs @ [ev]) p'"
  using assms(1)
proof (cases rule: process_step.cases)
  case (listen_joins remote stream e)
  have "filter (\<lambda>h. fst h = length (joins evs)) (handled evs) = []"
    using ok by (fastforce simp: sessions_ok_def filter_empty_conv)
  with ok listen_joins show ?thesis
    by (auto simp: sessions_ok_def joins_snoc handled_snoc nth_append pending_new less_Suc_eq)
next
  case (listen_handles i rq E sv)
  with sessions_ok_take [OF ok listen_handles(4,5), of E] show ?thesis
    by (simp add: sessions_ok_def node_take_def)
next
  case monitor_ticks
  with ok show ?thesis by (simp add: sessions_ok_def joins_snoc handled_snoc)
qed

lemma service_sessions:
  assumes "observed (service_step propose plan apply_entry) (service_init seed fds) trace S"
  shows "sessions_ok (events_at i trace) (se_node S i)"
  using assms
proof (induction rule: observed.induct)
  case obs_start
  show ?case by (simp add: sessions_ok_def service_init_def process_init_def events_at_def joins_def handled_def)
next
  case (obs_silent trace S S')
  from obs_silent.hyps(2) show ?case
    by (cases rule: service_step.cases) (use obs_silent.IH sessions_ok_silent in auto)
next
  case (obs_visible trace S t S')
  from obs_visible.hyps(2) show ?case
  proof (cases rule: service_step.cases)
    case (node_fed j s r)
    with obs_visible.IH show ?thesis by (auto simp: events_at_snoc sessions_ok_def node_feed_def)
  next
    case (node_dies j k rq E n)
    with obs_visible.IH sessions_ok_take [OF _ node_dies(5,6)] show ?thesis by (auto simp: events_at_snoc)
  qed (use obs_visible.IH sessions_ok_visible in \<open>auto simp: events_at_snoc\<close>)
qed

text \<open>The log is what the events added to it.\<close>

lemma service_entries:
  assumes "observed (service_step propose plan apply_entry) (service_init seed fds) trace S"
  shows "se_log S = entries trace"
  using assms
proof (induction rule: observed.induct)
  case obs_start
  show ?case by (simp add: service_init_def entries_def)
next
  case (obs_silent trace S S')
  from obs_silent.hyps(2) show ?case
    by (cases rule: service_step.cases) (use obs_silent.IH in simp_all)
next
  case (obs_visible trace S t S')
  from obs_visible.hyps(2) show ?case
    by (cases rule: service_step.cases) (use obs_visible.IH in \<open>simp_all add: entries_snoc\<close>)
qed

section \<open>A replica that leads all the time\<close>

lemma service_up:
  assumes "service_step propose plan apply_entry S ev S'" and "se_up S' i"
  shows "se_up S i"
  using assms by (cases rule: service_step.cases) (auto split: if_splits)

text \<open>A trace in which \<open>l\<close> commits whatever it takes and no other replica leads.\<close>

definition led_by :: "nat \<Rightarrow> service_event list \<Rightarrow> bool" where
  "led_by l trace \<longleftrightarrow> (\<forall>t \<in> set trace. case t of
       Took i ev es \<Rightarrow> if i = l then committing ev else proposed ev = None
     | _ \<Rightarrow> True)"

lemma committing_proposed: "committing ev \<Longrightarrow> proposed ev = Some (msg, f) \<Longrightarrow> \<exists>n. f = Future_index n"
  by (auto simp: committing_def proposed_def split: sv_event.splits if_splits)

lemma led_events: "led_by l trace \<Longrightarrow> list_all committing (events_at l trace)"
  by (induction trace) (auto simp: led_by_def events_at_def split: service_event.splits)

text \<open>It has applied the whole log, so it is never fed, and it does what its process alone would do.\<close>

lemma leader_run:
  assumes "observed (service_step propose plan apply_entry) (service_init seed fds) trace S"
    and "led_by l trace" and "se_up S l"
  shows "se_applied S l = length (se_log S) \<and>
    observed (process_step propose plan) (process_init (seed l) (fds l)) (events_at l trace) (se_node S l)"
  using assms
proof (induction rule: observed.induct)
  case obs_start
  show ?case by (simp add: service_init_def events_at_def observed.obs_start)
next
  case (obs_silent trace S S')
  have IH: "se_applied S l = length (se_log S)"
    "observed (process_step propose plan) (process_init (seed l) (fds l)) (events_at l trace) (se_node S l)"
    using obs_silent.IH [OF obs_silent.prems(1) service_up [OF obs_silent.hyps(2) obs_silent.prems(2)]] by simp_all
  from obs_silent.hyps(2) show ?case
    by (cases rule: service_step.cases) (use IH in \<open>auto intro: observed.obs_silent\<close>)
next
  case (obs_visible trace S t S')
  have led: "led_by l trace" "case t of Took i ev es \<Rightarrow> if i = l then committing ev else proposed ev = None | _ \<Rightarrow> True"
    using obs_visible.prems(1) by (simp_all add: led_by_def)
  have IH: "se_applied S l = length (se_log S)"
    "observed (process_step propose plan) (process_init (seed l) (fds l)) (events_at l trace) (se_node S l)"
    using obs_visible.IH [OF led(1) service_up [OF obs_visible.hyps(2) obs_visible.prems(2)]] by simp_all
  from obs_visible.hyps(2) show ?case
  proof (cases rule: service_step.cases)
    case (node_fails i ev p msg err es n)
    with led(2) committing_proposed [of ev msg] show ?thesis by (auto split: if_splits)
  next
    case (node_dies i k rq E n)
    with led(2) obs_visible.prems(2) show ?thesis by (auto simp: proposed_def split: if_splits)
  qed (use IH led(2) obs_visible.prems(2) in \<open>auto simp: events_at_snoc intro: observed.obs_visible split: if_splits\<close>)
qed

text \<open>What it added to the log are the messages of the requests it took.\<close>

lemma committed_messages:
  assumes "service_step propose plan apply_entry S (Some (Took i ev es)) S'" and "committing ev"
  shows "map log_data es = map message_of (requests [ev])"
  using assms(1)
proof (cases rule: service_step.cases)
  case (node_fails p msg err n)
  with assms(2) committing_proposed [of ev msg] show ?thesis by blast
qed (use assms(2) in \<open>auto simp: proposed_def committing_def requests_def split: sv_event.splits if_splits\<close>)

lemma unproposed_nothing:
  "service_step propose plan apply_entry S (Some (Took i ev es)) S' \<Longrightarrow> proposed ev = None \<Longrightarrow> es = []"
  by (cases rule: service_step.cases) (auto simp: proposed_def)

lemma leader_log:
  assumes "observed (service_step propose plan apply_entry) (service_init seed fds) trace S" and "led_by l trace"
  shows "map log_data (entries trace) = map message_of (requests (events_at l trace))"
  using assms
proof (induction rule: observed.induct)
  case (obs_visible trace S t S')
  have IH: "map log_data (entries trace) = map message_of (requests (events_at l trace))"
    using obs_visible.IH obs_visible.prems by (simp add: led_by_def)
  show ?case
  proof (cases t)
    case (Took i ev es)
    have step: "service_step propose plan apply_entry S (Some (Took i ev es)) S'" using obs_visible.hyps(2) Took by simp
    show ?thesis
    proof (cases "i = l")
      case True
      then have "committing ev" using obs_visible.prems Took by (auto simp: led_by_def)
      from IH committed_messages [OF step this] Took True show ?thesis
        by (simp add: entries_snoc events_at_snoc requests_def)
    next
      case False
      then have "proposed ev = None" using obs_visible.prems Took by (auto simp: led_by_def)
      from IH unproposed_nothing [OF step this] Took False show ?thesis
        by (simp add: entries_snoc events_at_snoc)
    qed
  qed (use IH in \<open>simp_all add: entries_snoc events_at_snoc\<close>)
qed (simp_all add: entries_def events_at_def requests_def)

text \<open>A replica that never leads answers nobody.\<close>

lemma follower_silent:
  assumes "process_step (\<lambda>closed. kv_propose P G) plan p (Some ev) p'" and "proposed ev = None"
  shows "sv_sent (pc_server p') = sv_sent (pc_server p)"
  using assms(1)
proof (cases rule: process_step.cases)
  case (listen_handles k rq E sv)
  then have "pe_role E \<noteq> Leader" using assms(2) by (auto simp: proposed_def)
  with listen_handles kv_server.handle_follower [OF this] show ?thesis by auto
qed (simp_all add: server_tick_def)

lemma followers_silent:
  assumes "observed (service_step (\<lambda>closed. kv_propose P G) plan apply_entry) (service_init seed fds) trace S"
    and "led_by l trace" and "j \<noteq> l"
  shows "sv_sent (pc_server (se_node S j)) = []"
  using assms(1,2)
proof (induction rule: observed.induct)
  case obs_start
  show ?case by (simp add: service_init_def process_init_def newServer_def)
next
  case (obs_silent trace S S')
  from obs_silent.hyps(2) show ?case
    by (cases rule: service_step.cases) (use obs_silent.IH [OF obs_silent.prems] silent_server in fastforce)
next
  case (obs_visible trace S t S')
  have led: "led_by l trace" "case t of Took i ev es \<Rightarrow> if i = l then committing ev else proposed ev = None | _ \<Rightarrow> True"
    using obs_visible.prems by (simp_all add: led_by_def)
  note IH = obs_visible.IH [OF led(1)]
  from obs_visible.hyps(2) show ?case
    by (cases rule: service_step.cases)
       (use IH led(2) assms(3) follower_silent in \<open>auto simp: node_feed_def node_take_def split: if_splits\<close>)
qed

section \<open>Runs\<close>

text \<open>Processes that run and wait, with sessions from which nothing was read yet, or of which nothing is known.\<close>

definition idle_process :: "'st server \<Rightarrow> conn_session list \<Rightarrow> 'st process" where
  "idle_process sv ss =
     \<lparr>pc_server = sv, pc_sessions = ss, pc_accepted = None, pc_cancelled = False, pc_listening = True,
      pc_monitoring = True, pc_exit = None, pc_local_closed = False, pc_log_closed = False, pc_raft_down = False\<rparr>"

lemma idle_init: "process_init st fd = idle_process (newServer st fd) []"
  by (simp add: idle_process_def process_init_def)

lemma idle_process_simps [simp]:
  "pc_server (idle_process sv ss) = sv" "pc_sessions (idle_process sv ss) = ss"
  "pc_listening (idle_process sv ss)" "\<not> pc_cancelled (idle_process sv ss)"
  "\<not> pc_raft_down (idle_process sv ss)" "\<not> pc_local_closed (idle_process sv ss)"
  "node_feed (idle_process sv ss) s = idle_process (sv\<lparr>sv_store := s\<rparr>) ss"
  "(idle_process sv ss)\<lparr>pc_sessions := ss'\<rparr> = idle_process sv ss'"
  "(idle_process sv ss)\<lparr>pc_server := sv'\<rparr> = idle_process sv' ss"
  "idle_process sv ss = idle_process sv' ss' \<longleftrightarrow> sv = sv' \<and> ss = ss'"
  by (simp_all add: idle_process_def node_feed_def)

definition unread :: "(string \<times> bytes) option \<Rightarrow> conn_session \<Rightarrow> bool" where
  "unread x ss \<longleftrightarrow> (\<forall>r s. x = Some (r, s) \<longrightarrow> ss = newSession r s End_eof)"

definition service_at :: "pb_codec \<Rightarrow> gz_lib \<Rightarrow> (nat \<Rightarrow> kv_store) \<Rightarrow> (nat \<Rightarrow> go_file option) \<Rightarrow> service_event list
    \<Rightarrow> raft_log list \<Rightarrow> (nat \<Rightarrow> datagram list) \<Rightarrow> (nat \<Rightarrow> (string \<times> bytes) option list) \<Rightarrow> (nat \<Rightarrow> nat) \<Rightarrow> bool" where
  "service_at P G seed fds trace L sent xs as \<longleftrightarrow>
     (\<exists>S. observed (service_step (\<lambda>closed. kv_propose P G) kv_exit (kv_apply P G)) (service_init seed fds) trace S \<and>
        se_log S = L \<and> (\<forall>i. se_up S i \<and> se_applied S i = as i \<and>
          (\<exists>sv ss. se_node S i = idle_process sv ss \<and> list_all2 unread (xs i) ss \<and>
             kv_inv (sv_store sv) \<and> sv_sent sv = sent i)))"

lemma at_init: "\<forall>i. kv_inv (seed i) \<Longrightarrow> service_at P G seed fds [] [] (\<lambda>_. []) (\<lambda>_. []) (\<lambda>_. 0)"
  unfolding service_at_def
  by (intro exI [of _ "service_init seed fds"] conjI observed.obs_start)
     (auto simp: service_init_def idle_init newServer_def)

text \<open>Silent steps of one replica are steps of the service.\<close>

lemma observed_node_silent:
  assumes "observed (service_step propose plan apply_entry) S0 trace S" and "se_up S i"
    and "observed (process_step propose plan) (se_node S i) [] p"
  shows "observed (service_step propose plan apply_entry) S0 trace (S\<lparr>se_node := (se_node S)(i := p)\<rparr>)"
  using assms(3)
proof (induction "[] :: sv_event list" p rule: observed.induct)
  case obs_start
  then show ?case using assms(1) by simp
next
  case (obs_silent p p')
  let ?S = "S\<lparr>se_node := (se_node S)(i := p)\<rparr>"
  have "service_step propose plan apply_entry ?S None (?S\<lparr>se_node := (se_node ?S)(i := p')\<rparr>)"
    by (rule node_runs) (use assms(2) obs_silent.hyps in simp_all)
  from observed.obs_silent [where cstep = "service_step propose plan apply_entry", OF obs_silent.hyps(2) this] show ?case by simp
qed simp

lemma observed_node_visible:
  assumes "observed (service_step propose plan apply_entry) S0 trace S" and "se_up S i"
    and "observed (process_step propose plan) (se_node S i) [] p"
    and "service_step propose plan apply_entry (S\<lparr>se_node := (se_node S)(i := p)\<rparr>) (Some t) S'"
  shows "observed (service_step propose plan apply_entry) S0 (trace @ [t]) S'"
  by (rule observed.obs_visible [OF observed_node_silent [OF assms(1-3)] assms(4)])

text \<open>A client joins a replica; what a forwarder comes to hold.\<close>

lemma idle_accepts:
  "observed (process_step propose plan) (idle_process sv ss) []
     ((idle_process sv ss)\<lparr>pc_accepted := Some (r, s, End_eof)\<rparr>)"
  by (rule obs_silent [OF obs_start]) (rule main_accepts, simp add: idle_process_def)

lemma idle_joins:
  "process_step propose plan ((idle_process sv ss)\<lparr>pc_accepted := Some (r, s, End_eof)\<rparr>) (Some (Ev_join r s))
     (idle_process (sv\<lparr>sv_writers := sv_writers sv @ [\<lparr>bw_buf = [], bw_out = []\<rparr>]\<rparr>) (ss @ [newSession r s End_eof]))"
  using listen_joins [of "(idle_process sv ss)\<lparr>pc_accepted := Some (r, s, End_eof)\<rparr>" r s End_eof propose plan]
  by (simp add: idle_process_def)

lemma idle_takes:
  assumes "k < length ss" and "ss ! k = newSession r s End_eof" and "session_read r s = rq # rqs"
    and "handleRequest (propose False) E sv rq = (sv', Ret ())"
  shows "\<exists>x. observed (process_step propose plan) (idle_process sv ss) [] (idle_process sv (ss[k := x])) \<and>
    process_step propose plan (idle_process sv (ss[k := x])) (Some (Ev_request k rq E))
      (idle_process sv' (ss[k := x\<lparr>ss_forward := F_select\<rparr>]))"
proof -
  obtain x where x: "(session_step False)\<^sup>*\<^sup>* (ss ! k) x" "ss_forward x = F_sending rq"
    using reader_reaches [of "ss ! k" rq rqs False] assms(2,3) by (auto simp: newSession_def)
  have "observed (process_step propose plan) (idle_process sv ss) [] (idle_process sv (ss[k := x]))"
    using observed_session_star [of "idle_process sv ss" k x propose plan] x(1) assms(1) by simp
  moreover have "process_step propose plan (idle_process sv (ss[k := x])) (Some (Ev_request k rq E))
      (idle_process sv' (ss[k := x\<lparr>ss_forward := F_select\<rparr>]))"
    using listen_handles [of "idle_process sv (ss[k := x])" k rq E propose sv' plan] x(2) assms(1,4) by simp
  ultimately show ?thesis by blast
qed

text \<open>The leader commits a SET and answers it; another replica drops it; and is fed it.\<close>

definition leader_env :: "64 word \<Rightarrow> propose_env" where
  "leader_env n = \<lparr>pe_role = Leader, pe_future = Future_index n, pe_dial = (\<lambda>_. True)\<rparr>"

definition follower_env :: propose_env where
  "follower_env = \<lparr>pe_role = Follower, pe_future = Future_index 0, pe_dial = (\<lambda>_. True)\<rparr>"

lemma kv_handles_set:
  assumes "kv_inv (sv_store sv)" and "request_ok P rq" and "cmd_op (command_of P rq) = Command_SET"
  shows "\<exists>sv'. handleRequest (kv_propose P G) (leader_env n) sv rq = (sv', Ret ()) \<and> kv_inv (sv_store sv') \<and>
    sv_sent sv' = sv_sent sv @ [(rq_ip rq @ colon # cmd_ip (command_of P rq), ''OK: '' @ [newline])]"
proof -
  let ?E = "leader_env n" and ?c = "command_of P rq"
  have E: "pe_role ?E = Leader" "pe_future ?E = Future_index n" "committing (Ev_request 0 rq ?E)"
    by (simp_all add: leader_env_def committing_def)
  have "snd (kv_propose P G ?E (sv_store sv) (message_of rq) (rq_ip rq)) =
      Ret ([(rq_ip rq @ colon # cmd_ip ?c, ''OK: '' @ takeWhile (\<lambda>ch. ch \<noteq> dash) [] @ [newline])], None)"
    by (rule kv_propose_reply [OF assms(1) E(1,2), of P _ ?c "(kv_view (sv_store sv))(cmd_key ?c \<mapsto> cmd_value ?c)"])
       (use assms(2,3) in \<open>simp_all add: request_ok_def message_of_def leader_env_def\<close>)
  then obtain st where "kv_propose P G ?E (sv_store sv) (message_of rq) (rq_ip rq) =
      (st, Ret ([(rq_ip rq @ colon # cmd_ip ?c, ''OK: '' @ [newline])], None))"
    by (cases "kv_propose P G ?E (sv_store sv) (message_of rq) (rq_ip rq)") simp
  then obtain sv' where h: "handleRequest (kv_propose P G) ?E sv rq = (sv', Ret ())"
    and sent: "sv_sent sv' = sv_sent sv @ [(rq_ip rq @ colon # cmd_ip ?c, ''OK: '' @ [newline])]"
    by (simp add: handleRequest_def message_of_def)
  with kv_handle_serves [OF assms(1) E(3) assms(2) h] show ?thesis by blast
qed

lemma at_node:
  assumes "service_at P G seed fds trace L sent xs as"
  obtains S sv ss where
    "observed (service_step (\<lambda>closed. kv_propose P G) kv_exit (kv_apply P G)) (service_init seed fds) trace S" "se_log S = L"
    "\<forall>j. se_up S j \<and> se_applied S j = as j \<and>
        (\<exists>sv ss. se_node S j = idle_process sv ss \<and> list_all2 unread (xs j) ss \<and> kv_inv (sv_store sv) \<and> sv_sent sv = sent j)"
    "se_node S i = idle_process sv ss" "list_all2 unread (xs i) ss" "kv_inv (sv_store sv)" "sv_sent sv = sent i"
  using assms unfolding service_at_def by blast

lemma at_join:
  assumes a: "service_at P G seed fds trace L sent xs as"
  shows "service_at P G seed fds (trace @ [Took i (Ev_join r s) []]) L sent (xs(i := xs i @ [Some (r, s)])) as"
proof -
  let ?step = "service_step (\<lambda>closed. kv_propose P G) kv_exit (kv_apply P G)"
  obtain S sv ss where S: "observed ?step (service_init seed fds) trace S" "se_log S = L"
    and n: "\<forall>j. se_up S j \<and> se_applied S j = as j \<and>
        (\<exists>sv ss. se_node S j = idle_process sv ss \<and> list_all2 unread (xs j) ss \<and> kv_inv (sv_store sv) \<and> sv_sent sv = sent j)"
    and i: "se_node S i = idle_process sv ss" "list_all2 unread (xs i) ss" "kv_inv (sv_store sv)" "sv_sent sv = sent i"
    by (rule at_node [OF a])
  let ?p = "(idle_process sv ss)\<lparr>pc_accepted := Some (r, s, End_eof)\<rparr>"
  let ?sv = "sv\<lparr>sv_writers := sv_writers sv @ [\<lparr>bw_buf = [], bw_out = []\<rparr>]\<rparr>" and ?ss = "ss @ [newSession r s End_eof]"
  let ?S = "S\<lparr>se_node := (se_node S)(i := idle_process ?sv ?ss)\<rparr>"
  have "?step (S\<lparr>se_node := (se_node S)(i := ?p)\<rparr>) (Some (Took i (Ev_join r s) [])) ?S"
    using node_serves [of "S\<lparr>se_node := (se_node S)(i := ?p)\<rparr>" i _ _ "Ev_join r s", OF _ _ ] n idle_joins
    by (fastforce simp: proposed_def)
  from observed_node_visible [OF S(1) _ _ this] n i(1)
  have "observed ?step (service_init seed fds) (trace @ [Took i (Ev_join r s) []]) ?S" by (simp add: idle_accepts)
  moreover have "list_all2 unread (xs i @ [Some (r, s)]) ?ss"
    using i(2) by (intro list_all2_appendI) (simp_all add: unread_def)
  ultimately show ?thesis
    unfolding service_at_def using S(2) n i by (intro exI [of _ ?S]) auto
qed

lemma at_commit:
  assumes a: "service_at P G seed fds trace L sent xs as" and len: "as i = length L"
    and k: "k < length (xs i)" "xs i ! k = Some (r, s)" "session_read r s = rq # rqs"
    and rq: "request_ok P rq" "cmd_op (command_of P rq) = Command_SET"
    and e: "e = \<lparr>log_index = m, log_data = message_of rq\<rparr>"
  shows "service_at P G seed fds (trace @ [Took i (Ev_request k rq (leader_env m)) [e]]) (L @ [e])
    (sent(i := sent i @ [(rq_ip rq @ colon # cmd_ip (command_of P rq), ''OK: '' @ [newline])]))
    (xs(i := (xs i)[k := None])) (as(i := Suc (length L)))"
proof -
  let ?step = "service_step (\<lambda>closed. kv_propose P G) kv_exit (kv_apply P G)" and ?ev = "Ev_request k rq (leader_env m)"
  obtain S sv ss where S: "observed ?step (service_init seed fds) trace S" "se_log S = L"
    and n: "\<forall>j. se_up S j \<and> se_applied S j = as j \<and>
        (\<exists>sv ss. se_node S j = idle_process sv ss \<and> list_all2 unread (xs j) ss \<and> kv_inv (sv_store sv) \<and> sv_sent sv = sent j)"
    and i: "se_node S i = idle_process sv ss" "list_all2 unread (xs i) ss" "kv_inv (sv_store sv)" "sv_sent sv = sent i"
    by (rule at_node [OF a])
  obtain sv' where h: "handleRequest (kv_propose P G) (leader_env m) sv rq = (sv', Ret ())" "kv_inv (sv_store sv')"
    "sv_sent sv' = sv_sent sv @ [(rq_ip rq @ colon # cmd_ip (command_of P rq), ''OK: '' @ [newline])]"
    using kv_handles_set [OF i(3) rq] by blast
  have "k < length ss" "ss ! k = newSession r s End_eof"
    using list_all2_nthD [OF i(2) k(1)] list_all2_lengthD [OF i(2)] k(1,2) by (simp_all add: unread_def)
  from idle_takes [OF this k(3), of "\<lambda>closed. kv_propose P G", OF h(1), of kv_exit] obtain x where
    x: "observed (process_step (\<lambda>closed. kv_propose P G) kv_exit) (idle_process sv ss) [] (idle_process sv (ss[k := x]))"
      "process_step (\<lambda>closed. kv_propose P G) kv_exit (idle_process sv (ss[k := x])) (Some ?ev)
        (idle_process sv' (ss[k := x\<lparr>ss_forward := F_select\<rparr>]))" by blast
  let ?S1 = "S\<lparr>se_node := (se_node S)(i := idle_process sv (ss[k := x]))\<rparr>"
  let ?S' = "S\<lparr>se_node := (se_node S)(i := idle_process sv' (ss[k := x\<lparr>ss_forward := F_select\<rparr>])),
      se_log := L @ [e], se_applied := (se_applied S)(i := Suc (length L))\<rparr>"
  have "?step ?S1 (Some (Took i ?ev [e])) ?S'"
    using node_commits [of ?S1 i "\<lambda>closed. kv_propose P G" kv_exit ?ev "idle_process sv' (ss[k := x\<lparr>ss_forward := F_select\<rparr>])"
        "message_of rq" m "kv_apply P G"] n x(2) S(2) len
    by (simp add: proposed_def leader_env_def e)
  from observed_node_visible [OF S(1) _ _ this] n i(1) x(1)
  have "observed ?step (service_init seed fds) (trace @ [Took i ?ev [e]]) ?S'" by simp
  moreover have "list_all2 unread ((xs i)[k := None]) (ss[k := x\<lparr>ss_forward := F_select\<rparr>])"
    by (rule list_all2_update_cong [OF i(2)]) (simp add: unread_def)
  ultimately show ?thesis
    unfolding service_at_def using n i h by (intro exI [of _ ?S']) auto
qed

lemma at_drop:
  assumes a: "service_at P G seed fds trace L sent xs as"
    and k: "k < length (xs i)" "xs i ! k = Some (r, s)" "session_read r s = rq # rqs"
  shows "service_at P G seed fds (trace @ [Took i (Ev_request k rq follower_env) []]) L sent
    (xs(i := (xs i)[k := None])) as"
proof -
  let ?step = "service_step (\<lambda>closed. kv_propose P G) kv_exit (kv_apply P G)" and ?ev = "Ev_request k rq follower_env"
  obtain S sv ss where S: "observed ?step (service_init seed fds) trace S" "se_log S = L"
    and n: "\<forall>j. se_up S j \<and> se_applied S j = as j \<and>
        (\<exists>sv ss. se_node S j = idle_process sv ss \<and> list_all2 unread (xs j) ss \<and> kv_inv (sv_store sv) \<and> sv_sent sv = sent j)"
    and i: "se_node S i = idle_process sv ss" "list_all2 unread (xs i) ss" "kv_inv (sv_store sv)" "sv_sent sv = sent i"
    by (rule at_node [OF a])
  let ?sv' = "sv\<lparr>sv_req := sv_req sv + 1\<rparr>"
  have h: "handleRequest (kv_propose P G) follower_env sv rq = (?sv', Ret ())"
    by (rule kv_server.handle_follower) (simp add: follower_env_def)
  have "k < length ss" "ss ! k = newSession r s End_eof"
    using list_all2_nthD [OF i(2) k(1)] list_all2_lengthD [OF i(2)] k(1,2) by (simp_all add: unread_def)
  from idle_takes [OF this k(3), of "\<lambda>closed. kv_propose P G", OF h, of kv_exit] obtain x where
    x: "observed (process_step (\<lambda>closed. kv_propose P G) kv_exit) (idle_process sv ss) [] (idle_process sv (ss[k := x]))"
      "process_step (\<lambda>closed. kv_propose P G) kv_exit (idle_process sv (ss[k := x])) (Some ?ev)
        (idle_process ?sv' (ss[k := x\<lparr>ss_forward := F_select\<rparr>]))" by blast
  let ?S1 = "S\<lparr>se_node := (se_node S)(i := idle_process sv (ss[k := x]))\<rparr>"
  let ?S' = "S\<lparr>se_node := (se_node S)(i := idle_process ?sv' (ss[k := x\<lparr>ss_forward := F_select\<rparr>]))\<rparr>"
  have "?step ?S1 (Some (Took i ?ev [])) ?S'"
    using node_serves [of ?S1 i "\<lambda>closed. kv_propose P G" kv_exit ?ev "idle_process ?sv' (ss[k := x\<lparr>ss_forward := F_select\<rparr>])"
        "kv_apply P G"] n x(2)
    by (simp add: proposed_def follower_env_def)
  from observed_node_visible [OF S(1) _ _ this] n i(1) x(1)
  have "observed ?step (service_init seed fds) (trace @ [Took i ?ev []]) ?S'" by simp
  moreover have "list_all2 unread ((xs i)[k := None]) (ss[k := x\<lparr>ss_forward := F_select\<rparr>])"
    by (rule list_all2_update_cong [OF i(2)]) (simp add: unread_def)
  ultimately show ?thesis
    unfolding service_at_def using S(2) n i by (intro exI [of _ ?S']) auto
qed

lemma at_fed:
  assumes a: "service_at P G seed fds trace L sent xs as" and len: "as i < length L"
    and c: "pb_unmarshal P (log_data (L ! as i)) = Inr c" "cmd_op c = Command_SET"
  shows "service_at P G seed fds (trace @ [Fed i]) L sent xs (as(i := Suc (as i)))"
proof -
  let ?step = "service_step (\<lambda>closed. kv_propose P G) kv_exit (kv_apply P G)"
  obtain S sv ss where S: "observed ?step (service_init seed fds) trace S" "se_log S = L"
    and n: "\<forall>j. se_up S j \<and> se_applied S j = as j \<and>
        (\<exists>sv ss. se_node S j = idle_process sv ss \<and> list_all2 unread (xs j) ss \<and> kv_inv (sv_store sv) \<and> sv_sent sv = sent j)"
    and i: "se_node S i = idle_process sv ss" "list_all2 unread (xs i) ss" "kv_inv (sv_store sv)" "sv_sent sv = sent i"
    by (rule at_node [OF a])
  obtain r where "snd (kv_apply P G (sv_store sv) (L ! as i)) = Ret r"
    using kv_apply_response [OF i(3)] c by (simp add: kv_result_def)
  then obtain st where st: "kv_apply P G (sv_store sv) (L ! as i) = (st, Ret r)" by (metis prod.collapse)
  let ?S' = "S\<lparr>se_node := (se_node S)(i := idle_process (sv\<lparr>sv_store := st\<rparr>) ss),
      se_applied := (se_applied S)(i := Suc (as i))\<rparr>"
  have "?step S (Some (Fed i)) ?S'"
    using node_fed [of S i "kv_apply P G" st r "\<lambda>closed. kv_propose P G" kv_exit] n S(2) st i(1) len by simp
  with S(1) have "observed ?step (service_init seed fds) (trace @ [Fed i]) ?S'" by (rule observed.obs_visible)
  moreover have "kv_inv st" using kv_apply_inv [OF i(3), of P G "L ! as i"] st by simp
  ultimately show ?thesis
    unfolding service_at_def using S(2) n i by (intro exI [of _ ?S']) auto
qed

text \<open>What two replicas have, and all the others.\<close>

definition two :: "'a \<Rightarrow> 'a \<Rightarrow> 'a \<Rightarrow> nat \<Rightarrow> 'a" where
  "two a b d = (\<lambda>_. d)(0 := a, 1 := b)"

lemma two_simps [simp]:
  "two a b d 0 = a" "two a b d (Suc 0) = b"
  "(two a b d)(0 := x) = two x b d" "(two a b d)(Suc 0 := x) = two a x d"
  by (auto simp: two_def)

lemma two_same: "(\<lambda>_. d) = two d d d"
  by (auto simp: two_def)

text \<open>The bytes of a client that sent one command.\<close>

definition one_stream :: "pb_codec \<Rightarrow> string \<Rightarrow> pb_command \<Rightarrow> bytes" where
  "one_stream P udp c = serialize P (c\<lparr>cmd_ip := udp\<rparr>) @ [newline]"

lemma one_joins:
  assumes "sendable P udp c" and "dash \<notin> set udp"
  shows "client_joins P (udp, [c]) (r, one_stream P udp c)"
proof -
  let ?d = "\<lparr>cn_out = [], cn_err = None :: go_error option\<rparr>" and ?ci = "demo_client\<lparr>ci_svrs := [Some \<lparr>cn_out = [], cn_err = None\<rparr>]\<rparr>"
  have "client_sends P ?ci [c] udp = (?ci\<lparr>ci_svrs := [Some (?d\<lparr>cn_out := one_stream P udp c\<rparr>)]\<rparr>, Ret None)"
    using client_sends_stream [of "[c]" P udp ?ci "[?d]"] assms(1)
    by (simp add: sendable_def Let_def stream_of_def one_stream_def)
  then have "sent_stream P udp [c] (one_stream P udp c)"
    unfolding sent_stream_def
    by (intro exI [of _ ?ci] exI [of _ "[?d]"] exI [of _ "?ci\<lparr>ci_svrs := [Some (?d\<lparr>cn_out := one_stream P udp c\<rparr>)]\<rparr>"]
        exI [of _ "Ret None"] exI [of _ "?d\<lparr>cn_out := one_stream P udp c\<rparr>"]) simp
  with assms show ?thesis by (simp add: client_joins_def)
qed

lemma one_session:
  assumes "sendable P udp c" and "dash \<notin> set udp"
  shows "session_read r (one_stream P udp c) = [request_for P udp r c]"
  using client_joins_session [OF one_joins [OF assms]] by simp

lemma one_message:
  assumes "sendable P udp c"
  shows "pb_unmarshal P (message_of (request_for P udp r c)) = Inr (c\<lparr>cmd_ip := udp\<rparr>)"
  using request_decodes [OF assms] by (simp add: message_of_def)

text \<open>The entry and the answer of a SET that a client sent.\<close>

definition entry_for :: "pb_codec \<Rightarrow> 64 word \<Rightarrow> string \<Rightarrow> string \<Rightarrow> pb_command \<Rightarrow> raft_log" where
  "entry_for P n udp r c = \<lparr>log_index = n, log_data = message_of (request_for P udp r c)\<rparr>"

definition set_answer :: "string \<Rightarrow> string \<Rightarrow> datagram" where
  "set_answer udp r = (takeWhile (\<lambda>ch. ch \<noteq> colon) r @ colon # udp, ''OK: '' @ [newline])"

lemma at_commit_one:
  assumes "service_at P G seed fds trace L sent xs as" and "as i = length L"
    and "k < length (xs i)" and "xs i ! k = Some (r, one_stream P udp c)"
    and "sendable P udp c" and "dash \<notin> set udp" and "cmd_op c = Command_SET"
  shows "service_at P G seed fds
    (trace @ [Took i (Ev_request k (request_for P udp r c) (leader_env m)) [entry_for P m udp r c]])
    (L @ [entry_for P m udp r c]) (sent(i := sent i @ [set_answer udp r]))
    (xs(i := (xs i)[k := None])) (as(i := Suc (length L)))"
  using at_commit [OF assms(1-4) one_session [OF assms(5,6)] command_of_request(2) [OF assms(5,6)] _
      entry_for_def [of P m udp r c]] command_of_request(1) [OF assms(5), of r] assms(7)
  by (simp add: set_answer_def request_for_def)

lemma at_fed_one:
  assumes "service_at P G seed fds trace L sent xs as" and "as i < length L"
    and "L ! as i = entry_for P m udp r c" and "sendable P udp c" and "cmd_op c = Command_SET"
  shows "service_at P G seed fds (trace @ [Fed i]) L sent xs (as(i := Suc (as i)))"
  by (rule at_fed [OF assms(1,2), of "c\<lparr>cmd_ip := udp\<rparr>"]) (use assms one_message in \<open>simp_all add: entry_for_def\<close>)

text \<open>The map of a replica, from what the log decodes to.\<close>

lemma service_view:
  assumes "observed (service_step (\<lambda>closed. kv_propose P G) kv_exit (kv_apply P G)) (service_init seed fds) trace S"
    and "kv_inv (seed i)" and "list_all2 (\<lambda>e c. pb_unmarshal P (log_data e) = Inr c) (se_log S) cs"
  shows "kv_view (sv_store (pc_server (se_node S i))) = fold install_cmd (take (se_applied S i) cs) (kv_view (seed i))"
  using kv_server.service_follows [OF assms(1), of i] kv_run_replay [OF assms(2)] fold_install_log [OF list_all2_takeI [OF assms(3)]]
  by (simp add: kv_server.node_follows_def)

text \<open>A request that every replica takes while another one leads is in no log and answered by nobody.\<close>

lemma failover_loses:
  assumes "sendable P udp c" and "dash \<notin> set udp" and "\<forall>i. kv_inv (seed i)"
  shows "service_at P G seed fds
    [Took 0 (Ev_join r (one_stream P udp c)) [], Took 1 (Ev_join r (one_stream P udp c)) [],
     Took 1 (Ev_request 0 (request_for P udp r c) follower_env) [],
     Took 0 (Ev_request 0 (request_for P udp r c) follower_env) []]
    [] (two [] [] []) (two [None] [None] []) (two 0 0 0)"
proof -
  have a0: "service_at P G seed fds [] [] (two [] [] []) (two [] [] []) (two 0 0 0)"
    using at_init [of seed P G fds] assms(3) by (simp flip: two_same)
  note a1 = at_join [OF a0, where i = 0 and r = r and s = "one_stream P udp c", simplified]
  note a2 = at_join [OF a1, where i = "Suc 0" and r = r and s = "one_stream P udp c", simplified]
  note a3 = at_drop [OF a2, where i = "Suc 0" and k = 0 and r = r, OF _ _ one_session [OF assms(1,2)], simplified]
  note a4 = at_drop [OF a3, where i = 0 and k = 0 and r = r, OF _ _ one_session [OF assms(1,2)], simplified]
  show ?thesis using a4 by simp
qed

lemma demo_sendable: "sendable sample_codec ''15000'' (sample_cmd Command_SET ''k'' ''v'')"
  using sample_codec_law [of "sample_cmd Command_SET ''k'' ''v''"]
  by (simp add: sendable_def sample_cmd_def Let_def)
     (simp add: sample_codec_def sample_marshal_def sample_str_def be32_def Let_def)

lemma demo_sendable_other: "sendable sample_codec ''15000'' (sample_cmd Command_SET ''k'' ''w'')"
  using sample_codec_law [of "sample_cmd Command_SET ''k'' ''w''"]
  by (simp add: sendable_def sample_cmd_def Let_def)
     (simp add: sample_codec_def sample_marshal_def sample_str_def be32_def Let_def)

text \<open>One client and two replicas, one of which leads.\<close>

definition demo_trace :: "service_event list" where
  "demo_trace =
     [Took 0 (Ev_join ''h:1'' (one_stream sample_codec ''15000'' (sample_cmd Command_SET ''k'' ''v''))) [],
      Took 0 (Ev_request 0 (request_for sample_codec ''15000'' ''h:1'' (sample_cmd Command_SET ''k'' ''v'')) (leader_env 1))
        [entry_for sample_codec 1 ''15000'' ''h:1'' (sample_cmd Command_SET ''k'' ''v'')], Fed 1]"

lemma demo_service:
  "\<exists>S. observed (service_step (\<lambda>closed. kv_propose sample_codec sample_gz) kv_exit (kv_apply sample_codec sample_gz))
       (service_init (\<lambda>_. demo_store) (\<lambda>_. None)) demo_trace S \<and>
     se_log S = [entry_for sample_codec 1 ''15000'' ''h:1'' (sample_cmd Command_SET ''k'' ''v'')] \<and>
     se_applied S 1 = 1 \<and> se_up S 0"
proof -
  let ?c = "sample_cmd Command_SET ''k'' ''v''" and ?s = "one_stream sample_codec ''15000'' (sample_cmd Command_SET ''k'' ''v'')"
  have c: "cmd_op ?c = Command_SET" "dash \<notin> set ''15000''" by (simp_all add: sample_cmd_def)
  have a0: "service_at sample_codec sample_gz (\<lambda>_. demo_store) (\<lambda>_. None) [] [] (two [] [] []) (two [] [] []) (two 0 0 0)"
    using at_init [of "\<lambda>_. demo_store" sample_codec sample_gz "\<lambda>_. None"] demo_store_inv by (simp flip: two_same)
  note a1 = at_join [OF a0, where i = 0 and r = "''h:1''" and s = ?s, simplified]
  note a2 = at_commit_one [OF a1, where i = 0 and k = 0 and m = 1 and r = "''h:1''", OF _ _ _ demo_sendable c(2,1), simplified]
  note a3 = at_fed_one [OF a2, where i = "Suc 0" and m = 1 and r = "''h:1''", OF _ _ demo_sendable c(1), simplified]
  from a3 show ?thesis unfolding service_at_def demo_trace_def by auto
qed

section \<open>Properties\<close>

text \<open>C6: replicas follow the log through the whole service: whichever replicas lead, whatever their
  goroutines and clients do and whatever becomes of the proposals, the log holds what the requests that
  leaders took added to it, and the map of each replica is its map at the start with the SET commands among
  the entries it has applied, a prefix of that log, installed in order.\<close>

theorem service_stores:
  assumes "observed (service_step (\<lambda>closed. kv_propose P G) kv_exit (kv_apply P G)) (service_init seed fds) trace S"
    and "kv_inv (seed i)"
  shows "se_log S = entries trace \<and> se_applied S i \<le> length (se_log S) \<and>
    kv_view (sv_store (pc_server (se_node S i))) =
      fold install_cmd (stamped P (take (se_applied S i) (se_log S))) (kv_view (seed i))"
  using service_entries [OF assms(1)] kv_server.service_follows [OF assms(1), of i] kv_run_replay [OF assms(2)]
  by (simp add: kv_server.node_follows_def)

lemma service_stores_witness:
  "\<exists>S. observed (service_step (\<lambda>closed. kv_propose sample_codec sample_gz) kv_exit (kv_apply sample_codec sample_gz))
       (service_init (\<lambda>_. demo_store) (\<lambda>_. None)) demo_trace S \<and>
     kv_view (sv_store (pc_server (se_node S 1))) = [''k'' \<mapsto> ''v'']"
proof -
  obtain S where S: "observed (service_step (\<lambda>closed. kv_propose sample_codec sample_gz) kv_exit (kv_apply sample_codec sample_gz))
       (service_init (\<lambda>_. demo_store) (\<lambda>_. None)) demo_trace S"
    "se_log S = [entry_for sample_codec 1 ''15000'' ''h:1'' (sample_cmd Command_SET ''k'' ''v'')]" "se_applied S 1 = 1"
    using demo_service by blast
  have "kv_view (sv_store (pc_server (se_node S 1))) =
      install_cmd (sample_cmd Command_SET ''k'' ''v''\<lparr>cmd_ip := ''15000'', cmd_id := 1\<rparr>) Map.empty"
    using service_stores [OF S(1), of 1] demo_store_inv S(2,3)
    by (simp add: entry_for_def one_message [OF demo_sendable] demo_store_view)
  then have "kv_view (sv_store (pc_server (se_node S 1))) = [''k'' \<mapsto> ''v'']"
    by (simp add: install_cmd_def sample_cmd_def)
  with S(1) show ?thesis by blast
qed

text \<open>What a session of a replica added to the log.\<close>

definition entries_from :: "nat \<Rightarrow> nat \<Rightarrow> service_event list \<Rightarrow> raft_log list" where
  "entries_from i k trace = concat (map (\<lambda>t. case t of
       Took j ev es \<Rightarrow> (case ev of Ev_request k' rq E \<Rightarrow> if j = i \<and> k' = k then es else [] | _ \<Rightarrow> [])
     | _ \<Rightarrow> []) trace)"

lemma took_entries:
  "service_step propose plan apply_entry S (Some (Took i ev es)) S' \<Longrightarrow>
     subseq (map log_data es) (map message_of (requests [ev]))"
  by (cases rule: service_step.cases)
     (auto simp: proposed_def requests_def split: sv_event.splits if_splits)

lemma entries_from_handled:
  assumes "observed (service_step propose plan apply_entry) (service_init seed fds) trace S"
  shows "subseq (map log_data (entries_from i k trace))
      (map (message_of \<circ> snd) (filter (\<lambda>h. fst h = k) (handled (events_at i trace))))"
  using assms
proof (induction rule: observed.induct)
  case (obs_visible trace S t S')
  show ?case
  proof (cases t)
    case (Took j ev es)
    have "subseq (map log_data es) (map message_of (requests [ev]))"
      using took_entries obs_visible.hyps(2) Took by blast
    with obs_visible.IH Took show ?thesis
      by (cases ev) (auto simp: entries_from_def events_at_snoc handled_snoc requests_def list_emb_append_mono)
  qed (use obs_visible.IH in \<open>simp_all add: entries_from_def events_at_snoc handled_snoc\<close>)
qed (simp_all add: entries_from_def)

text \<open>C7: at most once and in order, at each replica: however leadership moves, the entries that a replica
  added to the log for a client's connection decode to some of the commands that the client broadcast, in
  its order and none twice. (Each replica the client joined may do so: see \<open>failover_reorders\<close>.)\<close>

theorem service_order:
  assumes "observed (service_step (\<lambda>closed. kv_propose P G) kv_exit (kv_apply P G)) (service_init seed fds) trace S"
    and "k < length (joins (events_at i trace))"
    and "client_joins P (udp, cmds) (joins (events_at i trace) ! k)"
  shows "subseq (map (\<lambda>e. pb_unmarshal P (log_data e)) (entries_from i k trace)) (map (\<lambda>c. Inr (c\<lparr>cmd_ip := udp\<rparr>)) cmds)"
proof -
  obtain remote stream where j: "joins (events_at i trace) ! k = (remote, stream)" by fastforce
  have p: "prefix (map snd (filter (\<lambda>h. fst h = k) (handled (events_at i trace))) @ pending (pc_sessions (se_node S i) ! k))
      (session_read (fst (joins (events_at i trace) ! k)) (snd (joins (events_at i trace) ! k)))"
    using service_sessions [OF assms(1), of i] assms(2) by (simp add: sessions_ok_def)
  have "prefix (map snd (filter (\<lambda>h. fst h = k) (handled (events_at i trace)))) (session_read remote stream)"
    using append_prefixD [OF p] by (simp add: j)
  then obtain n where n: "map snd (filter (\<lambda>h. fst h = k) (handled (events_at i trace))) =
      map (request_for P udp remote) (take n cmds)"
    using client_joins_session [of P udp cmds remote stream] assms(3) j
    by (metis prefix_def append_eq_map_prefix(1))
  have s: "\<forall>c \<in> set (take n cmds). sendable P udp c" using assms(3) by (auto simp: client_joins_def j dest: in_set_takeD)
  have "subseq (map (pb_unmarshal P) (map log_data (entries_from i k trace)))
      (map (pb_unmarshal P) (map message_of (map snd (filter (\<lambda>h. fst h = k) (handled (events_at i trace))))))"
    using entries_from_handled [OF assms(1)] by (intro subseq_map) (simp add: comp_def)
  also have "map (pb_unmarshal P) (map message_of (map snd (filter (\<lambda>h. fst h = k) (handled (events_at i trace))))) =
      map (\<lambda>c. Inr (c\<lparr>cmd_ip := udp\<rparr>)) (take n cmds)"
    unfolding n using s request_decodes by (simp add: message_of_def)
  finally have "subseq (map (\<lambda>e. pb_unmarshal P (log_data e)) (entries_from i k trace)) (map (\<lambda>c. Inr (c\<lparr>cmd_ip := udp\<rparr>)) (take n cmds))"
    by (simp add: comp_def)
  moreover have "subseq (map (\<lambda>c. Inr (c\<lparr>cmd_ip := udp\<rparr>)) (take n cmds)) (map (\<lambda>c. Inr (c\<lparr>cmd_ip := udp\<rparr>)) cmds)"
    by (intro subseq_map prefix_imp_subseq take_is_prefix)
  ultimately show ?thesis by (rule subseq_order.trans)
qed

lemma service_order_witness:
  "subseq (map (\<lambda>e. pb_unmarshal sample_codec (log_data e)) (entries_from 0 0 demo_trace)) [Inr (sample_cmd Command_SET ''k'' ''v'')]"
proof -
  have j: "joins (events_at 0 demo_trace) = [(''h:1'', one_stream sample_codec ''15000'' (sample_cmd Command_SET ''k'' ''v''))]"
    by (simp add: demo_trace_def events_at_def joins_def)
  obtain S where "observed (service_step (\<lambda>closed. kv_propose sample_codec sample_gz) kv_exit (kv_apply sample_codec sample_gz))
       (service_init (\<lambda>_. demo_store) (\<lambda>_. None)) demo_trace S" using demo_service by blast
  from service_order [OF this, of 0 0 "''15000''" "[sample_cmd Command_SET ''k'' ''v'']"] one_joins [OF demo_sendable] j
  show ?thesis by (simp add: sample_cmd_def)
qed

text \<open>C5: one leader: any number of clients, through the goroutines of all the replicas. As long as one
  replica leads, commits what it takes and runs, whatever the interleaving and whatever happens at the others, the
  log is one sequence of the clients' commands, in which those of each client are a prefix of what it
  broadcast, in its order; the map of that replica and the datagrams it sent are those of the abstract map
  serving that sequence; every replica's map is that of a prefix of it; and no other replica answers.\<close>

theorem service_linearizes:
  assumes "observed (service_step (\<lambda>closed. kv_propose P G) kv_exit (kv_apply P G)) (service_init seed fds) trace S"
    and "led_by l trace" and "se_up S l"
    and "list_all2 (client_joins P) clients (joins (events_at l trace))"
    and "\<forall>i. kv_inv (seed i) \<and> kv_view (seed i) = m"
  shows "\<exists>hs. length hs = length (se_log S) \<and> (\<forall>(i, c) \<in> set hs. i < length clients) \<and>
    (\<forall>i < length clients. prefix (map snd (filter (\<lambda>h. fst h = i) hs))
       (map (\<lambda>c. c\<lparr>cmd_ip := fst (clients ! i)\<rparr>) (snd (clients ! i)))) \<and>
    (sv_sent (pc_server (se_node S l)), kv_view (sv_store (pc_server (se_node S l)))) =
      kv_serve m (map (\<lambda>(i, c). (takeWhile (\<lambda>ch. ch \<noteq> colon) (fst (joins (events_at l trace) ! i)), c)) hs) \<and>
    (\<forall>j. kv_view (sv_store (pc_server (se_node S j))) = fold install_cmd (map snd (take (se_applied S j) hs)) m) \<and>
    (\<forall>j. j \<noteq> l \<longrightarrow> sv_sent (pc_server (se_node S j)) = [])"
proof -
  let ?evs = "events_at l trace"
  let ?hs = "served_commands P ?evs"
  have p: "observed (process_step (\<lambda>closed. kv_propose P G) kv_exit) (process_init (seed l) (fds l)) ?evs (se_node S l)"
    using leader_run [OF assms(1-3)] by blast
  have inv: "kv_inv (seed l)" using assms(5) by blast
  note lin = process_linearizes [OF p assms(4) led_events [OF assms(2)] inv]
  have log: "map log_data (se_log S) = map (message_of \<circ> snd) (handled ?evs)"
    using service_entries [OF assms(1)] leader_log [OF assms(1,2)] by (simp flip: handled_requests)
  have decode: "list_all2 (\<lambda>e c. pb_unmarshal P (log_data e) = Inr c) (se_log S) (map snd ?hs)"
  proof (rule list_all2_all_nthI)
    show len: "length (se_log S) = length (map snd ?hs)"
      using arg_cong [OF log, of length] by (simp add: served_commands_def)
    fix n assume n: "n < length (se_log S)"
    with len have h: "handled ?evs ! n \<in> set (handled ?evs)" by (simp add: served_commands_def)
    then have "pb_unmarshal P (message_of (snd (handled ?evs ! n))) = Inr (command_of P (snd (handled ?evs ! n)))"
      using bspec [OF lin(1) h] by (simp add: split_beta request_ok_def message_of_def)
    moreover have "log_data (se_log S ! n) = message_of (snd (handled ?evs ! n))"
      using arg_cong [OF log, of "\<lambda>xs. xs ! n"] n len by (simp add: served_commands_def)
    ultimately show "pb_unmarshal P (log_data (se_log S ! n)) = Inr (map snd ?hs ! n)"
      using n len by (simp add: served_commands_def split_beta)
  qed
  have "kv_view (sv_store (pc_server (se_node S j))) = fold install_cmd (map snd (take (se_applied S j) ?hs)) m" for j
    using service_view [OF assms(1) _ decode, of j] assms(5) by (simp add: take_map)
  moreover have "length ?hs = length (se_log S)" using list_all2_lengthD [OF decode] by simp
  moreover have "\<forall>(i, c) \<in> set ?hs. i < length clients" using lin(1) by (auto simp: served_commands_def)
  moreover have "\<forall>i < length clients. prefix (map snd (filter (\<lambda>h. fst h = i) ?hs))
      (map (\<lambda>c. c\<lparr>cmd_ip := fst (clients ! i)\<rparr>) (snd (clients ! i)))" using lin(2) by blast
  ultimately show ?thesis
    using lin(3) assms(5) followers_silent [OF assms(1,2)] by (intro exI [of _ ?hs]) simp
qed

lemma service_linearizes_witness:
  "\<exists>S. observed (service_step (\<lambda>closed. kv_propose sample_codec sample_gz) kv_exit (kv_apply sample_codec sample_gz))
       (service_init (\<lambda>_. demo_store) (\<lambda>_. None)) demo_trace S \<and>
     sv_sent (pc_server (se_node S 0)) = [(''h:15000'', ''OK: '' @ [newline])] \<and>
     sv_sent (pc_server (se_node S 1)) = [] \<and> kv_view (sv_store (pc_server (se_node S 1))) = [''k'' \<mapsto> ''v'']"
proof -
  have j: "joins (events_at 0 demo_trace) = [(''h:1'', one_stream sample_codec ''15000'' (sample_cmd Command_SET ''k'' ''v''))]"
    by (simp add: demo_trace_def events_at_def joins_def)
  let ?c = "sample_cmd Command_SET ''k'' ''v''"
  obtain S where S: "observed (service_step (\<lambda>closed. kv_propose sample_codec sample_gz) kv_exit (kv_apply sample_codec sample_gz))
       (service_init (\<lambda>_. demo_store) (\<lambda>_. None)) demo_trace S" "length (se_log S) = 1" "se_applied S 1 = 1" "se_up S 0"
    using demo_service by auto
  have led: "led_by 0 demo_trace" by (simp add: led_by_def demo_trace_def committing_def leader_env_def)
  have cl: "list_all2 (client_joins sample_codec) [(''15000'', [?c])] (joins (events_at 0 demo_trace))"
    unfolding j using one_joins [OF demo_sendable] by simp
  have st: "\<forall>i. kv_inv demo_store \<and> kv_view demo_store = Map.empty" using demo_store_inv demo_store_view by simp
  from service_linearizes [OF S(1) led S(4) cl st] S(2) obtain h where
    h: "fst h < 1" "prefix (map snd (filter (\<lambda>h. fst h = 0) [h])) [?c\<lparr>cmd_ip := ''15000''\<rparr>]"
      "sv_sent (pc_server (se_node S 0)) =
        fst (kv_serve Map.empty (map (\<lambda>(i, c). (takeWhile (\<lambda>ch. ch \<noteq> colon) (fst (joins (events_at 0 demo_trace) ! i)), c)) [h]))"
      "kv_view (sv_store (pc_server (se_node S 1))) = fold install_cmd (map snd (take (se_applied S 1) [h])) Map.empty"
      "sv_sent (pc_server (se_node S 1)) = []"
    by (auto simp: length_Suc_conv) (metis fst_conv)
  obtain c where "h = (0, c)" using h(1) by (cases h) simp
  moreover from this have "c = ?c" using h(2) by (simp add: sample_cmd_def)
  ultimately show ?thesis using S(1,3) h(3-5)
    by (intro exI [of _ S]) (simp add: j kv_serve_def kv_serve_one_def install_cmd_def sample_cmd_def)
qed

text \<open>Two replicas, two clients, and leadership that moves once.\<close>

definition failover_trace :: "pb_codec \<Rightarrow> string \<Rightarrow> string \<Rightarrow> pb_command \<Rightarrow> string \<Rightarrow> string \<Rightarrow> pb_command
    \<Rightarrow> service_event list" where
  "failover_trace P u1 r1 c1 u2 r2 c2 =
     [Took 0 (Ev_join r1 (one_stream P u1 c1)) [], Took 1 (Ev_join r1 (one_stream P u1 c1)) [],
      Took 0 (Ev_request 0 (request_for P u1 r1 c1) (leader_env 1)) [entry_for P 1 u1 r1 c1],
      Took 0 (Ev_join r2 (one_stream P u2 c2)) [], Took 1 (Ev_join r2 (one_stream P u2 c2)) [],
      Took 0 (Ev_request 1 (request_for P u2 r2 c2) (leader_env 2)) [entry_for P 2 u2 r2 c2],
      Fed 1, Fed 1, Took 1 (Ev_request 0 (request_for P u1 r1 c1) (leader_env 3)) [entry_for P 3 u1 r1 c1], Fed 0]"

lemma failover_run:
  assumes "sendable P u1 c1" and "dash \<notin> set u1" and "sendable P u2 c2" and "dash \<notin> set u2"
    and "cmd_op c1 = Command_SET" and "cmd_op c2 = Command_SET" and "\<forall>i. kv_inv (seed i)"
  shows "service_at P G seed fds (failover_trace P u1 r1 c1 u2 r2 c2)
    [entry_for P 1 u1 r1 c1, entry_for P 2 u2 r2 c2, entry_for P 3 u1 r1 c1]
    (two [set_answer u1 r1, set_answer u2 r2] [set_answer u1 r1] [])
    (two [None, None] [None, Some (r2, one_stream P u2 c2)] []) (two 3 3 0)"
proof -
  let ?at = "service_at P G seed fds"
  have a0: "?at [] [] (two [] [] []) (two [] [] []) (two 0 0 0)"
    using at_init [of seed P G fds] assms(7) by (simp flip: two_same)
  note a1 = at_join [OF a0, where i = 0 and r = r1 and s = "one_stream P u1 c1", simplified]
  note a2 = at_join [OF a1, where i = "Suc 0" and r = r1 and s = "one_stream P u1 c1", simplified]
  note a3 = at_commit_one [OF a2, where i = 0 and k = 0 and m = 1 and r = r1, OF _ _ _ assms(1,2,5), simplified]
  note a4 = at_join [OF a3, where i = 0 and r = r2 and s = "one_stream P u2 c2", simplified]
  note a5 = at_join [OF a4, where i = "Suc 0" and r = r2 and s = "one_stream P u2 c2", simplified]
  note a6 = at_commit_one [OF a5, where i = 0 and k = "Suc 0" and m = 2 and r = r2, OF _ _ _ assms(3,4,6), simplified]
  note a7 = at_fed_one [OF a6, where i = "Suc 0" and m = 1 and r = r1, OF _ _ assms(1,5), simplified]
  note a8 = at_fed_one [OF a7, where i = "Suc 0" and m = 2 and r = r2, OF _ _ assms(3,6), simplified]
  note a9 = at_commit_one [OF a8, where i = "Suc 0" and k = 0 and m = 3 and r = r1, OF _ _ _ assms(1,2,5), simplified]
  note a10 = at_fed_one [OF a9, where i = 0 and m = 3 and r = r1, OF _ _ assms(1,5), simplified]
  show ?thesis using a10 by (simp add: eval_nat_numeral failover_trace_def)
qed

text \<open>C8: when leadership moves, two clients that SET one key can be served in an order that no sequential map
  has. Replica 0 leads, commits the first client's SET and answers it; then the second client joins, and
  its SET is committed and answered; then replica 1 leads, takes the first client's request, which its own session
  still holds, and commits it again: every replica ends with the value that was overwritten before.\<close>

theorem failover_reorders:
  assumes "sendable P u1 c1" and "dash \<notin> set u1" and "sendable P u2 c2" and "dash \<notin> set u2"
    and "cmd_op c1 = Command_SET" and "cmd_op c2 = Command_SET" and "cmd_key c1 = cmd_key c2"
    and "\<forall>i. kv_inv (seed i) \<and> kv_view (seed i) = m"
  shows "\<exists>S. observed (service_step (\<lambda>closed. kv_propose P G) kv_exit (kv_apply P G)) (service_init seed fds)
      (failover_trace P u1 r1 c1 u2 r2 c2) S \<and>
    client_joins P (u1, [c1]) (r1, one_stream P u1 c1) \<and> client_joins P (u2, [c2]) (r2, one_stream P u2 c2) \<and>
    sv_sent (pc_server (se_node S 0)) = [set_answer u1 r1, set_answer u2 r2] \<and>
    (\<forall>i < 2. kv_view (sv_store (pc_server (se_node S i))) = m(cmd_key c1 \<mapsto> cmd_value c1))"
proof -
  from failover_run [OF assms(1-6), of seed G fds r1 r2] assms(8) obtain S where
    S: "observed (service_step (\<lambda>closed. kv_propose P G) kv_exit (kv_apply P G)) (service_init seed fds)
        (failover_trace P u1 r1 c1 u2 r2 c2) S"
      "se_log S = [entry_for P 1 u1 r1 c1, entry_for P 2 u2 r2 c2, entry_for P 3 u1 r1 c1]"
      "se_applied S 0 = 3" "se_applied S 1 = 3" "sv_sent (pc_server (se_node S 0)) = [set_answer u1 r1, set_answer u2 r2]"
    unfolding service_at_def by (metis idle_process_simps(1) two_simps(1,2) One_nat_def)
  have "list_all2 (\<lambda>e c. pb_unmarshal P (log_data e) = Inr c) (se_log S)
      [c1\<lparr>cmd_ip := u1\<rparr>, c2\<lparr>cmd_ip := u2\<rparr>, c1\<lparr>cmd_ip := u1\<rparr>]"
    using S(2) one_message [OF assms(1)] one_message [OF assms(3)] by (simp add: entry_for_def)
  from service_view [OF S(1) _ this] assms(5-8) S(3,4)
  have "kv_view (sv_store (pc_server (se_node S i))) = m(cmd_key c1 \<mapsto> cmd_value c1)" if "i < 2" for i
    using that by (auto simp: install_cmd_def less_2_cases_iff)
  then show ?thesis
    using S(1,5) one_joins assms(1-4) by (intro exI [of _ S]) (simp add: failover_trace_def)
qed


lemma failover_reorders_witness:
  "\<exists>S. observed (service_step (\<lambda>closed. kv_propose sample_codec sample_gz) kv_exit (kv_apply sample_codec sample_gz))
       (service_init (\<lambda>_. demo_store) (\<lambda>_. None))
       (failover_trace sample_codec ''15000'' ''h:1'' (sample_cmd Command_SET ''k'' ''v'')
          ''15000'' ''g:1'' (sample_cmd Command_SET ''k'' ''w'')) S \<and>
     sv_sent (pc_server (se_node S 0)) = [(''h:15000'', ''OK: '' @ [newline]), (''g:15000'', ''OK: '' @ [newline])] \<and>
     kv_view (sv_store (pc_server (se_node S 0))) = [''k'' \<mapsto> ''v'']"
proof -
  have st: "\<forall>i. kv_inv demo_store \<and> kv_view demo_store = Map.empty" using demo_store_inv demo_store_view by simp
  from failover_reorders [OF demo_sendable _ demo_sendable_other _ _ _ _ st, of sample_gz "\<lambda>_. None" "''h:1''" "''g:1''"]
  show ?thesis by (simp add: sample_cmd_def set_answer_def) (metis zero_less_numeral)
qed

end
