(* ===== verification/Disk_Cluster.thy ===== *)
theory Disk_Cluster
  imports Disk_Store Cluster
begin

text \<open>
  A cluster of diskstorage replicas over one Raft log. Unlike the map of kvstore the file of slots
  outlives the process: a replica that starts again opens the file its predecessor wrote and is fed the
  log from the first entry, so while it catches up its slots run ahead of what it has applied.
\<close>

section \<open>Restarting\<close>

text \<open>\<open>New\<close> over the files of the process that ended.\<close>

definition disk_boot :: "disk_store \<Rightarrow> disk_store" where
  "disk_boot s =
     \<lparr>ds_local = ds_local s, ds_valueSize = word_of_nat storeValuesOffset,
      ds_storeValue = replicate storeValuesOffset (CHR ''@''),
      ds_logging = ds_logging s, ds_logfile = (if ds_logging s then reopen (ds_logfile s) else None)\<rparr>"

lemma disk_boot_new:
  "logfolder \<noteq> [] \<Longrightarrow> ds_logging s \<Longrightarrow>
     disk_new logfolder svrID (Inr (ds_local s)) (Stat_file (log_bytes (ds_logfile s))) True = Ret (Inr (disk_boot s))"
  "\<not> ds_logging s \<Longrightarrow> disk_new [] svrID (Inr (ds_local s)) st ok = Ret (Inr (disk_boot s))"
  by (simp_all add: disk_new_def disk_boot_def createFile_reopen)

lemma disk_boot_local [simp]: "ds_local (disk_boot s) = ds_local s"
  by (simp add: disk_boot_def)

lemma disk_boot_inv: "disk_inv (disk_boot s)"
  by (simp add: disk_inv_def disk_boot_def storeValuesOffset_def)

section \<open>The slots a log sets\<close>

definition slot_of :: "pb_codec \<Rightarrow> raft_log \<Rightarrow> nat option" where
  "slot_of P e =
     (case pb_unmarshal P (log_data e) of
        Inl _ \<Rightarrow> None
      | Inr c \<Rightarrow> (if cmd_op c = Command_SET
                  then (case disk_pos (cmd_key c) of Ret pos \<Rightarrow> Some (nat pos) | _ \<Rightarrow> None) else None))"

definition slots_set :: "pb_codec \<Rightarrow> raft_log list \<Rightarrow> nat set" where
  "slots_set P es = set (List.map_filter (slot_of P) es)"

text \<open>An entry whose SET, if it is one, is of a slot within the size a file can reach.\<close>

definition slot_in_range :: "pb_codec \<Rightarrow> nat \<Rightarrow> raft_log \<Rightarrow> bool" where
  "slot_in_range P limit e =
     (case pb_unmarshal P (log_data e) of
        Inl _ \<Rightarrow> True
      | Inr c \<Rightarrow> (if cmd_op c = Command_SET
                  then (case disk_pos (cmd_key c) of
                          Ret pos \<Rightarrow> 0 \<le> pos \<and> 1024 * nat pos + 1024 \<le> limit | _ \<Rightarrow> False) else True))"

lemma slots_set_append [simp]: "slots_set P (es @ es') = slots_set P es \<union> slots_set P es'"
  by (simp add: slots_set_def List.map_filter_def)

lemma slots_set_Nil [simp]: "slots_set P [] = {}"
  by (simp add: slots_set_def List.map_filter_def)

lemma slots_set_Cons [simp]: "slots_set P (e # es) = set_option (slot_of P e) \<union> slots_set P es"
  by (cases "slot_of P e") (simp_all add: slots_set_def List.map_filter_def)

abbreviation full_slot :: bytes where "full_slot \<equiv> replicate 1024 (CHR ''@'')"

text \<open>Whether \<open>Apply\<close> answers or panics, it fills the slot of the entry and no other.\<close>

lemma disk_switch_slots:
  assumes "disk_inv s" and "limit < 2 ^ 63"
    and "cmd_op c = Command_SET \<Longrightarrow> \<exists>pos. disk_pos (cmd_key c) = Ret pos \<and> 0 \<le> pos \<and> 1024 * nat pos + 1024 \<le> limit"
  shows "disk_inv (fst (disk_switch limit s c)) \<and>
    slot (ds_local (fst (disk_switch limit s c))) q =
      (if cmd_op c = Command_SET \<and> (\<exists>pos. disk_pos (cmd_key c) = Ret pos \<and> nat pos = q) then full_slot
       else slot (ds_local s) q)"
proof (cases "cmd_op c = Command_SET")
  case True
  then obtain pos where p: "disk_pos (cmd_key c) = Ret pos" "0 \<le> pos" "1024 * nat pos + 1024 \<le> limit"
    using assms(3) by blast
  from disk_set_pos [OF assms(1) p(2,3) assms(2) p(1), of "cmd_value c"] True p(1) show ?thesis
    by (auto simp: disk_switch_def)
next
  case False
  then have "fst (disk_switch limit s c) = s" by (cases "cmd_op c") (simp_all add: disk_switch_def)
  with False assms(1) show ?thesis by simp
qed

lemma disk_apply_slots:
  assumes "disk_inv s" and "limit < 2 ^ 63" and "slot_in_range P limit e"
  shows "disk_inv (fst (disk_apply P limit s e))"
    and "slot (ds_local (fst (disk_apply P limit s e))) q =
           (if slot_of P e = Some q then full_slot else slot (ds_local s) q)"
proof -
  have "disk_inv (fst (disk_apply P limit s e)) \<and>
    slot (ds_local (fst (disk_apply P limit s e))) q =
      (if slot_of P e = Some q then full_slot else slot (ds_local s) q)"
  proof (cases "pb_unmarshal P (log_data e)")
    case (Inl err)
    with assms(1) show ?thesis by (simp add: disk_apply_def slot_of_def)
  next
    case (Inr c)
    have r: "cmd_op c = Command_SET \<Longrightarrow>
        \<exists>pos. disk_pos (cmd_key c) = Ret pos \<and> 0 \<le> pos \<and> 1024 * nat pos + 1024 \<le> limit"
      using assms(3) Inr by (auto simp: slot_in_range_def split: outcome.splits)
    have inv: "disk_inv (t\<lparr>ds_logfile := f\<rparr>) = disk_inv t" for t :: disk_store and f
      by (simp add: disk_inv_def)
    from disk_switch_slots [OF assms(1,2) r, of q] Inr show ?thesis
      by (auto simp: disk_apply_simps slot_of_def inv split: outcome.splits)
  qed
  then show "disk_inv (fst (disk_apply P limit s e))"
    and "slot (ds_local (fst (disk_apply P limit s e))) q =
           (if slot_of P e = Some q then full_slot else slot (ds_local s) q)" by blast+
qed

section \<open>The slots of a cluster\<close>

definition slots_after :: "pb_codec \<Rightarrow> raft_log list \<Rightarrow> bytes \<Rightarrow> nat \<Rightarrow> bytes" where
  "slots_after P es content q = (if q \<in> slots_set P es then full_slot else slot content q)"

definition disk_node_ok :: "pb_codec \<Rightarrow> (nat \<Rightarrow> disk_store) \<Rightarrow> disk_store cluster \<Rightarrow> nat \<Rightarrow> bool" where
  "disk_node_ok P seed c i \<longleftrightarrow> disk_inv (cl_node c i) \<and>
     (\<exists>m. cl_applied c i \<le> m \<and> m \<le> length (cl_log c) \<and>
        slot (ds_local (cl_node c i)) = slots_after P (take m (cl_log c)) (ds_local (seed i)))"

text \<open>Entry \<open>n\<close> applied over the slots of \<open>m \<ge> n\<close> entries gives those of \<open>max m (n + 1)\<close>.\<close>

lemma slots_after_next:
  assumes "n \<le> m" and "n < length es"
  shows "(\<lambda>q. if slot_of P (es ! n) = Some q then full_slot else slots_after P (take m es) content q) =
     slots_after P (take (max m (Suc n)) es) content"
proof (cases "m = n")
  case True
  then show ?thesis
    using assms(2) by (auto simp: slots_after_def take_Suc_conv_app_nth max_def)
next
  case False
  then have "Suc n \<le> m" using assms(1) by simp
  then have "take m es = take (Suc n) es @ take (m - Suc n) (drop (Suc n) es)"
    by (metis le_add_diff_inverse take_add)
  then have "slot_of P (es ! n) = Some q \<Longrightarrow> q \<in> slots_set P (take m es)" for q
    using assms(2) by (simp add: take_Suc_conv_app_nth)
  with \<open>Suc n \<le> m\<close> show ?thesis by (auto simp: slots_after_def max_def)
qed

lemma disk_node_step:
  assumes ok: "disk_node_ok P seed c i" and r: "cl_applied c i < length (cl_log c)" "limit < 2 ^ 63"
    and rng: "slot_in_range P limit (cl_log c ! cl_applied c i)"
    and ap: "disk_apply P limit (cl_node c i) (cl_log c ! cl_applied c i) = (s', p)"
  shows "disk_inv s' \<and> (\<exists>m. Suc (cl_applied c i) \<le> m \<and> m \<le> length (cl_log c) \<and>
     slot (ds_local s') = slots_after P (take m (cl_log c)) (ds_local (seed i)))"
proof -
  obtain m where inv: "disk_inv (cl_node c i)" and m: "cl_applied c i \<le> m" "m \<le> length (cl_log c)"
    "slot (ds_local (cl_node c i)) = slots_after P (take m (cl_log c)) (ds_local (seed i))"
    using ok by (auto simp: disk_node_ok_def)
  note st = disk_apply_slots [OF inv r(2) rng, unfolded ap fst_conv]
  have "slot (ds_local s') = slots_after P (take (max m (Suc (cl_applied c i))) (cl_log c)) (ds_local (seed i))"
    unfolding slots_after_next [OF m(1) r(1), symmetric]
    using st(2) by (simp add: m(3) fun_eq_iff)
  then show ?thesis
    using st(1) m r(1) by (intro conjI exI [of _ "max m (Suc (cl_applied c i))"]) simp_all
qed

lemma disk_step_ok:
  assumes ok: "disk_node_ok P seed c i" and lim: "limit < 2 ^ 63"
    and rng: "\<forall>e \<in> set (cl_log c). slot_in_range P limit e"
    and st: "cluster_step (disk_apply P limit) disk_boot c ev c'"
  shows "disk_node_ok P seed c' i"
  using st
proof (cases rule: cluster_step.cases)
  case (step_commit e)
  from ok obtain m where "disk_inv (cl_node c i)" "cl_applied c i \<le> m" "m \<le> length (cl_log c)"
    "slot (ds_local (cl_node c i)) = slots_after P (take m (cl_log c)) (ds_local (seed i))"
    by (auto simp: disk_node_ok_def)
  with step_commit show ?thesis by (auto simp: disk_node_ok_def intro: exI [of _ m])
next
  case (step_apply j s' r)
  show ?thesis
  proof (cases "j = i")
    case True
    with disk_node_step [OF ok _ lim] rng step_apply show ?thesis by (simp add: disk_node_ok_def)
  qed (use ok step_apply in \<open>simp add: disk_node_ok_def\<close>)
next
  case (step_crash j s' p)
  show ?thesis
  proof (cases "j = i")
    case True
    with disk_node_step [OF ok _ lim, of s' p] rng step_crash show ?thesis
      by (auto simp: disk_node_ok_def dest: Suc_leD)
  qed (use ok step_crash in \<open>simp add: disk_node_ok_def\<close>)
next
  case (step_restart j)
  show ?thesis
  proof (cases "j = i")
    case True
    from ok obtain m where "m \<le> length (cl_log c)"
      "slot (ds_local (cl_node c i)) = slots_after P (take m (cl_log c)) (ds_local (seed i))"
      by (auto simp: disk_node_ok_def)
    with True step_restart disk_boot_inv show ?thesis
      by (auto simp: disk_node_ok_def intro: exI [of _ m])
  qed (use ok step_restart in \<open>simp add: disk_node_ok_def\<close>)
qed

lemma cluster_step_log:
  "cluster_step f boot c ev c' \<Longrightarrow> set (cl_log c) \<subseteq> set (cl_log c')"
  by (auto elim: cluster_step.cases)

lemma disk_reach_ok:
  assumes "cluster_reach (disk_apply P limit) disk_boot seed c" and "limit < 2 ^ 63"
    and "\<forall>e \<in> set (cl_log c). slot_in_range P limit e"
  shows "disk_node_ok P seed c i"
  using assms(1,3)
proof (induction rule: cluster_reach.induct)
  case reach_init
  show ?case
    by (simp add: disk_node_ok_def cluster_init_def disk_boot_inv slots_after_def fun_eq_iff)
next
  case (reach_step c ev c')
  have "\<forall>e \<in> set (cl_log c). slot_in_range P limit e"
    using reach_step.prems cluster_step_log [OF reach_step.hyps(2)] by blast
  with reach_step.IH disk_step_ok [OF _ assms(2) _ reach_step.hyps(2)] show ?case by blast
qed

section \<open>Properties\<close>


definition demo_disk_log :: raft_log where
  "demo_disk_log = sample_entry Command_SET ''3'' ''v''"

lemma disk_pos_3: "disk_pos ''3'' = Ret 3"
proof -
  have "itoa 3 = ''3''" by code_simp
  with disk_pos_itoa [of 3] show ?thesis by simp
qed

lemma demo_disk_log_slot:
  "slot_of sample_codec demo_disk_log = Some 3" "slot_in_range sample_codec 4096 demo_disk_log"
  by (simp_all add: demo_disk_log_def slot_of_def slot_in_range_def sample_entry_decodes disk_pos_3)

lemma demo_disk_reach:
  "\<exists>c. cluster_reach (disk_apply sample_codec 4096) disk_boot (\<lambda>_. demo_disk) c \<and>
     cl_log c = [demo_disk_log] \<and> cl_applied c 0 = 1"
proof -
  let ?c = "(cluster_init disk_boot (\<lambda>_. demo_disk))\<lparr>cl_log := [demo_disk_log]\<rparr>"
  have r: "cluster_reach (disk_apply sample_codec 4096) disk_boot (\<lambda>_. demo_disk) ?c"
    using reach_commit [OF reach_init, of "disk_apply sample_codec 4096" disk_boot "\<lambda>_. demo_disk" demo_disk_log]
    by (simp add: cluster_init_def)
  obtain s' where "disk_applySet 4096 (disk_boot demo_disk) ''3'' ''v'' = (s', Ret [])"
    using disk_set_pos [OF disk_boot_inv [of demo_disk] _ _ _ disk_pos_3, of 4096 "''v''"] by auto
  then have "snd (disk_apply sample_codec 4096 (disk_boot demo_disk) demo_disk_log) = Ret (Resp_string ''15000-'')"
    by (simp add: disk_apply_simps demo_disk_log_def sample_entry_decodes disk_switch_def disk_answer_def)
  then obtain s' where s': "disk_apply sample_codec 4096 (disk_boot demo_disk) demo_disk_log = (s', Ret (Resp_string ''15000-''))"
    by (metis prod.collapse)
  have "cluster_reach (disk_apply sample_codec 4096) disk_boot (\<lambda>_. demo_disk)
      (?c\<lparr>cl_node := (cl_node ?c)(0 := s'), cl_applied := (cl_applied ?c)(0 := Suc (cl_applied ?c 0))\<rparr>)"
    by (rule reach_apply [OF r, where r = "Resp_string ''15000-''"]) (simp_all add: cluster_init_def s')
  then show ?thesis by (intro exI conjI) (assumption, simp_all add: cluster_init_def)
qed


end
