(* ===== verification/Web_Answers.thy ===== *)
theory Web_Answers
  imports Web_Service
begin

text \<open>
  Every request to the web service is answered: no request, whatever its bytes, makes a handler panic, the
  status is one of those of its route, and an answer that is no success has changed nothing where the
  handler returns before it updates. Proved inside the locale of the interface \<open>Store\<close>, and for lists
  of requests served one after the other.
\<close>

section \<open>Requests\<close>

text \<open>The statuses of a route and method.\<close>

definition route_statuses :: "http_request \<Rightarrow> nat set" where
  "route_statuses r =
     (if take 4 (rq_path r) = ''/key'' then
        (if rq_method r = ''POST'' then {200, 400, 500}
         else if rq_method r \<in> {''GET'', ''DELETE''} then
           (if getKey (rq_path r) = [] then {400} else {200, 500})
         else {405})
      else if rq_path r = ''/join'' then {200, 400, 500} else {404})"

definition is_update :: "http_request \<Rightarrow> bool" where
  "is_update r \<longleftrightarrow> take 4 (rq_path r) = ''/key'' \<and> rq_method r \<in> {''POST'', ''DELETE''}"

text \<open>The requests of a server, one after the other.\<close>

fun serve_all :: "web_json \<Rightarrow> 's store_if \<Rightarrow> 's \<Rightarrow> http_request list \<Rightarrow> 's \<times> http_response outcome list" where
  "serve_all J I s [] = (s, [])"
| "serve_all J I s (r # rs) =
     (let (s', a) = serveHTTP J I s r; (s'', as) = serve_all J I s' rs in (s'', a # as))"

lemma report_Ret: "report w (Ret err) = Ret (case err of None \<Rightarrow> w | Some e \<Rightarrow> writeHeader w 500)"
  by (simp add: report_def)

section \<open>The handlers return\<close>

context key_value_service
begin

definition answers :: "'s \<Rightarrow> nat set \<Rightarrow> bool \<Rightarrow> 's \<times> http_response outcome \<Rightarrow> bool" where
  "answers s codes upd res \<longleftrightarrow>
     (\<exists>s' w. res = (s', Ret w) \<and> ready s' \<and> final_status w \<in> codes \<and>
        (\<not> upd \<or> final_status w \<in> {400, 404, 405} \<longrightarrow> contents s' = contents s))"

lemma get_answers:
  assumes "ready s"
  shows "answers s (if getKey (rq_path r) = [] then {400} else {200, 500}) False (handleGet J I s r no_response)"
proof -
  let ?k = "getKey (rq_path r)"
  obtain s' v where g: "if_get I s ?k = (s', Ret (v, None))"
    using get_value [OF assms, of ?k] by (metis prod.collapse)
  then have s': "ready s'" "contents s' = contents s"
    using get_ready [OF assms, of ?k] get_contents [OF assms, of ?k] by simp_all
  have c: "final_status (writeHeader (writeHeader no_response 400) 500) = 400"
    by (simp add: final_status_def writeHeader_def no_response_def)
  show ?thesis
    using g s' c by (cases "wj_single J ?k v") (simp_all add: answers_def handleGet_def Let_def)
qed

text \<open>Whatever the strings: the keys and values need not be plain for the loop to end with an answer.\<close>

lemma set_pairs_returns: "ready s \<Longrightarrow> \<exists>s' r. set_pairs I s ps = (s', Ret r) \<and> ready s'"
proof (induction ps arbitrary: s)
  case (Cons p ps)
  obtain k v where p: "p = (k, v)" by (cases p)
  obtain s1 r where r: "if_set I s k v = (s1, Ret r)"
    using set_returns [OF Cons.prems, of k v] by (metis prod.collapse)
  moreover have "ready s1" using set_ready [OF Cons.prems, of k v] r by simp
  ultimately show ?case using Cons.IH by (cases r) (auto simp: p)
qed simp

lemma delete_ends:
  assumes "ready s"
  obtains s' r where "if_delete I s k = (s', Ret r)" "ready s'"
  using delete_returns [OF assms, of k] delete_ready [OF assms, of k] by (metis prod.collapse)

lemma post_answers:
  assumes "ready s"
  shows "answers s {200, 400, 500} True (handlePost J I s r no_response)"
proof (cases "wj_decode J (rq_body r)")
  case (Inl e)
  with assms show ?thesis by (simp add: answers_def handlePost_def)
next
  case (Inr ps)
  obtain s' x where "set_pairs I s ps = (s', Ret x)" "ready s'"
    using set_pairs_returns [OF assms] by blast
  with Inr show ?thesis by (cases x) (simp_all add: answers_def handlePost_def report_Ret)
qed

lemma delete_answers:
  assumes "ready s"
  shows "answers s (if getKey (rq_path r) = [] then {400} else {200, 500}) True (handleDelete I s r no_response)"
proof (cases "getKey (rq_path r) = []")
  case True
  with assms show ?thesis by (simp add: answers_def handleDelete_def)
next
  case False
  let ?k = "getKey (rq_path r)"
  obtain s' x where d: "if_delete I s ?k = (s', Ret x)" "ready s'"
    using delete_ends [OF assms] by metis
  obtain s'' y where d': "if_delete I s' ?k = (s'', Ret y)" "ready s''"
    using delete_ends [OF d(2)] by metis
  show ?thesis
    using False d d' by (cases x) (simp_all add: answers_def handleDelete_def report_Ret)
qed

lemma join_answers:
  assumes "ready s"
  shows "answers s {200, 400, 500} False (web_handleJoin J I s r no_response)"
proof -
  have j: "\<exists>s' x. if_join I s i a = (s', Ret x) \<and> ready s' \<and> contents s' = contents s" for i a
    using join_returns [OF assms, of i a] join_ready [OF assms, of i a] join_contents [OF assms, of i a]
    by (metis prod.collapse)
  show ?thesis
  proof (cases "\<exists>m a i. wj_decode J (rq_body r) = Inr m \<and> length m = 2 \<and> map_of m ''addr'' = Some a \<and> map_of m ''id'' = Some i")
    case True
    then obtain m a i where m: "wj_decode J (rq_body r) = Inr m" "length m = 2" "map_of m ''addr'' = Some a" "map_of m ''id'' = Some i"
      by blast
    obtain s' x where "if_join I s i a = (s', Ret x)" "ready s'" "contents s' = contents s" using j by blast
    with m show ?thesis by (cases x) (simp_all add: answers_def web_handleJoin_def report_Ret)
  next
    case False
    then have "web_handleJoin J I s r no_response = (s, Ret (writeHeader no_response 400))"
      by (auto simp: web_handleJoin_def split: sum.split option.split)
    with assms show ?thesis by (simp add: answers_def)
  qed
qed

lemma serve_answers:
  assumes "ready s"
  shows "answers s (route_statuses r) (is_update r) (serveHTTP J I s r)"
proof (cases "take 4 (rq_path r) = ''/key''")
  case True
  consider "rq_method r = ''GET''" | "rq_method r = ''POST''" | "rq_method r = ''DELETE''"
    | "rq_method r \<notin> {''GET'', ''POST'', ''DELETE''}" by blast
  then show ?thesis
    using True get_answers [OF assms, of r J] post_answers [OF assms, of J r] delete_answers [OF assms, of r] assms
    by cases (simp_all add: serveHTTP_def handleKeyRequest_def route_statuses_def is_update_def, simp add: answers_def)
next
  case False
  show ?thesis
  proof (cases "rq_path r = ''/join''")
    case True
    with False join_answers [OF assms, of J r] show ?thesis
      by (simp add: serveHTTP_def route_statuses_def is_update_def)
  next
    case False
    with \<open>take 4 (rq_path r) \<noteq> ''/key''\<close> assms show ?thesis
      by (simp add: serveHTTP_def route_statuses_def is_update_def answers_def)
  qed
qed

lemma serve_all_answers:
  assumes "ready s"
  shows "\<exists>s' ws. serve_all J I s rs = (s', map Ret ws) \<and> ready s' \<and>
     list_all2 (\<lambda>r w. final_status w \<in> route_statuses r) rs ws \<and>
     (list_all2 (\<lambda>r w. is_update r \<longrightarrow> final_status w \<in> {400, 404, 405}) rs ws \<longrightarrow> contents s' = contents s)"
  using assms
proof (induction rs arbitrary: s)
  case Nil
  then show ?case by simp
next
  case (Cons r rs)
  obtain s1 w where st: "serveHTTP J I s r = (s1, Ret w)" "ready s1" "final_status w \<in> route_statuses r"
    "\<not> is_update r \<or> final_status w \<in> {400, 404, 405} \<longrightarrow> contents s1 = contents s"
    using serve_answers [OF Cons.prems, where J = J and r = r] by (auto simp: answers_def)
  obtain s' ws where ih: "serve_all J I s1 rs = (s', map Ret ws)" "ready s'"
    "list_all2 (\<lambda>r w. final_status w \<in> route_statuses r) rs ws"
    "list_all2 (\<lambda>r w. is_update r \<longrightarrow> final_status w \<in> {400, 404, 405}) rs ws \<longrightarrow> contents s' = contents s1"
    using Cons.IH [OF st(2)] by auto
  show ?case
  proof (intro exI conjI impI)
    show "serve_all J I s (r # rs) = (s', map Ret (w # ws))" by (simp add: st(1) ih(1))
    show "ready s'" by (rule ih(2))
    show "list_all2 (\<lambda>r w. final_status w \<in> route_statuses r) (r # rs) (w # ws)"
      by (simp only: list_all2_Cons st(3) ih(3) simp_thms)
    assume "list_all2 (\<lambda>r w. is_update r \<longrightarrow> final_status w \<in> {400, 404, 405}) (r # rs) (w # ws)"
    then have u: "is_update r \<longrightarrow> final_status w \<in> {400, 404, 405}"
      and "list_all2 (\<lambda>r w. is_update r \<longrightarrow> final_status w \<in> {400, 404, 405}) rs ws"
      unfolding list_all2_Cons by blast+
    with ih(4) have "contents s' = contents s1" by blast
    with st(4) u show "contents s' = contents s" by argo
  qed
qed

end

section \<open>Properties\<close>

text \<open>C13: the web service answers every request: over a store of webkvstore, leader or not and whatever
  Raft says of the proposals, any list of requests, whatever bytes their paths and bodies hold, is answered
  without a panic, each request with a status of its route and method; and when no POST or DELETE of
  the list got past its checks the map is what it was. Commands are encoded as the JSON of the standard library,
  which reads back every command it writes, if not always the same strings.\<close>

theorem web_always_answers:
  "\<exists>s' ws. serve_all J (web_store_if go_web_codec A) s rs = (s', map Ret ws) \<and>
    list_all2 (\<lambda>r w. final_status w \<in> route_statuses r) rs ws \<and>
    (list_all2 (\<lambda>r w. is_update r \<longrightarrow> final_status w \<in> {400, 404, 405}) rs ws \<longrightarrow> ws_m s' = ws_m s)"
  using web.serve_all_answers [OF go_web_ready, where J = J and A = A and s = s and rs = rs] by blast

text \<open>A request refused for its body and one for its method: the map is not touched.\<close>

lemma web_always_answers_witness:
  "let rs = [\<lparr>rq_method = ''POST'', rq_path = ''/key'', rq_body = ''x''\<rparr>, \<lparr>rq_method = ''PUT'', rq_path = ''/key/a'', rq_body = []\<rparr>]
   in \<exists>s' w v. serve_all demo_go_json (web_store_if go_web_codec demo_web_api) demo_web rs = (s', [Ret w, Ret v]) \<and>
     final_status w = 400 \<and> final_status v = 405 \<and> ws_m s' = Map.empty"
proof -
  let ?p = "\<lparr>rq_method = ''POST'', rq_path = ''/key'', rq_body = ''x''\<rparr>"
    and ?q = "\<lparr>rq_method = ''PUT'', rq_path = ''/key/a'', rq_body = []\<rparr>"
  obtain s' ws where r: "serve_all demo_go_json (web_store_if go_web_codec demo_web_api) demo_web [?p, ?q] = (s', map Ret ws)"
    "list_all2 (\<lambda>r w. final_status w \<in> route_statuses r) [?p, ?q] ws"
    "list_all2 (\<lambda>r w. is_update r \<longrightarrow> final_status w \<in> {400, 404, 405}) [?p, ?q] ws \<longrightarrow> ws_m s' = ws_m demo_web"
    using web_always_answers [of demo_go_json demo_web_api demo_web "[?p, ?q]"] by blast
  from r(2) obtain w v where ws: "ws = [w, v]" "final_status v \<in> route_statuses ?q"
    by (auto simp: list_all2_Cons1)
  have "json_decode_map json_string ''x'' = Inl err_json"
    by (simp add: json_decode_map_def json_decode_members_def json_parse_def skip_space_def json_number_def
        json_sign_def json_integer_def json_digits_def is_digit_def between_def numeral_eq_Suc)
  then have "serveHTTP demo_go_json (web_store_if go_web_codec demo_web_api) demo_web ?p =
      (demo_web, Ret (writeHeader no_response 400))"
    by (simp add: serveHTTP_def handleKeyRequest_def handlePost_def go_web_json_def)
  then have w: "final_status w = 400" using r(1) ws(1) by (auto split: prod.splits)
  moreover have v: "final_status v = 405" using ws(2) by (simp add: route_statuses_def)
  moreover have "ws_m s' = Map.empty"
    using r(3) w v by (simp add: ws(1) demo_web_def web_new_def)
  ultimately show ?thesis using r(1) ws(1) by auto
qed

end
