(* ===== verification/Web_Handlers.thy ===== *)
theory Web_Handlers
  imports Web_Answers Server_Process
begin

text \<open>
  The handlers of \<open>webkvstore/webserver\<close> side by side: net/http runs each request in a goroutine of its own, and
  a POST makes one call of \<open>Set\<close> for each pair of its body, a DELETE two of \<open>Delete\<close>. Each call gives a
  command to Raft and waits; Raft commits the commands of all of them in one order, and may also commit a
  command after it told the call that it failed. \<open>Web_Service\<close> has the same handlers one after the other.
\<close>

section \<open>Handlers\<close>

datatype web_call = Call_set string string | Call_delete string

fun call_command :: "web_call \<Rightarrow> web_command" where
  "call_command (Call_set k v) = \<lparr>wc_op = ''set'', wc_key = k, wc_value = v\<rparr>"
| "call_command (Call_delete k) = \<lparr>wc_op = ''delete'', wc_key = k, wc_value = []\<rparr>"

fun call_line :: "web_call \<Rightarrow> journey_op \<times> string" where
  "call_line (Call_set k v) = (Journey_Set, ''Set key: '' @ k @ '', value: '' @ v)"
| "call_line (Call_delete k) = (Journey_Delete, ''Delete key: '' @ k)"

text \<open>The calls that the handler of an update makes, in order; None when it answers 400 before any.\<close>

definition handler_calls :: "web_json \<Rightarrow> http_request \<Rightarrow> web_call list option" where
  "handler_calls J r =
     (if rq_method r = ''POST'' then
        (case wj_decode J (rq_body r) of Inl e \<Rightarrow> None | Inr ps \<Rightarrow> Some (map (\<lambda>(k, v). Call_set k v) ps))
      else (let k = getKey (rq_path r) in if k = [] then None else Some [Call_delete k, Call_delete k]))"

text \<open>
  A handler: its request, the calls it has not returned from, where the first of them is, and the answer when it has
  returned.
\<close>

datatype call_state = Call_ready | Call_waiting | Call_committed

record web_handler =
  hd_request :: http_request
  hd_left :: "web_call list"
  hd_state :: call_state
  hd_answer :: "http_response option"

definition handler_start :: "web_json \<Rightarrow> http_request \<Rightarrow> web_handler" where
  "handler_start J r =
     (case handler_calls J r of
        None \<Rightarrow> \<lparr>hd_request = r, hd_left = [], hd_state = Call_ready, hd_answer = Some (writeHeader no_response 400)\<rparr>
      | Some cs \<Rightarrow> \<lparr>hd_request = r, hd_left = cs, hd_state = Call_ready,
                    hd_answer = (if cs = [] then Some no_response else None)\<rparr>)"

text \<open>A call returned an error: 500, but for the second \<open>Delete\<close>, whose error is not looked at.\<close>

definition handler_fail :: "web_handler \<Rightarrow> web_handler" where
  "handler_fail h = h\<lparr>hd_answer := Some (if rq_method (hd_request h) \<noteq> ''POST'' \<and> length (hd_left h) = 1
     then no_response else writeHeader no_response 500)\<rparr>"

definition handler_next :: "web_handler \<Rightarrow> web_handler" where
  "handler_next h = h\<lparr>hd_left := tl (hd_left h), hd_state := Call_ready,
     hd_answer := (if tl (hd_left h) = [] then Some no_response else None)\<rparr>"

section \<open>The service\<close>

text \<open>The store of this node, the handlers, and what they have given to Raft that is neither committed nor lost.\<close>

record 'r web_run =
  wr_store :: "'r web_store"
  wr_handlers :: "web_handler list"
  wr_pending :: "(nat \<times> web_call) list"

definition web_begin :: "'r web_store \<Rightarrow> 'r web_run" where
  "web_begin s = \<lparr>wr_store = s, wr_handlers = [], wr_pending = []\<rparr>"

abbreviation put_handler :: "'r web_run \<Rightarrow> nat \<Rightarrow> web_handler \<Rightarrow> 'r web_run" where
  "put_handler w i h \<equiv> w\<lparr>wr_handlers := (wr_handlers w)[i := h]\<rparr>"

definition call_entry :: "64 word \<Rightarrow> web_call \<Rightarrow> raft_log" where
  "call_entry ix c = \<lparr>log_index = ix, log_data = go_web_marshal (call_command c)\<rparr>"

text \<open>
  The visible steps are the commits, with the handler whose call it was, or None for a call of another node. A
  failed call may leave its command pending; pending commands may be lost.
\<close>

inductive web_handler_step :: "web_json \<Rightarrow> 'r raft_api \<Rightarrow> 'r web_run \<Rightarrow> (nat option \<times> web_call) option \<Rightarrow> 'r web_run \<Rightarrow> bool"
  for J and A where
  wh_update: "is_update r \<Longrightarrow>
     web_handler_step J A w None (w\<lparr>wr_handlers := wr_handlers w @ [handler_start J r]\<rparr>)"
| wh_other: "\<not> is_update r \<Longrightarrow> serveHTTP J (web_store_if go_web_codec A) (wr_store w) r = (s', Ret a) \<Longrightarrow>
     web_handler_step J A w None
       (w\<lparr>wr_store := s', wr_handlers := wr_handlers w @ [\<lparr>hd_request = r, hd_left = [], hd_state = Call_ready, hd_answer = Some a\<rparr>]\<rparr>)"
| wh_proposes: "i < length (wr_handlers w) \<Longrightarrow> h = wr_handlers w ! i \<Longrightarrow> hd_answer h = None \<Longrightarrow> hd_state h = Call_ready \<Longrightarrow>
     hd_left h = c # cs \<Longrightarrow> ws_role (wr_store w) = Leader \<Longrightarrow>
     web_handler_step J A w None
       ((put_handler w i (h\<lparr>hd_state := Call_waiting\<rparr>))\<lparr>wr_pending := wr_pending w @ [(i, c)]\<rparr>)"
| wh_refused: "i < length (wr_handlers w) \<Longrightarrow> h = wr_handlers w ! i \<Longrightarrow> hd_answer h = None \<Longrightarrow> hd_state h = Call_ready \<Longrightarrow>
     ws_role (wr_store w) \<noteq> Leader \<Longrightarrow> web_handler_step J A w None (put_handler w i (handler_fail h))"
| wh_commits: "wr_pending w = (i, c) # ps \<Longrightarrow> h = wr_handlers w ! i \<Longrightarrow>
     web_apply go_web_codec (wr_store w) (call_entry ix c) = (s', Ret resp) \<Longrightarrow>
     web_handler_step J A w (Some (Some i, c))
       ((put_handler w i (if hd_answer h = None then h\<lparr>hd_state := Call_committed\<rparr> else h))
          \<lparr>wr_store := s', wr_pending := ps\<rparr>)"
| wh_others_commit: "web_apply go_web_codec (wr_store w) (call_entry ix c) = (s', Ret resp) \<Longrightarrow>
     web_handler_step J A w (Some (None, c)) (w\<lparr>wr_store := s'\<rparr>)"
| wh_returns: "i < length (wr_handlers w) \<Longrightarrow> h = wr_handlers w ! i \<Longrightarrow> hd_answer h = None \<Longrightarrow> hd_state h = Call_committed \<Longrightarrow>
     web_handler_step J A w None
       ((put_handler w i (handler_next h))
          \<lparr>wr_store := (wr_store w)\<lparr>ws_recov := ws_recov (wr_store w) @ [call_line (hd (hd_left h))]\<rparr>\<rparr>)"
| wh_fails: "i < length (wr_handlers w) \<Longrightarrow> h = wr_handlers w ! i \<Longrightarrow> hd_answer h = None \<Longrightarrow> hd_state h = Call_waiting \<Longrightarrow>
     web_handler_step J A w None (put_handler w i (handler_fail h))"
| wh_lost: "wr_pending w = ps @ q # qs \<Longrightarrow> web_handler_step J A w None (w\<lparr>wr_pending := ps @ qs\<rparr>)"
| wh_role: "web_handler_step J A w None (w\<lparr>wr_store := (wr_store w)\<lparr>ws_role := role\<rparr>\<rparr>)"

section \<open>Each call is committed at most once, in the order of its handler\<close>

fun call_install :: "web_call \<Rightarrow> (string \<rightharpoonup> string) \<Rightarrow> (string \<rightharpoonup> string)" where
  "call_install (Call_set k v) m = m(utf8_fix k \<mapsto> utf8_fix v)"
| "call_install (Call_delete k) m = m(utf8_fix k := None)"

lemma web_apply_call:
  "\<exists>resp. web_apply go_web_codec s (call_entry ix c) = (s\<lparr>ws_m := call_install c (ws_m s)\<rparr>, Ret resp)"
  by (cases c) (simp_all add: web_apply_def call_entry_def go_web_codec_def go_web_roundtrip web_applySet_def web_applyDelete_def)

definition calls_by :: "nat \<Rightarrow> (nat option \<times> web_call) list \<Rightarrow> web_call list" where
  "calls_by i evs = map snd (filter (\<lambda>ev. fst ev = Some i) evs)"

definition pending_by :: "nat \<Rightarrow> (nat \<times> web_call) list \<Rightarrow> web_call list" where
  "pending_by i ps = map snd (filter (\<lambda>q. fst q = i) ps)"

lemma by_simps [simp]:
  "calls_by i [] = []" "calls_by i (evs @ [(j, c)]) = calls_by i evs @ (if j = Some i then [c] else [])"
  "pending_by i [] = []" "pending_by i (ps @ qs) = pending_by i ps @ pending_by i qs"
  "pending_by i ((k, c) # ps) = (if k = i then [c] else []) @ pending_by i ps"
  by (simp_all add: calls_by_def pending_by_def)

definition all_calls :: "web_json \<Rightarrow> http_request \<Rightarrow> web_call list" where
  "all_calls J r = (if is_update r then (case handler_calls J r of None \<Rightarrow> [] | Some cs \<Rightarrow> cs) else [])"

text \<open>Where a handler is, against what Raft has committed of its calls and what it may still commit.\<close>

definition handler_ok :: "web_json \<Rightarrow> web_handler \<Rightarrow> web_call list \<Rightarrow> web_call list \<Rightarrow> bool" where
  "handler_ok J h committed inflight \<longleftrightarrow>
     (\<exists>returned. all_calls J (hd_request h) = returned @ hd_left h \<and>
       (case hd_answer h of
          None \<Rightarrow> hd_left h \<noteq> [] \<and>
            (case hd_state h of
               Call_ready \<Rightarrow> committed = returned \<and> inflight = []
             | Call_waiting \<Rightarrow> committed = returned \<and> (inflight = [] \<or> inflight = [hd (hd_left h)])
             | Call_committed \<Rightarrow> committed = returned @ [hd (hd_left h)] \<and> inflight = [])
        | Some a \<Rightarrow>
            if hd_left h = [] then committed = returned \<and> inflight = [] \<and> 
              (is_update (hd_request h) \<longrightarrow> final_status a = (if handler_calls J (hd_request h) = None then 400 else 200))
            else (committed = returned \<and> (inflight = [] \<or> inflight = [hd (hd_left h)]) \<or>
                  committed = returned @ [hd (hd_left h)] \<and> inflight = []) \<and>
                 (rq_method (hd_request h) = ''POST'' \<longrightarrow> final_status a = 500)))"

definition run_ok :: "web_json \<Rightarrow> 'r web_store \<Rightarrow> (nat option \<times> web_call) list \<Rightarrow> 'r web_run \<Rightarrow> bool" where
  "run_ok J s evs w \<longleftrightarrow> ws_m (wr_store w) = fold call_install (map snd evs) (ws_m s) \<and>
     (\<forall>i. length (wr_handlers w) \<le> i \<longrightarrow> calls_by i evs = [] \<and> pending_by i (wr_pending w) = []) \<and>
     (\<forall>i < length (wr_handlers w). handler_ok J (wr_handlers w ! i) (calls_by i evs) (pending_by i (wr_pending w)))"

lemma handler_start_ok: "is_update r \<Longrightarrow> handler_ok J (handler_start J r) [] []"
  by (auto simp: handler_ok_def handler_start_def all_calls_def split: option.split)

lemma handler_wait_ok:
  "handler_ok J h cs ps \<Longrightarrow> hd_answer h = None \<Longrightarrow> hd_state h = Call_ready \<Longrightarrow> hd_left h = c # ds \<Longrightarrow>
     handler_ok J (h\<lparr>hd_state := Call_waiting\<rparr>) cs (ps @ [c])"
  by (simp add: handler_ok_def)

lemma handler_fail_ok:
  "handler_ok J h cs ps \<Longrightarrow> hd_answer h = None \<Longrightarrow> hd_state h \<noteq> Call_committed \<Longrightarrow> handler_ok J (handler_fail h) cs ps"
  by (cases "hd_state h") (auto simp: handler_ok_def handler_fail_def)

lemma handler_next_ok:
  "handler_ok J h cs ps \<Longrightarrow> hd_answer h = None \<Longrightarrow> hd_state h = Call_committed \<Longrightarrow> handler_ok J (handler_next h) cs ps"
  by (cases "hd_left h") (auto simp: handler_ok_def handler_next_def all_calls_def split: if_splits option.splits)

lemma handler_commit_ok:
  assumes "handler_ok J h cs (c # ps)"
  shows "handler_ok J (if hd_answer h = None then h\<lparr>hd_state := Call_committed\<rparr> else h) (cs @ [c]) ps"
proof (cases "hd_answer h")
  case None
  then show ?thesis using assms by (cases "hd_state h") (auto simp: handler_ok_def)
next
  case (Some a)
  then show ?thesis using assms by (auto simp: handler_ok_def split: if_splits)
qed

lemma handler_lost_ok: "handler_ok J h cs (ps @ q # qs) \<Longrightarrow> handler_ok J h cs (ps @ qs)"
  by (cases ps) (auto simp: handler_ok_def split: option.splits call_state.splits if_splits)

lemma run_ok_put:
  assumes "run_ok J s evs w" and "i < length (wr_handlers w)"
    and "handler_ok J (wr_handlers w ! i) (calls_by i evs) (pending_by i (wr_pending w)) \<Longrightarrow>
      handler_ok J h (calls_by i evs) (pending_by i (wr_pending w))"
  shows "run_ok J s evs (put_handler w i h)"
  using assms by (auto simp: run_ok_def nth_list_update)

lemma run_ok_store: "run_ok J s evs w \<Longrightarrow> ws_m t = ws_m (wr_store w) \<Longrightarrow> run_ok J s evs (w\<lparr>wr_store := t\<rparr>)"
  by (simp add: run_ok_def)

lemma run_ok_add:
  "run_ok J s evs w \<Longrightarrow> handler_ok J h [] [] \<Longrightarrow> run_ok J s evs (w\<lparr>wr_handlers := wr_handlers w @ [h]\<rparr>)"
  by (auto simp: run_ok_def nth_append less_Suc_eq)

lemma other_keeps_map:
  assumes "\<not> is_update r" and "serveHTTP J (web_store_if go_web_codec A) s r = (s', Ret a)"
  shows "ws_m s' = ws_m s"
  using web.serve_answers [OF go_web_ready, where J = J and A = A and s = s and r = r] assms
  by (auto simp: web.answers_def)

lemma run_ok_silent:
  assumes ok: "run_ok J s evs w" and st: "web_handler_step J A w None w'"
  shows "run_ok J s evs w'"
  using st
proof (cases rule: web_handler_step.cases)
  case (wh_update r)
  with run_ok_add [OF ok handler_start_ok] show ?thesis by simp
next
  case (wh_other r s' a)
  let ?h = "\<lparr>hd_request = r, hd_left = [], hd_state = Call_ready, hd_answer = Some a\<rparr>"
  have "handler_ok J ?h [] []" using wh_other(2) by (simp add: handler_ok_def all_calls_def)
  from run_ok_add [OF run_ok_store [OF ok other_keeps_map [OF wh_other(2,3)]] this] wh_other(1)
  show ?thesis by simp
next
  case (wh_proposes i h c cs)
  then show ?thesis
    using ok handler_wait_ok [of J h "calls_by i evs" "pending_by i (wr_pending w)" c cs]
    by (auto simp: run_ok_def nth_list_update)
next
  case (wh_refused i h)
  with run_ok_put [OF ok wh_refused(2) handler_fail_ok] show ?thesis by simp
next
  case (wh_returns i h)
  have "run_ok J s evs (put_handler w i (handler_next h))"
    using run_ok_put [OF ok wh_returns(2) handler_next_ok] wh_returns(3-5) by simp
  with wh_returns(1) run_ok_store [OF this] show ?thesis by simp
next
  case (wh_fails i h)
  with run_ok_put [OF ok wh_fails(2) handler_fail_ok] show ?thesis by simp
next
  case (wh_lost ps q qs)
  have "handler_ok J (wr_handlers w ! i) (calls_by i evs) (pending_by i (ps @ qs))" if "i < length (wr_handlers w)" for i
    using ok that handler_lost_ok [of J "wr_handlers w ! i" "calls_by i evs" "pending_by i ps" "snd q" "pending_by i qs"]
    by (cases q) (auto simp: run_ok_def wh_lost(2) split: if_splits)
  then show ?thesis using ok by (cases q) (simp add: run_ok_def wh_lost)
next
  case (wh_role role)
  with run_ok_store [OF ok] show ?thesis by simp
qed

lemma run_ok_visible:
  assumes ok: "run_ok J s evs w" and st: "web_handler_step J A w (Some ev) w'"
  shows "run_ok J s (evs @ [ev]) w'"
  using st
proof (cases rule: web_handler_step.cases)
  case (wh_commits i c ps h ix s' resp)
  have m: "ws_m s' = call_install c (ws_m (wr_store w))"
    using web_apply_call [of "wr_store w" ix c] wh_commits(5) by auto
  have i: "i < length (wr_handlers w)"
    using ok wh_commits(3) by (force simp: run_ok_def not_less [symmetric])
  have "handler_ok J (wr_handlers w ! i) (calls_by i evs) (pending_by i (wr_pending w))"
    using ok i by (simp add: run_ok_def)
  then have "handler_ok J h (calls_by i evs) (c # pending_by i ps)" by (simp add: wh_commits(3,4))
  from handler_commit_ok [OF this] show ?thesis
    using ok i m by (auto simp: run_ok_def wh_commits(1,2,3) nth_list_update)
next
  case (wh_others_commit ix c s' resp)
  then show ?thesis using ok web_apply_call [of "wr_store w" ix c] by (auto simp: run_ok_def)
qed

lemma run_ok_reached:
  assumes "observed (web_handler_step J A) (web_begin s) evs w"
  shows "run_ok J s evs w"
  using assms
proof (induction rule: observed.induct)
  case obs_start
  show ?case by (simp add: run_ok_def web_begin_def)
next
  case (obs_silent evs w1 w2)
  with run_ok_silent show ?case by blast
next
  case (obs_visible evs w1 ev w2)
  with run_ok_visible show ?case by blast
qed

section \<open>Properties\<close>

text \<open>C14: POSTs served side by side: however the handlers are interleaved, whatever Raft refuses, loses or commits
  late, and however leadership moves, the map is what the committed calls make of it in their order, and of a POST
  that has been answered Raft has committed a beginning of the pairs of its body, each once and in the order in
  which the handler visits them: all of them if the answer was 200, and else the answer was 500.\<close>

theorem web_posts_serialize:
  assumes "observed (web_handler_step J A) (web_begin s) evs w" and "i < length (wr_handlers w)"
    and "hd_request (wr_handlers w ! i) = r" and "take 4 (rq_path r) = ''/key''" and "rq_method r = ''POST''"
    and "wj_decode J (rq_body r) = Inr ps" and "hd_answer (wr_handlers w ! i) = Some a"
  shows "ws_m (wr_store w) = fold call_install (map snd evs) (ws_m s) \<and>
    (\<exists>n \<le> length ps. calls_by i evs = map (\<lambda>(k, v). Call_set k v) (take n ps) \<and>
       (final_status a = 200 \<and> n = length ps \<or> final_status a = 500))"
proof -
  let ?h = "wr_handlers w ! i" and ?f = "\<lambda>(k, v). Call_set k v"
  have ok: "run_ok J s evs w" by (rule run_ok_reached [OF assms(1)])
  then have h: "handler_ok J ?h (calls_by i evs) (pending_by i (wr_pending w))" using assms(2) by (simp add: run_ok_def)
  have u: "is_update r" using assms(4,5) by (simp add: is_update_def)
  have all: "all_calls J r = map ?f ps" using u assms(5,6) by (simp add: all_calls_def handler_calls_def)
  obtain returned where ret: "map ?f ps = returned @ hd_left ?h"
    and st: "if hd_left ?h = [] then calls_by i evs = returned \<and> final_status a = 200
      else calls_by i evs \<in> {returned, returned @ [hd (hd_left ?h)]} \<and> final_status a = 500"
    using h assms(3,5-7) all u by (auto simp: handler_ok_def handler_calls_def split: if_splits)
  obtain n where n: "n \<le> length ps" "calls_by i evs = take n (map ?f ps)" "final_status a = 200 \<and> n = length ps \<or> final_status a = 500"
  proof (cases "hd_left ?h")
    case Nil
    with ret have "returned = map ?f ps" by simp
    then show ?thesis using that [of "length ps"] st Nil by simp
  next
    case (Cons c cs)
    have len: "length ps = length returned + Suc (length cs)" using ret Cons by (metis length_append length_Cons length_map)
    from st Cons have "calls_by i evs = returned \<or> calls_by i evs = returned @ [c]" "final_status a = 500" by simp_all
    then show ?thesis
      using that [of "length returned"] that [of "Suc (length returned)"] len ret Cons by auto
  qed
  then show ?thesis using ok by (auto simp: run_ok_def take_map)
qed

text \<open>Runs: two POSTs have been received; a call of a handler goes through.\<close>

lemma call_goes_through:
  assumes "i < length (wr_handlers w)" and "hd_answer (wr_handlers w ! i) = None" "hd_state (wr_handlers w ! i) = Call_ready"
    and "hd_left (wr_handlers w ! i) = c # cs" and "ws_role (wr_store w) = Leader" "wr_pending w = []"
  shows "\<exists>w'. observed (web_handler_step J A) w [(Some i, c)] w' \<and> wr_pending w' = [] \<and>
    wr_handlers w' = (wr_handlers w)[i := handler_next (wr_handlers w ! i)] \<and>
    ws_role (wr_store w') = Leader \<and> ws_m (wr_store w') = call_install c (ws_m (wr_store w))"
proof -
  let ?h = "wr_handlers w ! i"
  let ?a = "(put_handler w i (?h\<lparr>hd_state := Call_waiting\<rparr>))\<lparr>wr_pending := [(i, c)]\<rparr>"
  have "web_handler_step J A w None ?a"
    using wh_proposes [of i w ?h c cs J A] assms by simp
  then have o1: "observed (web_handler_step J A) w [] ?a" by (rule obs_silent [OF obs_start])
  obtain resp where ap: "web_apply go_web_codec (wr_store ?a) (call_entry 0 c) =
      ((wr_store ?a)\<lparr>ws_m := call_install c (ws_m (wr_store ?a))\<rparr>, Ret resp)"
    using web_apply_call by blast
  let ?b = "(put_handler w i (?h\<lparr>hd_state := Call_committed\<rparr>))
    \<lparr>wr_store := (wr_store w)\<lparr>ws_m := call_install c (ws_m (wr_store w))\<rparr>, wr_pending := []\<rparr>"
  have "web_handler_step J A ?a (Some (Some i, c)) ?b"
    using wh_commits [OF _ refl ap, of i "[]"] assms(1,2) by simp
  from obs_visible [OF o1 this] have o2: "observed (web_handler_step J A) w [(Some i, c)] ?b" by simp
  let ?c = "w\<lparr>wr_pending := [], wr_handlers := (wr_handlers w)[i := handler_next ?h],
    wr_store := (wr_store w)\<lparr>ws_m := call_install c (ws_m (wr_store w)), ws_recov := ws_recov (wr_store w) @ [call_line c]\<rparr>\<rparr>"
  have n: "handler_next (?h\<lparr>hd_state := Call_committed\<rparr>) = handler_next ?h" by (simp add: handler_next_def)
  have "web_handler_step J A ?b None ?c"
    using wh_returns [OF _ refl, of i ?b J A] assms(1,2,4) by (simp add: n)
  from obs_silent [OF o2 this] show ?thesis using assms(5) by (intro exI [of _ ?c]) simp
qed

lemma two_received:
  assumes "is_update r1" and "is_update r2"
  shows "observed (web_handler_step J A) (web_begin s) []
    \<lparr>wr_store = s, wr_handlers = [handler_start J r1, handler_start J r2], wr_pending = []\<rparr>"
proof -
  let ?a = "\<lparr>wr_store = s, wr_handlers = [handler_start J r1], wr_pending = []\<rparr>"
  have "web_handler_step J A (web_begin s) None ?a"
    using wh_update [OF assms(1), of J A "web_begin s"] by (simp add: web_begin_def)
  then have "observed (web_handler_step J A) (web_begin s) [] ?a" by (rule obs_silent [OF obs_start])
  moreover have "web_handler_step J A ?a None (?a\<lparr>wr_handlers := [handler_start J r1, handler_start J r2]\<rparr>)"
    using wh_update [OF assms(2), of J A ?a] by simp
  ultimately show ?thesis using obs_silent by fastforce
qed

text \<open>Two POSTs of the same two keys.\<close>

definition two_keys :: "string \<Rightarrow> string \<Rightarrow> (string \<rightharpoonup> string)" where
  "two_keys x y = [''a'' \<mapsto> x, ''b'' \<mapsto> y]"

definition two_post :: "string \<Rightarrow> string \<Rightarrow> http_request" where
  "two_post x y = \<lparr>rq_method = ''POST'', rq_path = ''/key'', rq_body = json_marshal_map json_text (two_keys x y)\<rparr>"

lemma two_post_update: "is_update (two_post x y)" "rq_method (two_post x y) = ''POST''" "take 4 (rq_path (two_post x y)) = ''/key''"
  by (simp_all add: two_post_def is_update_def)

lemma two_post_decodes:
  assumes "\<forall>c \<in> set (x @ y). octet c < 0x80"
  shows "wj_decode demo_go_json (rq_body (two_post x y)) = Inr [(''a'', x), (''b'', y)]"
proof -
  have d: "dom (two_keys x y) = {''a'', ''b''}" by (auto simp: two_keys_def)
  have v: "v = x \<or> v = y" if "two_keys x y k = Some v" for k v
    using that unfolding two_keys_def by (simp split: if_splits)
  have "json_decode_map json_string (json_marshal_map json_text (two_keys x y)) = Inr (two_keys x y)"
  proof (rule json_strings_roundtrip)
    show "\<forall>k \<in> dom (two_keys x y). utf8_valid k" by (simp add: d utf8_valid_ascii)
    show "\<forall>t \<in> ran (two_keys x y). utf8_valid t"
    proof
      fix t assume "t \<in> ran (two_keys x y)"
      then have "t = x \<or> t = y" using v by (auto simp: ran_def)
      with assms show "utf8_valid t" by (auto intro: utf8_valid_ascii)
    qed
  qed (simp add: d)
  moreover have "sorted_list_of_set {''a'', ''b''} = [''a'', ''b'']" by (simp add: sorted_list_of_set_nonempty)
  ultimately show ?thesis by (simp add: go_web_json_def two_post_def d) (simp add: two_keys_def)
qed

text \<open>C39: but a POST of several pairs is not one update: two POSTs of the same two keys that are served side by side
  can both be answered 200 and leave the first key with the value of one and the second key with the value of the
  other, a map that neither order of the two gives.\<close>

theorem web_posts_tear:
  assumes "ws_role s = Leader" and "is_update r1" "rq_method r1 = ''POST''" and "is_update r2" "rq_method r2 = ''POST''"
    and "wj_decode J (rq_body r1) = Inr [(k, x1), (l, y1)]" and "wj_decode J (rq_body r2) = Inr [(k, x2), (l, y2)]"
    and "\<forall>t \<in> {k, l, x2, y1}. utf8_valid t" and "k \<noteq> l"
  shows "\<exists>evs w. observed (web_handler_step J A) (web_begin s) evs w \<and>
    map hd_answer (wr_handlers w) = [Some no_response, Some no_response] \<and>
    ws_m (wr_store w) = (ws_m s)(k \<mapsto> x2, l \<mapsto> y1)"
proof -
  let ?step = "web_handler_step J A"
  let ?w0 = "\<lparr>wr_store = s, wr_handlers = [handler_start J r1, handler_start J r2], wr_pending = []\<rparr>"
  have h: "handler_start J r1 = \<lparr>hd_request = r1, hd_left = [Call_set k x1, Call_set l y1], hd_state = Call_ready, hd_answer = None\<rparr>"
    "handler_start J r2 = \<lparr>hd_request = r2, hd_left = [Call_set k x2, Call_set l y2], hd_state = Call_ready, hd_answer = None\<rparr>"
    using assms(3,5-7) by (simp_all add: handler_start_def handler_calls_def)
  obtain w1 where w1: "observed ?step ?w0 [(Some 0, Call_set k x1)] w1" "wr_pending w1 = []" "ws_role (wr_store w1) = Leader"
    "wr_handlers w1 = [handler_next (handler_start J r1), handler_start J r2]"
    "ws_m (wr_store w1) = call_install (Call_set k x1) (ws_m s)"
    using call_goes_through [of 0 ?w0 "Call_set k x1" "[Call_set l y1]" J A] assms(1) h by auto
  obtain w2 where w2: "observed ?step w1 [(Some 1, Call_set k x2)] w2" "wr_pending w2 = []" "ws_role (wr_store w2) = Leader"
    "wr_handlers w2 = [handler_next (handler_start J r1), handler_next (handler_start J r2)]"
    "ws_m (wr_store w2) = call_install (Call_set k x2) (ws_m (wr_store w1))"
    using call_goes_through [of 1 w1 "Call_set k x2" "[Call_set l y2]" J A] w1(2-4) h by auto
  obtain w3 where w3: "observed ?step w2 [(Some 1, Call_set l y2)] w3" "wr_pending w3 = []" "ws_role (wr_store w3) = Leader"
    "wr_handlers w3 = [handler_next (handler_start J r1), handler_next (handler_next (handler_start J r2))]"
    "ws_m (wr_store w3) = call_install (Call_set l y2) (ws_m (wr_store w2))"
    using call_goes_through [of 1 w2 "Call_set l y2" "[]" J A] w2(2-4) h by (auto simp: handler_next_def)
  obtain w4 where w4: "observed ?step w3 [(Some 0, Call_set l y1)] w4"
    "wr_handlers w4 = [handler_next (handler_next (handler_start J r1)), handler_next (handler_next (handler_start J r2))]"
    "ws_m (wr_store w4) = call_install (Call_set l y1) (ws_m (wr_store w3))"
    using call_goes_through [of 0 w3 "Call_set l y1" "[]" J A] w3(2-4) h by (auto simp: handler_next_def)
  note o = observed_trans [OF observed_trans [OF observed_trans [OF observed_trans [OF two_received [OF assms(2,4)] w1(1)] w2(1)] w3(1)] w4(1)]
  have "ws_m (wr_store w4) = (ws_m s)(k \<mapsto> x2, l \<mapsto> y1)"
    using assms(8,9) by (auto simp: w1(5) w2(5) w3(5) w4(3) utf8_fix_valid fun_upd_twist)
  moreover have "map hd_answer (wr_handlers w4) = [Some no_response, Some no_response]"
    by (simp add: w4(2) h handler_next_def)
  ultimately show ?thesis using o by (intro exI conjI)
qed

lemma demo_posts:
  "wj_decode demo_go_json (rq_body (two_post ''1'' ''1'')) = Inr [(''a'', ''1''), (''b'', ''1'')]"
  "wj_decode demo_go_json (rq_body (two_post ''2'' ''2'')) = Inr [(''a'', ''2''), (''b'', ''2'')]"
  "ws_role demo_web = Leader" "ws_m demo_web = Map.empty"
  by (rule two_post_decodes, simp, rule two_post_decodes, simp) (simp_all add: demo_web_def web_new_def)

lemma web_posts_tear_witness:
  "\<exists>evs w. observed (web_handler_step demo_go_json demo_web_api) (web_begin demo_web) evs w \<and>
     map hd_answer (wr_handlers w) = [Some no_response, Some no_response] \<and> ws_m (wr_store w) = [''a'' \<mapsto> ''2'', ''b'' \<mapsto> ''1'']"
proof -
  have "\<forall>t \<in> {''a'', ''b'', ''2'', ''1''}. utf8_valid t" by (simp add: utf8_valid_ascii)
  from web_posts_tear [OF demo_posts(3) two_post_update(1,2) two_post_update(1,2) demo_posts(1,2) this]
  show ?thesis by (simp only: demo_posts(4)) simp
qed

text \<open>One handler has made its two calls, and the other none.\<close>

lemma web_posts_serialize_witness:
  "\<exists>evs w. observed (web_handler_step demo_go_json demo_web_api) (web_begin demo_web) evs w \<and>
     hd_answer (wr_handlers w ! 0) = Some no_response \<and> ws_m (wr_store w) = fold call_install (map snd evs) Map.empty \<and>
     calls_by 0 evs = [Call_set ''a'' ''1'', Call_set ''b'' ''1'']"
proof -
  let ?step = "web_handler_step demo_go_json demo_web_api" and ?r = "two_post ''1'' ''1''"
  let ?w0 = "\<lparr>wr_store = demo_web, wr_handlers = [handler_start demo_go_json ?r, handler_start demo_go_json ?r], wr_pending = []\<rparr>"
  have h: "handler_start demo_go_json ?r =
      \<lparr>hd_request = ?r, hd_left = [Call_set ''a'' ''1'', Call_set ''b'' ''1''], hd_state = Call_ready, hd_answer = None\<rparr>"
    by (simp add: handler_start_def handler_calls_def demo_posts(1) two_post_update)
  obtain w1 where w1: "observed ?step ?w0 [(Some 0, Call_set ''a'' ''1'')] w1" "wr_pending w1 = []" "ws_role (wr_store w1) = Leader"
    "wr_handlers w1 = [handler_next (handler_start demo_go_json ?r), handler_start demo_go_json ?r]"
    using call_goes_through [of 0 ?w0 "Call_set ''a'' ''1''" "[Call_set ''b'' ''1'']" demo_go_json demo_web_api] demo_posts(3) h by auto
  obtain w2 where w2: "observed ?step w1 [(Some 0, Call_set ''b'' ''1'')] w2"
    "wr_handlers w2 = [handler_next (handler_next (handler_start demo_go_json ?r)), handler_start demo_go_json ?r]"
    using call_goes_through [of 0 w1 "Call_set ''b'' ''1''" "[]" demo_go_json demo_web_api] w1(2-4) h by (auto simp: handler_next_def)
  note o = observed_trans [OF observed_trans [OF two_received [OF two_post_update(1) two_post_update(1)] w1(1)] w2(1)]
  have a: "hd_request (wr_handlers w2 ! 0) = ?r" "hd_answer (wr_handlers w2 ! 0) = Some no_response" "0 < length (wr_handlers w2)"
    by (simp_all add: w2(2) h handler_next_def)
  have "ws_m (wr_store w2) = fold call_install (map snd [(Some 0, Call_set ''a'' ''1''), (Some 0, Call_set ''b'' ''1'')]) (ws_m demo_web) \<and>
      (\<exists>n \<le> length [(''a'', ''1''), (''b'', ''1'')].
         calls_by 0 [(Some 0, Call_set ''a'' ''1''), (Some 0, Call_set ''b'' ''1'')] =
           map (\<lambda>(k, v). Call_set k v) (take n [(''a'', ''1''), (''b'', ''1'')]) \<and>
         (final_status no_response = 200 \<and> n = length [(''a'', ''1''), (''b'', ''1'')] \<or> final_status no_response = 500))"
    using web_posts_serialize [OF o a(3,1) two_post_update(3,2) demo_posts(1) a(2)] by simp
  then have "ws_m (wr_store w2) = fold call_install (map snd [(Some 0, Call_set ''a'' ''1''), (Some 0, Call_set ''b'' ''1'')]) (ws_m demo_web)"
    by (rule conjunct1)
  with o a(2) show ?thesis
    by (intro exI [of _ "[(Some 0, Call_set ''a'' ''1''), (Some 0, Call_set ''b'' ''1'')]"] exI [of _ w2])
       (simp add: demo_posts(4) calls_by_def)
qed

text \<open>And an answer of 500 does not mean that nothing was stored: the command can be committed afterwards.\<close>

lemma web_refused_yet_stored:
  assumes "ws_role s = Leader" and "is_update r" "rq_method r = ''POST''" and "wj_decode J (rq_body r) = Inr [(k, v)]"
    and "utf8_valid k" "utf8_valid v"
  shows "\<exists>evs w a. observed (web_handler_step J A) (web_begin s) evs w \<and>
    map hd_answer (wr_handlers w) = [Some a] \<and> final_status a = 500 \<and> ws_m (wr_store w) = (ws_m s)(k \<mapsto> v)"
proof -
  let ?step = "web_handler_step J A" and ?c = "Call_set k v"
  have h: "handler_start J r = \<lparr>hd_request = r, hd_left = [?c], hd_state = Call_ready, hd_answer = None\<rparr>" (is "_ = ?h")
    using assms(3,4) by (simp add: handler_start_def handler_calls_def)
  let ?a = "\<lparr>wr_store = s, wr_handlers = [?h], wr_pending = []\<rparr>"
  let ?b = "\<lparr>wr_store = s, wr_handlers = [?h\<lparr>hd_state := Call_waiting\<rparr>], wr_pending = [(0, ?c)]\<rparr>"
  let ?f = "handler_fail (?h\<lparr>hd_state := Call_waiting\<rparr>)"
  let ?d = "\<lparr>wr_store = s, wr_handlers = [?f], wr_pending = [(0, ?c)]\<rparr>"
  let ?e = "\<lparr>wr_store = s\<lparr>ws_m := call_install ?c (ws_m s)\<rparr>, wr_handlers = [?f], wr_pending = []\<rparr>"
  have "?step (web_begin s) None ?a" using wh_update [OF assms(2), of J A "web_begin s"] by (simp add: web_begin_def h)
  then have o1: "observed ?step (web_begin s) [] ?a" by (rule obs_silent [OF obs_start])
  have "?step ?a None ?b" using wh_proposes [of 0 ?a ?h ?c "[]" J A] assms(1) by simp
  from obs_silent [OF o1 this] have o2: "observed ?step (web_begin s) [] ?b" .
  have "?step ?b None ?d" using wh_fails [of 0 ?b "?h\<lparr>hd_state := Call_waiting\<rparr>" J A] by simp
  from obs_silent [OF o2 this] have o3: "observed ?step (web_begin s) [] ?d" .
  obtain resp where ap: "web_apply go_web_codec (wr_store ?d) (call_entry 0 ?c) =
      ((wr_store ?d)\<lparr>ws_m := call_install ?c (ws_m (wr_store ?d))\<rparr>, Ret resp)"
    using web_apply_call by blast
  have f: "hd_answer ?f = Some (writeHeader no_response 500)" using assms(3) by (simp add: handler_fail_def)
  have "?step ?d (Some (Some 0, ?c)) ?e" using wh_commits [OF _ refl ap, of 0 "[]"] f by simp
  from obs_visible [OF o3 this] show ?thesis
    using f assms(5,6) by (intro exI [of _ "[(Some 0, ?c)]"] exI [of _ ?e]) (simp add: utf8_fix_valid)
qed

end
