(* ===== verification/Spec2Isabelle.thy ===== *)
theory Spec2Isabelle
  imports Chat_Process Programs Replicated_Service Disk_Cluster Web_Handlers
begin

text \<open>
  Raft-demo: replicated applications over hashicorp/raft (\<open>kvstore/\<close>, \<open>diskstorage/\<close>,
  \<open>chatRoom/\<close>, \<open>webkvstore/\<close>), the logger processes that keep a recoverable log of what a
  cluster decided (\<open>logger/\<close>), the program that recovers a state from such a log (\<open>recovery/\<close>)
  and the clients (\<open>client/\<close>, \<open>chatRoom/client/\<close>). This development models the repository's
  own code and proves what makes it correct; where the code does not do what it means to, the
  theorem says what it does.

  How the parts interact. A client broadcasts a command, framed by a newline, to every replica. A
  replica's session cuts its stream into requests, the server hands them one at a time to
  \<open>Propose\<close>; the replica that leads gives the command to Raft, Raft gives each committed entry to
  \<open>Apply\<close> of every replica's state machine, and the leader sends the answer by UDP. A store that
  logs, and every logger, writes each command into a file; a recovering process asks a replica for
  the file and replays it. New replicas and loggers join by a line of text sent to a replica, and
  find it through Kubernetes.

  The theories, in the order they build on each other:

  \<^item> \<open>Go_Prelude\<close>: strings and byte slices, the ways a call ends (\<open>outcome\<close>: a value, a panic,
    \<open>log.Fatal\<close>, blocked), the functions of \<open>strings\<close> and \<open>strconv\<close> that the sources call, with
    their laws.
  \<^item> \<open>Go_IO\<close>: files with a descriptor's offset, \<open>encoding/binary\<close>, \<open>bufio\<close> readers, and
    \<open>bytes.Buffer\<close> on an explicit heap, because slices that share its array matter.
  \<^item> \<open>Go_JSON\<close>: \<open>encoding/json\<close> of the standard library as the sources use it, with \<open>unicode/utf8\<close> and
    \<open>encoding/base64\<close>: quoting and unquoting of strings (escapes, surrogates, bytes that are no UTF-8), the
    scanner on any value, maps with string keys. What is written is read back, and what is read is UTF-8.
  \<^item> \<open>PB_Command\<close>: the command message; its codec is generated code outside the repository and so
    a parameter with a stated law, instantiated by a concrete codec in the witnesses.
  \<^item> \<open>FSM_Interface\<close>: Raft's interface to a state machine as two locales: \<open>raft_fsm\<close> (a state
    machine deterministic on what it replicates) and \<open>raft_fsm_snapshot\<close> (its snapshots carry all
    of it). Interpreted by kvstore, diskstorage, the chat, the web store and the cluster's members.
  \<^item> \<open>Log_File\<close>: the log file, its frames, opening it; the locale \<open>logging_fsm\<close> of replicas that
    log, interpreted by kvstore, diskstorage and the logger.
  \<^item> \<open>KV_Store\<close> (\<open>kvstore/store.go\<close> New, \<open>kvstore/fsm.go\<close>): the store as a map from keys to
    slices, \<open>Apply\<close>, \<open>Snapshot\<close>, \<open>Persist\<close>, \<open>Restore\<close>, the abstract map \<open>kv_spec\<close> that it
    refines, and the compressing mode with its shared buffer.
  \<^item> \<open>Recovery\<close> (\<open>recovery/state.go\<close>): the decoding loop, on whole logs, torn logs and logs written
    over older ones.
  \<^item> \<open>Disk_Store\<close> (\<open>diskstorage/storage.go\<close> New, \<open>diskstorage/fsm.go\<close>): the file of slots, offsets in
    64-bit words.
  \<^item> \<open>Logger_Process\<close> (\<open>logger/\<close>): its state machine, counter, command line and names.
  \<^item> \<open>Cluster\<close>: replicas and loggers over one Raft log, as a step relation with commits, applies,
    crashes and restarts; the locales \<open>cluster_fsm\<close> and \<open>logging_cluster\<close> extend those above by what a
    restart does and carry the invariants of every reachable state.
  \<^item> \<open>Disk_Cluster\<close>, \<open>Web_Cluster\<close>: clusters of disk stores, whose files outlive the process, and of
    webkvstore nodes, whose reads are served locally; the second interprets \<open>cluster_fsm\<close> again.
  \<^item> \<open>Membership\<close> (\<open>JoinRaft\<close>, \<open>ListenRaftJoins\<close>, \<open>StartRaft\<close>): Raft's membership calls are a
    parameter with the laws its documentation states.
  \<^item> \<open>Read_All\<close> (\<open>readAll\<close> of kvstore and logger): the buffer that grows while a file is read.
  \<^item> \<open>State_Transfer\<close> (\<open>ListenStateTransfer\<close>, \<open>UnsafeStateRecover\<close>, \<open>recovery/requester.go\<close>).
  \<^item> \<open>Kube\<close> (\<open>kvstore/main.go\<close>, \<open>logger/main.go\<close>, \<open>client/seqClient.go\<close>): environment, identifiers and
    the search for leaders and replicas among the pods, and the start of a replica.
  \<^item> \<open>KV_Server\<close> (\<open>kvstore/server.go\<close>, \<open>kvstore/sessions.go\<close>, \<open>Propose\<close>): sessions, the server's
    select loop and monitor as a step relation, over the locale \<open>proposer\<close>, which both stores provide.
  \<^item> \<open>Server_Process\<close> (the same files, \<open>Exit\<close>, and the end of \<open>main\<close>): the goroutines of that server with
    the contexts that end them, as a step relation with silent steps; the locale \<open>forward_simulation\<close>,
    extended into \<open>server_process\<close> by a \<open>sublocale\<close> and interpreted for both stores, shows that it
    implements the server of \<open>KV_Server\<close>.
  \<^item> \<open>Linearizable\<close>, \<open>Replicated_Service\<close>: clients, connections, goroutines, servers, stores and replies put
    together, for one replica and for all of them over one log, with leaders that change; the abstract
    service is \<open>kv_serve\<close>.
  \<^item> \<open>Seq_Client\<close> (\<open>client/seqClient.go\<close>), \<open>Chat_Client\<close> (\<open>chatRoom/client/\<close>), \<open>Chat_Server\<close>
    (\<open>chatRoom/server/\<close>), \<open>Chat_Room\<close> (servers and one client composed: what each connection carries and
    every order in which the readers' messages reach the consumer), \<open>Client_Main\<close> (the \<open>main\<close> of the two
    clients), \<open>Chat_Typed\<close> (from the lines typed at the chat client to what the replicas propose), \<open>Logger_Main\<close> (\<open>init\<close> and \<open>main\<close> of the logger, its goroutines in any order).
  \<^item> \<open>Chat_Process\<close> (\<open>chatRoom/server/\<close>): the goroutines of a chat server over their unbuffered channels, as a step
    relation that implements the server of \<open>Chat_Server\<close> (\<open>forward_simulation\<close> again), with \<open>Apply\<close> interleaved
    with everything else and \<open>Shutdown\<close>; the whole chat through the goroutines.
  \<^item> \<open>Web_Store\<close> and \<open>Web_Service\<close> (\<open>webkvstore/\<close>): the store, the Go interface \<open>Store\<close> as the locale
    \<open>key_value_service\<close>, and the HTTP handlers, whose lemmas are proved inside that locale.
  \<^item> \<open>Web_Answers\<close>: every list of requests is answered, with which statuses; inside the same locale.
  \<^item> \<open>Web_Handlers\<close>: the handlers side by side, each a goroutine whose calls of \<open>Set\<close> and \<open>Delete\<close> Raft
    commits in one order with those of the others, or refuses, loses, or commits after it reported an error.
  \<^item> \<open>Web_Main\<close> (\<open>webkvstore/main.go\<close>, \<open>Open\<close>, \<open>Start\<close>): how a node starts and joins over HTTP.
  \<^item> \<open>Instances\<close>: the copies of shared code that the other packages carry.
  \<^item> \<open>Start_Stop\<close>: the \<open>main\<close> of the chat server, its forwarders after \<open>Shutdown\<close>, the rest of the copies.
  \<^item> \<open>Command_Line\<close>, \<open>Programs\<close>: the \<open>flag\<close> package of the standard library and, with it, each program from its
    command line and environment to what it starts, profiles and the end of \<open>main\<close> included.

  This theory, after the header, joins one client, the server and the store: what it sends is what the map of
  the replica that leads ends with, whatever the other sessions hold.

  What the groups of properties show. Cluster: replicas agree and equal the fold of the committed
  commands; a committed command that is neither SET nor GET stops every replica for ever; every log
  file, a replica's or a logger's, through any crashes and restarts, recovers to a prefix of the
  commands, and any two agree; the slots of disk stores and the reads of webkvstore, each from a prefix
  of the log. Store: refinement of the abstract map on every branch, snapshot isolation and catch-up, and
  the aliasing of compressed values. Recovery and state transfer: reading a file in pieces, end to end from
  a replica's log to the recovered map, torn and stale logs. Membership and start-up: what \<open>JoinRaft\<close>
  does to the configuration, how a cluster forms, when a request kills a replica, who bootstraps, which
  request each goroutine of a logger sends, and the collisions of identifiers. Disk store: slots, their
  aliasing, its panics and its unframed log. Server and clients: the goroutines implement the server;
  with one leader the whole service is a sequential map serving all clients, and what is left of that when
  leadership moves (order and at-most-once per replica, but a SET can be committed twice, late); the reply a client
  gets, accounting of requests, what happens at \<open>Exit\<close>, when the clients end. Programs: what each command
  line starts or refuses, and how a replica ends. Chat: what is typed is proposed once and printed once, in one order for
  all clients, through the goroutines of every replica, and the failure of that for a client that joins late;
  delivery, what one client that stops reading does to the others, and where channels panic. Web: every request is answered, what POST, GET and DELETE do, one after the other and side by side.

  Bounds. Loops over data are structural recursions or have a measure. The loops that need not end are
  \<open>partial_function\<close>s, None when they run for ever: the reader of a chat session, proved to be always
  None, beside the same loop counted by turns, and the loops of the two clients' \<open>main\<close>, for which it is
  proved when they return and what. The JSON parser takes fuel, twice the length of the text and one more, and
  \<open>json_fuel\<close> shows that any fuel above gives the same. \<open>readAll\<close> is proved to return a file of fewer
  than \<open>2 ^ 61\<close> bytes, below which its buffer can always double; offsets of the disk store are below \<open>2 ^ 63\<close>.
  \<open>int\<close>, \<open>int32\<close> and \<open>uint64\<close> of Go are words where a conversion or an overflow can show (lengths of
  frames, offsets of slots, the counters, log indices).

  What is not modelled: Raft itself, gzip, TOML and Protocol Buffers (library code, parameters, as is
  journey, the recovery log of webkvstore), time (timers, sleeps, time-outs), log messages and usage
  texts, what \<open>pprof\<close> and the monitor scripts started by \<open>exec\<close> do (whether they fail is a parameter), the
  tests and the deployment files. Restarts of replicas are in \<open>Cluster\<close>, not in \<open>Replicated_Service\<close>.
\<close>

section \<open>From a client's commands to the replicated map\<close>

text \<open>A trace in which a leader handles and commits requests of the first session only.\<close>

definition served :: "sv_event list \<Rightarrow> bool" where
  "served evs \<longleftrightarrow> list_all (\<lambda>ev. case ev of
       Ev_request i rq E \<Rightarrow> i = 0 \<and> pe_role E = Leader \<and>
         (case pe_future E of Future_index n \<Rightarrow> True | Future_error e \<Rightarrow> False)
     | _ \<Rightarrow> True) evs"

lemma served_trace:
  "served evs \<Longrightarrow> handled_by 0 evs = requests evs \<and>
     map log_data (concat (map kv_server.committed_of evs)) =
       map (\<lambda>rq. trim_suffix [newline] (rq_command rq)) (requests evs)"
  by (induction evs)
     (auto simp: served_def handled_by_def requests_def kv_server.committed_of_def
       split: sv_event.splits apply_future.splits)

lemma fold_install_stamped:
  "map (\<lambda>e. pb_unmarshal P (log_data e)) es = map (\<lambda>c. Inr (c\<lparr>cmd_ip := u\<rparr>)) cs \<Longrightarrow>
     fold install_cmd (stamped P es) m = fold install_cmd cs m"
proof (induction es arbitrary: cs m)
  case (Cons e es)
  then show ?case by (cases cs) auto
qed simp

text \<open>End to end, from the client to the store of the replica that leads: commands whose encodings
  have no newline byte are broadcast over fresh connections; whatever the server's other events, if
  it leads and commits the requests of this client alone, its map is the map at the start with the
  SET commands among the first \<open>n\<close> that the client sent applied in the order it sent them, where
  \<open>n\<close> is the number of requests it has handled so far.\<close>

lemma client_to_map:
  assumes "\<forall>c \<in> set cmds. sendable P udp c"
    and "ci_svrs ci = map Some cs" and "\<forall>d \<in> set cs. cn_err d = None \<and> cn_out d = []"
    and "client_sends P ci cmds udp = (ci', r)" and "Some d \<in> set (ci_svrs ci')"
    and "server_run (kv_propose P G) (server_join (newServer st fd) remote (cn_out d)) evs sv"
    and "served evs" and "kv_inv st"
  shows "r = Ret None \<and> length (requests evs) \<le> length cmds \<and>
    kv_view (sv_store sv) = fold install_cmd (take (length (requests evs)) cmds) (kv_view st)"
proof -
  let ?es = "concat (map kv_server.committed_of evs)" and ?n = "length (requests evs)"
  have c: "r = Ret None" "session_read remote (cn_out d) = map (request_for P udp remote) cmds"
    using client_sends_session [OF assms(1-3), of remote] assms(4,5) by auto
  have "requests evs @ sv_queues sv ! 0 = map (request_for P udp remote) cmds"
    using kv_server.run_queue [OF assms(6), of 0] served_trace [OF assms(7)] c(2)
    by (simp add: server_join_def newServer_def)
  then have q: "requests evs = map (request_for P udp remote) (take ?n cmds)" "?n \<le> length cmds"
    using append_eq_map_prefix by blast+
  have ok: "\<forall>c \<in> set (take ?n cmds). sendable P udp c" using assms(1) by (auto dest: in_set_takeD)
  have "map (pb_unmarshal P) (map log_data ?es) =
      map (\<lambda>rq. pb_unmarshal P (trim_suffix [newline] (rq_command rq))) (requests evs)"
    using served_trace [OF assms(7)] by (simp add: comp_def)
  also have "\<dots> = map (\<lambda>c. Inr (c\<lparr>cmd_ip := udp\<rparr>)) (take ?n cmds)"
    by (subst q(1)) (simp add: ok request_decodes)
  finally have "fold install_cmd (stamped P ?es) (kv_view st) = fold install_cmd (take ?n cmds) (kv_view st)"
    by (intro fold_install_stamped [where u = udp]) (simp add: comp_def)
  then show ?thesis
    using kv_server.run_store [OF assms(6)] kv_run_replay [OF assms(8)] c(1) q(2)
    by (simp add: server_join_def newServer_def)
qed

end
